(* ===== verification/Prelude.thy ===== *)
theory Prelude
  imports Main "HOL-Library.Word"
begin

text \<open>
  What every component of the model shares: the machine integers and identifiers of the
  C++ code, the faults an execution can end in, \<open>std::vector\<close> resizing, and the generic
  lemmas on lists and words the component proofs use.  Nothing here models a function of
  the repository; the component theories do.
\<close>

unbundle bit_operations_syntax

section \<open>Types of the code\<close>

type_synonym u64 = "64 word"
type_synonym u32 = "32 word"
type_synonym i32 = "32 word"

text \<open>Addresses of heap objects (the raw pointer of a \<open>shared_ptr\<close>), file descriptors
  and kernel thread ids.  A file descriptor is a C++ \<open>int\<close> that the code only compares
  and indexes with, so it is an integer; negative values are representable.\<close>

type_synonym addr = nat
type_synonym fd = int
type_synonym tid = int

text \<open>
  How an execution can leave the defined behaviour: a failed \<open>AWCOTN_ASSERT\<close> (which logs
  a backtrace and calls \<open>assert\<close>), an operation the C++ standard leaves undefined
  (indexing a vector out of range, dereferencing or erasing \<open>end()\<close>, a null
  dereference), or an exception that leaves the function.
\<close>

datatype fault = Abort string | Undefined string | Throws string

type_synonym 'a res = "fault + 'a"

named_theorems op_defs \<open>definitions of operations, unfolded to case-split an operation\<close>
named_theorems inv_intros \<open>one preservation rule per operation\<close>

section \<open>Results\<close>

fun res_bind :: "'a res \<Rightarrow> ('a \<Rightarrow> 'b res) \<Rightarrow> 'b res" where
  "res_bind (Inl f) k = Inl f"
| "res_bind (Inr x) k = k x"

lemma res_bind_Inr_iff [simp]: "res_bind m k = Inr y \<longleftrightarrow> (\<exists>x. m = Inr x \<and> k x = Inr y)"
  by (cases m) auto

lemma res_bind_Inl_iff:
  "res_bind m k = Inl f \<longleftrightarrow> m = Inl f \<or> (\<exists>x. m = Inr x \<and> k x = Inl f)"
  by (cases m) auto

section \<open>\<open>std::vector\<close>\<close>

text \<open>\<open>v.resize(n)\<close> with default-constructed new elements \<open>d\<close>: truncates or extends.\<close>

definition vec_resize :: "nat \<Rightarrow> 'a \<Rightarrow> 'a list \<Rightarrow> 'a list" where
  "vec_resize n d xs = take n xs @ replicate (n - length xs) d"

lemma length_vec_resize [simp]: "length (vec_resize n d xs) = n"
  by (simp add: vec_resize_def)

lemma nth_vec_resize:
  "i < n \<Longrightarrow> vec_resize n d xs ! i = (if i < length xs then xs ! i else d)"
  by (auto simp: vec_resize_def nth_append)

lemma vec_resize_extend:
  "length xs \<le> n \<Longrightarrow> vec_resize n d xs = xs @ replicate (n - length xs) d"
  by (simp add: vec_resize_def)

lemma nth_list_update_if: "xs[i := x] ! j = (if i = j \<and> j < length xs then x else xs ! j)"
  by (cases "i < length xs") (auto simp: nth_list_update list_update_beyond)

section \<open>Words\<close>

lemma word_of_nat_Suc_minus_1 [simp]: "word_of_nat (Suc n) - 1 = (word_of_nat n :: 'a::len word)"
  by simp

lemma word_sub_less_self:
  fixes x y :: "'a::len word"
  assumes "y \<noteq> 0" and "y \<le> x"
  shows "x - y < x"
proof -
  have "unat y > 0" using assms(1) by (simp add: unat_gt_0)
  moreover have "unat y \<le> unat x" using assms(2) by (simp add: word_le_nat_alt)
  ultimately show ?thesis
    using assms(2) by (simp add: word_less_nat_alt unat_sub)
qed

lemma unat_ucast_u32 [simp]: "unat (ucast (x :: u32) :: u64) = unat x"
proof -
  have "unat x < 2 ^ 32" using unsigned_less [of x] by simp
  then show ?thesis by (simp add: unsigned_ucast_eq take_bit_nat_eq_self_iff)
qed

end
