(* ===== verification/Std_Set.thy ===== *)
theory Std_Set
  imports Prelude
begin

text \<open>
  The part of \<open>std::set<T, Compare>\<close> the code uses (\<open>insert\<close>, \<open>find\<close>, \<open>lower_bound\<close>,
  \<open>erase\<close> of an iterator or of a prefix, \<open>begin\<close>), on the list of elements in iteration
  order; an iterator is a position, \<open>end()\<close> the length of the list.  What the container
  requires of its comparator is the locale \<open>strict_weak_order\<close>; a comparator that never
  identifies two elements gives \<open>strict_total_order\<close>.  The users of the container
  (the timer set of \<open>timer.cc\<close> and the logger definitions of \<open>log.cc\<close>) interpret them
  with the comparators of the code.
\<close>

section \<open>Operations\<close>

text \<open>\<open>insert(x)\<close>: the new contents and the position \<open>.first\<close> points to (the inserted
  element, or the equivalent one that was there).\<close>

fun sset_insert :: "('a \<Rightarrow> 'a \<Rightarrow> bool) \<Rightarrow> 'a \<Rightarrow> 'a list \<Rightarrow> 'a list \<times> nat" where
  "sset_insert lt x [] = ([x], 0)"
| "sset_insert lt x (y # ys) =
     (if lt x y then (x # y # ys, 0)
      else if lt y x then (case sset_insert lt x ys of (zs, p) \<Rightarrow> (y # zs, Suc p))
      else (y # ys, 0))"

definition sset_lower_bound :: "('a \<Rightarrow> 'a \<Rightarrow> bool) \<Rightarrow> 'a \<Rightarrow> 'a list \<Rightarrow> nat" where
  "sset_lower_bound lt x xs = length (takeWhile (\<lambda>y. lt y x) xs)"

definition sset_find :: "('a \<Rightarrow> 'a \<Rightarrow> bool) \<Rightarrow> 'a \<Rightarrow> 'a list \<Rightarrow> nat" where
  "sset_find lt x xs =
     (let p = sset_lower_bound lt x xs
      in if p < length xs \<and> \<not> lt x (xs ! p) then p else length xs)"

text \<open>\<open>erase(it)\<close>: undefined for \<open>end()\<close>.\<close>

definition sset_erase :: "nat \<Rightarrow> 'a list \<Rightarrow> 'a list res" where
  "sset_erase p xs =
     (if p < length xs then Inr (take p xs @ drop (Suc p) xs)
      else Inl (Undefined ''erase(end())''))"

section \<open>The comparator's contract\<close>

locale strict_weak_order =
  fixes lt :: "'a \<Rightarrow> 'a \<Rightarrow> bool"
  assumes lt_irrefl: "\<not> lt x x"
    and lt_trans: "lt x y \<Longrightarrow> lt y z \<Longrightarrow> lt x z"
    and incomp_trans: "\<not> lt x y \<Longrightarrow> \<not> lt y z \<Longrightarrow> \<not> lt x z"
begin

definition equiv_keys :: "'a \<Rightarrow> 'a \<Rightarrow> bool" where
  "equiv_keys x y \<longleftrightarrow> \<not> lt x y \<and> \<not> lt y x"

lemma asym: "lt x y \<Longrightarrow> \<not> lt y x"
  using lt_irrefl lt_trans by blast

lemma insert_set_subset: "set (fst (sset_insert lt x xs)) \<subseteq> insert x (set xs)"
  by (induction xs) (auto split: prod.splits)

lemma insert_keeps: "set xs \<subseteq> set (fst (sset_insert lt x xs))"
  by (induction xs) (auto split: prod.splits)

lemma insert_sorted: "sorted_wrt lt xs \<Longrightarrow> sorted_wrt lt (fst (sset_insert lt x xs))"
proof (induction xs)
  case Nil
  then show ?case by simp
next
  case (Cons y ys)
  then have IH: "sorted_wrt lt (fst (sset_insert lt x ys))" and y: "\<forall>z\<in>set ys. lt y z"
    by auto
  show ?case
  proof (cases "lt y x")
    case True
    then have "\<forall>z\<in>set (fst (sset_insert lt x ys)). lt y z"
      using y insert_set_subset [of x ys] by auto
    with IH True show ?thesis by (auto split: prod.splits dest: asym)
  next
    case False
    with Cons.prems show ?thesis by (auto intro: lt_trans)
  qed
qed

lemma insert_contains: "\<exists>y\<in>set (fst (sset_insert lt x xs)). y = x \<or> equiv_keys x y"
  by (induction xs) (auto split: prod.splits simp: equiv_keys_def)

lemma insert_pos:
  "sorted_wrt lt xs \<Longrightarrow>
   snd (sset_insert lt x xs) < length (fst (sset_insert lt x xs))
   \<and> (let y = fst (sset_insert lt x xs) ! snd (sset_insert lt x xs) in y = x \<or> equiv_keys x y)"
  by (induction xs) (auto split: prod.splits simp: equiv_keys_def Let_def)

lemma insert_front_iff:
  "sorted_wrt lt xs \<Longrightarrow>
   snd (sset_insert lt x xs) = 0 \<longleftrightarrow> (\<forall>y\<in>set xs. \<not> lt y x)"
proof (induction xs)
  case (Cons y ys)
  then show ?case
    by (auto split: prod.splits dest: asym intro: lt_trans)
qed simp

lemma dropWhile_none:
  "sorted_wrt lt xs \<Longrightarrow> y \<in> set (dropWhile (\<lambda>y. lt y x) xs) \<Longrightarrow> \<not> lt y x"
proof (induction xs)
  case (Cons z zs)
  show ?case
  proof (cases "lt z x")
    case True
    with Cons show ?thesis by simp
  next
    case False
    with Cons.prems show ?thesis using lt_trans [of z y x] by auto
  qed
qed simp

lemma lower_bound_split:
  assumes "sorted_wrt lt xs"
  shows "(\<forall>y\<in>set (take (sset_lower_bound lt x xs) xs). lt y x)
       \<and> (\<forall>y\<in>set (drop (sset_lower_bound lt x xs) xs). \<not> lt y x)"
proof -
  have "take (sset_lower_bound lt x xs) xs = takeWhile (\<lambda>y. lt y x) xs"
    and "drop (sset_lower_bound lt x xs) xs = dropWhile (\<lambda>y. lt y x) xs"
    by (simp_all add: sset_lower_bound_def takeWhile_eq_take [symmetric] dropWhile_eq_drop [symmetric])
  then show ?thesis
    using dropWhile_none [OF assms] by (metis set_takeWhileD)
qed

lemma find_iff:
  assumes "sorted_wrt lt xs"
  shows "sset_find lt x xs < length xs \<longleftrightarrow> (\<exists>y\<in>set xs. equiv_keys x y)"
proof
  assume l: "sset_find lt x xs < length xs"
  then have p: "sset_lower_bound lt x xs < length xs"
    and n: "\<not> lt x (xs ! sset_lower_bound lt x xs)"
    by (auto simp: sset_find_def Let_def split: if_splits)
  have "\<not> lt (xs ! sset_lower_bound lt x xs) x"
    using p nth_length_takeWhile [of "\<lambda>y. lt y x" xs] by (simp add: sset_lower_bound_def)
  then show "\<exists>y\<in>set xs. equiv_keys x y" using n p by (auto simp: equiv_keys_def)
next
  assume "\<exists>y\<in>set xs. equiv_keys x y"
  then obtain y where y: "y \<in> set xs" "equiv_keys x y" by blast
  let ?p = "sset_lower_bound lt x xs"
  have "y \<in> set (drop ?p xs)"
    using y lower_bound_split [OF assms, of x]
    by (metis UnE append_take_drop_id equiv_keys_def set_append)
  then have p: "?p < length xs" by (cases "?p < length xs") auto
  have "xs ! ?p = y \<or> lt (xs ! ?p) y"
  proof -
    have "drop ?p xs = xs ! ?p # drop (Suc ?p) xs" using p by (rule Cons_nth_drop_Suc [symmetric])
    then have "sorted_wrt lt (xs ! ?p # drop (Suc ?p) xs)"
      using assms sorted_wrt_drop by metis
    with \<open>y \<in> set (drop ?p xs)\<close> \<open>drop ?p xs = _\<close> show ?thesis by auto
  qed
  then have "\<not> lt x (xs ! ?p)" using y(2) by (auto simp: equiv_keys_def dest: lt_trans)
  with p show "sset_find lt x xs < length xs" by (simp add: sset_find_def Let_def)
qed

lemma find_equiv:
  assumes "sset_find lt x xs < length xs"
  shows "equiv_keys x (xs ! sset_find lt x xs)"
proof -
  have p: "sset_lower_bound lt x xs < length xs"
    and "\<not> lt x (xs ! sset_lower_bound lt x xs)"
    and "sset_find lt x xs = sset_lower_bound lt x xs"
    using assms by (auto simp: sset_find_def Let_def split: if_splits)
  moreover have "\<not> lt (xs ! sset_lower_bound lt x xs) x"
    using p nth_length_takeWhile [of "\<lambda>y. lt y x" xs] by (simp add: sset_lower_bound_def)
  ultimately show ?thesis by (simp add: equiv_keys_def)
qed

lemma sorted_distinct: "sorted_wrt lt xs \<Longrightarrow> distinct xs"
  by (induction xs) (auto simp: lt_irrefl)

lemma erase_sorted:
  "sorted_wrt lt xs \<Longrightarrow> sset_erase p xs = Inr ys \<Longrightarrow> sorted_wrt lt ys"
  by (auto simp: sset_erase_def sorted_wrt_append split: if_splits)
    (metis append_take_drop_id in_set_dropD nth_append_right set_drop_subset_set_drop
      sorted_wrt_append subsetD Suc_n_not_le_n nat_le_linear sorted_wrt_take sorted_wrt_drop)+

end

locale strict_total_order = strict_weak_order +
  assumes total: "x \<noteq> y \<Longrightarrow> lt x y \<or> lt y x"
begin

lemma equiv_eq [simp]: "equiv_keys x y \<longleftrightarrow> x = y"
  using total lt_irrefl by (auto simp: equiv_keys_def)

lemma insert_set: "set (fst (sset_insert lt x xs)) = insert x (set xs)"
  using insert_set_subset [of x xs] insert_keeps [of xs x] insert_contains [of x xs] by auto

lemma find_mem: "sorted_wrt lt xs \<Longrightarrow> sset_find lt x xs < length xs \<longleftrightarrow> x \<in> set xs"
  by (simp add: find_iff)

lemma find_nth: "sset_find lt x xs < length xs \<Longrightarrow> xs ! sset_find lt x xs = x"
  using find_equiv by simp

lemma erase_found:
  assumes "sorted_wrt lt xs" and "x \<in> set xs"
  shows "sset_erase (sset_find lt x xs) xs = Inr (remove1 x xs)"
proof -
  let ?p = "sset_find lt x xs"
  have p: "?p < length xs" and nth: "xs ! ?p = x"
    using assms find_mem find_nth by auto
  have xs: "xs = take ?p xs @ x # drop (Suc ?p) xs"
    using p nth by (metis id_take_nth_drop)
  have "distinct xs" using assms(1) by (rule sorted_distinct)
  then have "x \<notin> set (take ?p xs)" using xs by (metis distinct.simps(2) distinct_append
      disjoint_iff list.set_intros(1))
  then have "remove1 x xs = take ?p xs @ drop (Suc ?p) xs"
    by (subst xs) (simp add: remove1_append)
  with p show ?thesis by (simp add: sset_erase_def)
qed

lemma remove1_sorted: "sorted_wrt lt xs \<Longrightarrow> sorted_wrt lt (remove1 x xs)"
proof (induction xs)
  case (Cons y ys)
  then show ?case using set_remove1_subset [of x ys] by auto
qed simp

lemma set_remove: "sorted_wrt lt xs \<Longrightarrow> set (remove1 x xs) = set xs - {x}"
  by (simp add: sorted_distinct)

end

end
