(* ===== verification/Timer.thy ===== *)
theory Timer
  imports Std_Set
begin

text \<open>
  The timers of \<open>timer.h\<close> and \<open>timer.cc\<close>: \<open>Timer\<close> objects on the heap, the ordered set
  of pointers to them in \<open>TimerManager\<close>, and its operations.  The clock
  (\<open>GetCurrentMS()\<close>) and the address of each new object are arguments.  Every operation
  that returns through \<open>addTimer(Timer::ptr, WriteLock&)\<close> also says whether it called the
  virtual \<open>onTimerInsertedAtFront()\<close>.  The lemmas give the invariant of the set, the
  absence of undefined behaviour, and what each operation does to the set and the heap.
\<close>

section \<open>Data\<close>

text \<open>A timer callback: a plain function, or \<open>std::bind(&OnTimer, weak_cond, cb)\<close>, with
  the object \<open>weak_cond\<close> watches named by its address.\<close>

datatype 'cb timer_fn = Fn 'cb | OnTimerFn addr 'cb

record 'cb timer =
  m_recurring :: bool
  m_ms :: u64
  m_next :: u64
  m_cb :: "'cb timer_fn option"

text \<open>\<open>tm_heap\<close> holds the \<open>Timer\<close> objects by address and \<open>tm_live\<close> the addresses of those
  that were created; \<open>m_timers\<close> is the \<open>std::set\<close> in iteration order.\<close>

record 'cb timer_manager =
  tm_heap :: "addr \<Rightarrow> 'cb timer"
  tm_live :: "addr set"
  m_timers :: "addr list"
  m_tickled :: bool
  m_previouseTime :: u64

section \<open>The comparator\<close>

definition timer_comparator ::
  "(addr \<Rightarrow> 'cb timer) \<Rightarrow> addr option \<Rightarrow> addr option \<Rightarrow> bool" where
  "timer_comparator h lhs rhs =
     (case (lhs, rhs) of
        (None, None) \<Rightarrow> False
      | (None, Some _) \<Rightarrow> True
      | (Some _, None) \<Rightarrow> False
      | (Some l, Some r) \<Rightarrow>
          if m_next (h l) < m_next (h r) then True
          else if m_next (h l) = m_next (h r) then l < r
          else False)"

abbreviation timer_lt :: "(addr \<Rightarrow> 'cb timer) \<Rightarrow> addr \<Rightarrow> addr \<Rightarrow> bool" where
  "timer_lt h a b \<equiv> timer_comparator h (Some a) (Some b)"

lemma timer_lt_iff:
  "timer_lt h a b \<longleftrightarrow> m_next (h a) < m_next (h b) \<or> m_next (h a) = m_next (h b) \<and> a < b"
  by (auto simp: timer_comparator_def)

interpretation tset: strict_total_order "timer_lt h" for h
  by unfold_locales (auto simp: timer_lt_iff)

section \<open>Operations\<close>

text \<open>\<open>OnTimer\<close>: the callback it runs, if the watched object is still alive.\<close>

definition OnTimer :: "(addr \<Rightarrow> bool) \<Rightarrow> addr \<Rightarrow> 'cb \<Rightarrow> 'cb option" where
  "OnTimer alive weak_cond cb = (if alive weak_cond then Some cb else None)"

fun run_timer_fn :: "(addr \<Rightarrow> bool) \<Rightarrow> 'cb timer_fn \<Rightarrow> 'cb option" where
  "run_timer_fn alive (Fn cb) = Some cb"
| "run_timer_fn alive (OnTimerFn w cb) = OnTimer alive w cb"

definition Timer_ctor :: "u64 \<Rightarrow> 'cb timer_fn option \<Rightarrow> bool \<Rightarrow> u64 \<Rightarrow> 'cb timer" where
  "Timer_ctor ms cb recurring now =
     \<lparr>m_recurring = recurring, m_ms = ms, m_next = ms + now, m_cb = cb\<rparr>"

text \<open>\<open>Timer(uint64_t next)\<close>, the probe of \<open>listExpiredCb\<close>; the constructor leaves \<open>m_ms\<close>
  unset and nothing reads it.\<close>

definition Timer_probe :: "u64 \<Rightarrow> 'cb timer" where
  "Timer_probe next = \<lparr>m_recurring = False, m_ms = 0, m_next = next, m_cb = None\<rparr>"

definition TimerManager_ctor :: "u64 \<Rightarrow> 'cb timer_manager" where
  "TimerManager_ctor now =
     \<lparr>tm_heap = (\<lambda>_. Timer_probe 0), tm_live = {}, m_timers = [], m_tickled = False,
      m_previouseTime = now\<rparr>"

text \<open>\<open>addTimer(Timer::ptr val, WriteLock& lock)\<close>.\<close>

definition addTimer_val :: "addr \<Rightarrow> 'cb timer_manager \<Rightarrow> bool \<times> 'cb timer_manager" where
  "addTimer_val val tm =
     (case sset_insert (timer_lt (tm_heap tm)) val (m_timers tm) of
        (ts, it) \<Rightarrow>
          let at_front = (it = 0 \<and> \<not> m_tickled tm)
          in (at_front, tm\<lparr>m_timers := ts, m_tickled := (if at_front then True else m_tickled tm)\<rparr>))"

text \<open>\<open>addTimer(ms, cb, recurring)\<close>; \<open>a\<close> is the address of the new \<open>Timer\<close>.\<close>

definition addTimer ::
  "u64 \<Rightarrow> 'cb timer_fn option \<Rightarrow> bool \<Rightarrow> u64 \<Rightarrow> addr \<Rightarrow> 'cb timer_manager
   \<Rightarrow> bool \<times> 'cb timer_manager" where
  "addTimer ms cb recurring now a tm =
     addTimer_val a
       (tm\<lparr>tm_heap := (tm_heap tm)(a := Timer_ctor ms cb recurring now),
           tm_live := insert a (tm_live tm)\<rparr>)"

definition addConditionTimer ::
  "u64 \<Rightarrow> 'cb \<Rightarrow> addr \<Rightarrow> bool \<Rightarrow> u64 \<Rightarrow> addr \<Rightarrow> 'cb timer_manager
   \<Rightarrow> bool \<times> 'cb timer_manager" where
  "addConditionTimer ms cb weak_cond recurring now a tm =
     addTimer ms (Some (OnTimerFn weak_cond cb)) recurring now a tm"

definition set_timer :: "addr \<Rightarrow> 'cb timer \<Rightarrow> 'cb timer_manager \<Rightarrow> 'cb timer_manager" where
  "set_timer a t tm = tm\<lparr>tm_heap := (tm_heap tm)(a := t)\<rparr>"

definition cancel :: "addr \<Rightarrow> 'cb timer_manager \<Rightarrow> (bool \<times> 'cb timer_manager) res" where
  "cancel a tm =
     (if m_cb (tm_heap tm a) \<noteq> None then
        let tm1 = set_timer a ((tm_heap tm a)\<lparr>m_cb := None\<rparr>) tm;
            it = sset_find (timer_lt (tm_heap tm1)) a (m_timers tm1)
        in res_bind (sset_erase it (m_timers tm1)) (\<lambda>ts. Inr (True, tm1\<lparr>m_timers := ts\<rparr>))
      else Inr (False, tm))"

text \<open>The results of \<open>refresh\<close> and \<open>reset\<close>: the return value, whether the front was
  notified, the new state.\<close>

definition refresh ::
  "addr \<Rightarrow> u64 \<Rightarrow> 'cb timer_manager \<Rightarrow> (bool \<times> bool \<times> 'cb timer_manager) res" where
  "refresh a now tm =
     (if m_cb (tm_heap tm a) = None then Inr (False, False, tm)
      else
        let it = sset_find (timer_lt (tm_heap tm)) a (m_timers tm)
        in if it = length (m_timers tm) then Inr (False, False, tm)
           else
             res_bind (sset_erase it (m_timers tm)) (\<lambda>ts.
               let tm1 = tm\<lparr>m_timers := ts\<rparr>;
                   t = tm_heap tm1 a;
                   tm2 = set_timer a (t\<lparr>m_next := now + m_ms t\<rparr>) tm1
               in case addTimer_val a tm2 of (n, tm3) \<Rightarrow> Inr (True, n, tm3)))"

definition reset ::
  "addr \<Rightarrow> u64 \<Rightarrow> bool \<Rightarrow> u64 \<Rightarrow> 'cb timer_manager \<Rightarrow> (bool \<times> bool \<times> 'cb timer_manager) res" where
  "reset a ms from_now now tm =
     (if ms = m_ms (tm_heap tm a) \<and> \<not> from_now then Inr (False, False, tm)
      else if m_cb (tm_heap tm a) = None then Inr (False, False, tm)
      else
        let it = sset_find (timer_lt (tm_heap tm)) a (m_timers tm)
        in if it = length (m_timers tm) then Inr (False, False, tm)
           else
             res_bind (sset_erase it (m_timers tm)) (\<lambda>ts.
               let tm1 = tm\<lparr>m_timers := ts\<rparr>;
                   t = tm_heap tm1 a;
                   start = (if from_now then now else m_next t - m_ms t);
                   tm2 = set_timer a (t\<lparr>m_ms := ms, m_next := start + ms\<rparr>) tm1
               in case addTimer_val a tm2 of (n, tm3) \<Rightarrow> Inr (True, n, tm3)))"

definition getNextTimer :: "u64 \<Rightarrow> 'cb timer_manager \<Rightarrow> u64 \<times> 'cb timer_manager" where
  "getNextTimer now tm =
     (let tm1 = tm\<lparr>m_tickled := False\<rparr>
      in case m_timers tm1 of
           [] \<Rightarrow> (NOT 0, tm1)
         | next # _ \<Rightarrow>
             if now \<ge> m_next (tm_heap tm1 next) then (0, tm1)
             else (m_next (tm_heap tm1 next) - now, tm1))"

definition hasTimer :: "'cb timer_manager \<Rightarrow> bool" where
  "hasTimer tm = (m_timers tm \<noteq> [])"

definition delectClockRollover :: "u64 \<Rightarrow> 'cb timer_manager \<Rightarrow> bool \<times> 'cb timer_manager" where
  "delectClockRollover now_ms tm =
     (now_ms < m_previouseTime tm \<and> now_ms < m_previouseTime tm - 60 * 60 * 1000,
      tm\<lparr>m_previouseTime := now_ms\<rparr>)"

text \<open>\<open>while(it != end && (*it)->m_next == now_ms) ++it;\<close>\<close>

definition skip_equal :: "(addr \<Rightarrow> 'cb timer) \<Rightarrow> u64 \<Rightarrow> addr list \<Rightarrow> nat \<Rightarrow> nat" where
  "skip_equal h now ts it = it + length (takeWhile (\<lambda>i. m_next (h i) = now) (drop it ts))"

text \<open>The loop over \<open>expired\<close> at the end of \<open>listExpiredCb\<close>.\<close>

fun fire_expired ::
  "u64 \<Rightarrow> addr list \<Rightarrow> 'cb timer_fn option list \<times> 'cb timer_manager
   \<Rightarrow> 'cb timer_fn option list \<times> 'cb timer_manager" where
  "fire_expired now [] (cbs, tm) = (cbs, tm)"
| "fire_expired now (i # is) (cbs, tm) =
     (let t = tm_heap tm i; cbs' = cbs @ [m_cb t]
      in if m_recurring t then
           let tm1 = set_timer i (t\<lparr>m_next := now + m_ms t\<rparr>) tm
           in fire_expired now is
                (cbs', tm1\<lparr>m_timers := fst (sset_insert (timer_lt (tm_heap tm1)) i (m_timers tm1))\<rparr>)
         else fire_expired now is (cbs', set_timer i (t\<lparr>m_cb := None\<rparr>) tm))"

text \<open>The part of \<open>listExpiredCb\<close> under the write lock; \<open>p\<close> is the address of \<open>now_timer\<close>.\<close>

definition listExpiredCb_locked ::
  "u64 \<Rightarrow> addr \<Rightarrow> 'cb timer_manager \<Rightarrow> ('cb timer_fn option list \<times> 'cb timer_manager) res" where
  "listExpiredCb_locked now_ms p tm =
     (case delectClockRollover now_ms tm of (rollover, tm1) \<Rightarrow>
        if \<not> rollover \<and> m_timers tm1 = [] then Inl (Undefined ''*m_timers.begin()'')
        else if \<not> rollover \<and> m_next (tm_heap tm1 (hd (m_timers tm1))) < now_ms then Inr ([], tm1)
        else
          let h = (tm_heap tm1)(p := Timer_probe now_ms);
              it0 = (if rollover then length (m_timers tm1)
                     else sset_lower_bound (timer_lt h) p (m_timers tm1));
              it = skip_equal h now_ms (m_timers tm1) it0;
              expired = take it (m_timers tm1)
          in Inr (fire_expired now_ms expired ([], tm1\<lparr>m_timers := drop it (m_timers tm1)\<rparr>)))"

text \<open>\<open>listExpiredCb\<close> without interference: the read-locked test, then the locked part.\<close>

definition listExpiredCb ::
  "u64 \<Rightarrow> addr \<Rightarrow> 'cb timer_manager \<Rightarrow> ('cb timer_fn option list \<times> 'cb timer_manager) res" where
  "listExpiredCb now_ms p tm =
     (if m_timers tm = [] then Inr ([], tm) else listExpiredCb_locked now_ms p tm)"

section \<open>The invariant\<close>

text \<open>
  The set is ordered by the comparator (so \<open>find\<close> is right), it holds live timers only,
  and a live timer that still has its callback is in the set (so \<open>cancel\<close>, which erases
  the result of \<open>find\<close> without a test, never erases \<open>end()\<close>).
\<close>

definition timer_inv :: "'cb timer_manager \<Rightarrow> bool" where
  "timer_inv tm \<longleftrightarrow>
     sorted_wrt (timer_lt (tm_heap tm)) (m_timers tm)
     \<and> set (m_timers tm) \<subseteq> tm_live tm
     \<and> (\<forall>a\<in>tm_live tm. m_cb (tm_heap tm a) \<noteq> None \<longrightarrow> a \<in> set (m_timers tm))"

lemma timer_inv_ctor [inv_intros]: "timer_inv (TimerManager_ctor now)"
  by (simp add: timer_inv_def TimerManager_ctor_def)

text \<open>The comparator reads \<open>m_next\<close> only: other heap updates keep the order.\<close>

lemma sorted_heap_cong:
  assumes "\<And>a. a \<in> set xs \<Longrightarrow> m_next (h' a) = m_next (h a)"
  shows "sorted_wrt (timer_lt h') xs \<longleftrightarrow> sorted_wrt (timer_lt h) xs"
  using assms by (induction xs) (auto simp: timer_lt_iff)

lemma sorted_heap_update_other:
  "a \<notin> set xs \<Longrightarrow> sorted_wrt (timer_lt (h(a := t))) xs = sorted_wrt (timer_lt h) xs"
  by (rule sorted_heap_cong) auto

lemma sorted_heap_update_same:
  "m_next t = m_next (h a) \<Longrightarrow> sorted_wrt (timer_lt (h(a := t))) xs = sorted_wrt (timer_lt h) xs"
  by (rule sorted_heap_cong) auto

lemma set_timer_simps [simp]:
  "tm_heap (set_timer a t tm) = (tm_heap tm)(a := t)"
  "m_timers (set_timer a t tm) = m_timers tm"
  "tm_live (set_timer a t tm) = tm_live tm"
  "m_tickled (set_timer a t tm) = m_tickled tm"
  "m_previouseTime (set_timer a t tm) = m_previouseTime tm"
  by (simp_all add: set_timer_def)

text \<open>\<open>addTimer_val\<close> field by field.\<close>

lemma addTimer_val_simps [simp]:
  "tm_heap (snd (addTimer_val a tm)) = tm_heap tm"
  "tm_live (snd (addTimer_val a tm)) = tm_live tm"
  "m_timers (snd (addTimer_val a tm)) = fst (sset_insert (timer_lt (tm_heap tm)) a (m_timers tm))"
  "m_previouseTime (snd (addTimer_val a tm)) = m_previouseTime tm"
  "m_tickled (snd (addTimer_val a tm)) \<longleftrightarrow> m_tickled tm \<or> fst (addTimer_val a tm)"
  by (auto simp: addTimer_val_def Let_def split: prod.splits)

lemma addTimer_val_notifies:
  "sorted_wrt (timer_lt (tm_heap tm)) (m_timers tm) \<Longrightarrow>
   fst (addTimer_val a tm) \<longleftrightarrow>
     \<not> m_tickled tm \<and> (\<forall>b\<in>set (m_timers tm). \<not> timer_lt (tm_heap tm) b a)"
  by (auto simp: addTimer_val_def Let_def tset.insert_front_iff [symmetric] split: prod.splits)

lemma addTimer_val_set:
  "set (m_timers (snd (addTimer_val a tm))) = insert a (set (m_timers tm))"
  by (simp add: tset.insert_set)

lemma addTimer_val_inv:
  assumes "sorted_wrt (timer_lt (tm_heap tm)) (m_timers tm)"
    and "insert a (set (m_timers tm)) \<subseteq> tm_live tm"
    and "\<forall>b\<in>tm_live tm. m_cb (tm_heap tm b) \<noteq> None \<longrightarrow> b \<in> insert a (set (m_timers tm))"
  shows "timer_inv (snd (addTimer_val a tm))"
  using assms by (simp add: timer_inv_def tset.insert_sorted tset.insert_set)

lemma addTimer_inv [inv_intros]:
  assumes "timer_inv tm" and "a \<notin> tm_live tm"
  shows "timer_inv (snd (addTimer ms cb r now a tm))"
proof -
  have "a \<notin> set (m_timers tm)" using assms by (auto simp: timer_inv_def)
  with assms show ?thesis
    unfolding addTimer_def
    by (intro addTimer_val_inv) (auto simp: timer_inv_def sorted_heap_update_other)
qed

lemma addConditionTimer_inv [inv_intros]:
  "timer_inv tm \<Longrightarrow> a \<notin> tm_live tm \<Longrightarrow>
   timer_inv (snd (addConditionTimer ms cb w r now a tm))"
  by (simp add: addConditionTimer_def addTimer_inv)

text \<open>Erasing a member: the shared first half of \<open>cancel\<close>, \<open>refresh\<close> and \<open>reset\<close>.\<close>

lemma erase_member:
  assumes "sorted_wrt (timer_lt h) xs" and "a \<in> set xs"
  shows "sset_erase (sset_find (timer_lt h) a xs) xs = Inr (remove1 a xs)"
    and "sset_find (timer_lt h) a xs \<noteq> length xs"
  using tset.erase_found [OF assms] tset.find_mem [OF assms(1), of a] assms(2) by auto

lemma cancel_eq:
  assumes "timer_inv tm" and "a \<in> tm_live tm"
  shows "cancel a tm =
    (if m_cb (tm_heap tm a) = None then Inr (False, tm)
     else Inr (True, (set_timer a ((tm_heap tm a)\<lparr>m_cb := None\<rparr>) tm)
            \<lparr>m_timers := remove1 a (m_timers tm)\<rparr>))"
proof (cases "m_cb (tm_heap tm a) = None")
  case False
  let ?h = "(tm_heap tm)(a := (tm_heap tm a)\<lparr>m_cb := None\<rparr>)"
  have "a \<in> set (m_timers tm)" using assms False by (auto simp: timer_inv_def)
  moreover have "sorted_wrt (timer_lt ?h) (m_timers tm)"
    using assms(1) by (simp add: timer_inv_def sorted_heap_update_same)
  ultimately show ?thesis using False by (simp add: cancel_def Let_def erase_member)
qed (simp add: cancel_def)

lemma cancel_inv [inv_intros]:
  assumes "timer_inv tm" and "a \<in> tm_live tm" and "cancel a tm = Inr (b, tm')"
  shows "timer_inv tm'"
  using assms
  by (auto simp: cancel_eq timer_inv_def sorted_heap_update_same tset.remove1_sorted
      tset.set_remove split: if_splits)

text \<open>\<open>refresh\<close> and \<open>reset\<close> both take the timer out, change it, and add it again.\<close>

definition readd :: "addr \<Rightarrow> 'cb timer \<Rightarrow> 'cb timer_manager \<Rightarrow> bool \<times> 'cb timer_manager" where
  "readd a t tm = addTimer_val a (set_timer a t (tm\<lparr>m_timers := remove1 a (m_timers tm)\<rparr>))"

lemma readd_inv:
  assumes "timer_inv tm" and "a \<in> tm_live tm"
  shows "timer_inv (snd (readd a t tm))"
proof -
  have s: "sorted_wrt (timer_lt (tm_heap tm)) (m_timers tm)" using assms by (simp add: timer_inv_def)
  then have "a \<notin> set (remove1 a (m_timers tm))" by (simp add: tset.set_remove)
  with s assms show ?thesis
    unfolding readd_def
    by (intro addTimer_val_inv)
      (auto simp: timer_inv_def sorted_heap_update_other tset.remove1_sorted tset.set_remove)
qed

lemma refresh_eq:
  assumes "timer_inv tm" and "a \<in> tm_live tm"
  shows "refresh a now tm =
    (let t = tm_heap tm a in
     if m_cb t = None then Inr (False, False, tm)
     else Inr (True, readd a (t\<lparr>m_next := now + m_ms t\<rparr>) tm))"
proof (cases "m_cb (tm_heap tm a) = None")
  case False
  then have "a \<in> set (m_timers tm)" and "sorted_wrt (timer_lt (tm_heap tm)) (m_timers tm)"
    using assms by (auto simp: timer_inv_def)
  with False show ?thesis
    by (simp add: refresh_def Let_def erase_member readd_def set_timer_def split: prod.splits)
qed (simp add: refresh_def)

lemma reset_eq:
  assumes "timer_inv tm" and "a \<in> tm_live tm"
  shows "reset a ms from_now now tm =
    (let t = tm_heap tm a; start = (if from_now then now else m_next t - m_ms t) in
     if (ms = m_ms t \<and> \<not> from_now) \<or> m_cb t = None then Inr (False, False, tm)
     else Inr (True, readd a (t\<lparr>m_ms := ms, m_next := start + ms\<rparr>) tm))"
proof (cases "(ms = m_ms (tm_heap tm a) \<and> \<not> from_now) \<or> m_cb (tm_heap tm a) = None")
  case False
  then have "a \<in> set (m_timers tm)" and "sorted_wrt (timer_lt (tm_heap tm)) (m_timers tm)"
    using assms by (auto simp: timer_inv_def)
  with False show ?thesis
    by (simp add: reset_def Let_def erase_member readd_def set_timer_def split: prod.splits)
qed (auto simp: reset_def)

lemma refresh_inv [inv_intros]:
  "timer_inv tm \<Longrightarrow> a \<in> tm_live tm \<Longrightarrow> refresh a now tm = Inr (b, n, tm') \<Longrightarrow> timer_inv tm'"
  by (auto simp: refresh_eq Let_def split: if_splits dest: readd_inv [of tm a] simp: prod_eq_iff)

lemma reset_inv [inv_intros]:
  "timer_inv tm \<Longrightarrow> a \<in> tm_live tm \<Longrightarrow> reset a ms f now tm = Inr (b, n, tm') \<Longrightarrow> timer_inv tm'"
  by (auto simp: reset_eq Let_def split: if_splits dest: readd_inv [of tm a] simp: prod_eq_iff)

lemma getNextTimer_state: "snd (getNextTimer now tm) = tm\<lparr>m_tickled := False\<rparr>"
  by (auto simp: getNextTimer_def Let_def split: list.splits)

lemma getNextTimer_inv [inv_intros]: "timer_inv tm \<Longrightarrow> timer_inv (snd (getNextTimer now tm))"
  by (simp add: getNextTimer_state timer_inv_def)

section \<open>Firing\<close>

text \<open>
  During the loop over \<open>expired\<close> the timers still to be treated are outside the set; the
  invariant is that of \<open>timer_inv\<close> with them counted in.
\<close>

definition fire_inv :: "addr list \<Rightarrow> 'cb timer_manager \<Rightarrow> bool" where
  "fire_inv is tm \<longleftrightarrow>
     sorted_wrt (timer_lt (tm_heap tm)) (m_timers tm) \<and> distinct is
     \<and> set is \<inter> set (m_timers tm) = {} \<and> set is \<union> set (m_timers tm) \<subseteq> tm_live tm
     \<and> (\<forall>a\<in>tm_live tm. m_cb (tm_heap tm a) \<noteq> None \<longrightarrow> a \<in> set is \<union> set (m_timers tm))"

lemma fire_inv_Nil: "fire_inv [] tm \<longleftrightarrow> timer_inv tm"
  by (auto simp: fire_inv_def timer_inv_def)

lemma fire_inv_recurring:
  assumes "fire_inv (i # is) tm"
  shows "fire_inv is
    (let tm1 = set_timer i t tm
     in tm1\<lparr>m_timers := fst (sset_insert (timer_lt (tm_heap tm1)) i (m_timers tm1))\<rparr>)"
  using assms
  by (auto simp: fire_inv_def Let_def tset.insert_set sorted_heap_update_other intro!: tset.insert_sorted)

lemma fire_inv_oneshot:
  assumes "fire_inv (i # is) tm" and "m_cb t = None"
  shows "fire_inv is (set_timer i t tm)"
  using assms by (auto simp: fire_inv_def sorted_heap_update_other)

lemma fire_expired_inv:
  "fire_inv is tm \<Longrightarrow> timer_inv (snd (fire_expired now is (cbs, tm)))"
proof (induction "is" arbitrary: cbs tm)
  case Nil
  then show ?case by (simp add: fire_inv_Nil)
next
  case (Cons i "is")
  show ?case
  proof (cases "m_recurring (tm_heap tm i)")
    case True
    then show ?thesis
      using Cons.IH [OF fire_inv_recurring [OF Cons.prems]] by (simp add: Let_def)
  next
    case False
    then show ?thesis
      using Cons.IH [OF fire_inv_oneshot [OF Cons.prems]] by (simp add: Let_def)
  qed
qed

text \<open>What the loop hands out, and what it leaves.\<close>

definition fired_timer :: "u64 \<Rightarrow> 'cb timer \<Rightarrow> 'cb timer" where
  "fired_timer now t = (if m_recurring t then t\<lparr>m_next := now + m_ms t\<rparr> else t\<lparr>m_cb := None\<rparr>)"

lemma fire_expired_heap:
  "distinct is \<Longrightarrow> tm_heap (snd (fire_expired now is (cbs, tm))) =
     (\<lambda>a. if a \<in> set is then fired_timer now (tm_heap tm a) else tm_heap tm a)"
  by (induction "is" arbitrary: cbs tm) (auto simp: Let_def fired_timer_def fun_eq_iff)

lemma fire_expired_cbs:
  "distinct is \<Longrightarrow>
   fst (fire_expired now is (cbs, tm)) = cbs @ map (\<lambda>a. m_cb (tm_heap tm a)) is"
proof (induction "is" arbitrary: cbs tm)
  case (Cons i "is")
  then have "map (\<lambda>a. m_cb (((tm_heap tm)(i := t)) a)) is = map (\<lambda>a. m_cb (tm_heap tm a)) is" for t
    by auto
  with Cons show ?case by (simp add: Let_def)
qed simp

lemma fire_expired_set:
  "distinct is \<Longrightarrow> set (m_timers (snd (fire_expired now is (cbs, tm)))) =
     set (m_timers tm) \<union> {a \<in> set is. m_recurring (tm_heap tm a)}"
proof (induction "is" arbitrary: cbs tm)
  case (Cons i "is")
  then show ?case by (auto simp: Let_def tset.insert_set)
qed simp

lemma fire_expired_frame:
  "tm_live (snd (fire_expired now is (cbs, tm))) = tm_live tm"
  "m_tickled (snd (fire_expired now is (cbs, tm))) = m_tickled tm"
  "m_previouseTime (snd (fire_expired now is (cbs, tm))) = m_previouseTime tm"
  by (induction "is" arbitrary: cbs tm) (simp_all add: Let_def)

lemmas fire_expired_facts =
  fire_expired_heap fire_expired_cbs fire_expired_set fire_expired_frame


section \<open>What a poll does\<close>

text \<open>The timers a poll at \<open>now\<close> takes: all of them after a clock rollover, none at all
  when one is already overdue, those due exactly now otherwise.\<close>

definition rolled_over :: "u64 \<Rightarrow> 'cb timer_manager \<Rightarrow> bool" where
  "rolled_over now tm \<longleftrightarrow>
     now < m_previouseTime tm \<and>
     (m_previouseTime tm < 3600000 \<or> unat now + 3600000 < unat (m_previouseTime tm))"

definition overdue :: "u64 \<Rightarrow> 'cb timer_manager \<Rightarrow> bool" where
  "overdue now tm \<longleftrightarrow> (\<exists>a\<in>set (m_timers tm). m_next (tm_heap tm a) < now)"

definition fired :: "u64 \<Rightarrow> 'cb timer_manager \<Rightarrow> addr list" where
  "fired now tm =
     (if rolled_over now tm then m_timers tm
      else if overdue now tm then []
      else filter (\<lambda>a. m_next (tm_heap tm a) = now) (m_timers tm))"

text \<open>The code's rollover test: the clock went back by more than one hour, where a previous time
  below one hour wraps, so that any step back counts then.\<close>

lemma delectClockRollover_eq:
  "delectClockRollover now tm = (rolled_over now tm, tm\<lparr>m_previouseTime := now\<rparr>)"
proof -
  let ?p = "m_previouseTime tm"
  have big: "unat (3600000 :: u64) = 3600000" by simp
  show ?thesis
  proof (cases "?p < 3600000")
    case True
    then have p: "unat ?p < 3600000" by (simp add: word_less_nat_alt)
    have "unat (?p - 3600000) = unat ?p + 2 ^ 64 - 3600000"
      using p by (simp add: unat_sub_if_size word_le_nat_alt word_size)
    then have "now < ?p \<longrightarrow> now < ?p - 3600000"
      using p by (auto simp: word_less_nat_alt)
    with True show ?thesis by (auto simp: rolled_over_def delectClockRollover_def)
  next
    case False
    then have "3600000 \<le> ?p" by simp
    then have "unat (?p - 3600000) = unat ?p - 3600000" by (simp add: unat_sub)
    with False \<open>3600000 \<le> ?p\<close> show ?thesis
      by (auto simp: rolled_over_def delectClockRollover_def word_less_nat_alt word_le_nat_alt)
  qed
qed

lemma takeWhile_then_takeWhile:
  assumes "\<And>x. x \<in> set xs \<Longrightarrow> P x \<Longrightarrow> Q x"
  shows "length (takeWhile P xs) + length (takeWhile Q (drop (length (takeWhile P xs)) xs))
         = length (takeWhile Q xs)"
  using assms by (induction xs) auto

lemma sorted_timers_front:
  assumes "sorted_wrt (timer_lt h) xs" and "a \<in> set xs"
  shows "m_next (h (hd xs)) \<le> m_next (h a)"
  using assms by (cases xs) (auto simp: timer_lt_iff)

lemma overdue_front:
  assumes "sorted_wrt (timer_lt (tm_heap tm)) (m_timers tm)" and "m_timers tm \<noteq> []"
  shows "overdue now tm \<longleftrightarrow> m_next (tm_heap tm (hd (m_timers tm))) < now"
  using assms sorted_timers_front [OF assms(1)] hd_in_set [OF assms(2)]
  unfolding overdue_def by (meson le_less_trans)

lemma takeWhile_due:
  assumes "sorted_wrt (timer_lt h) xs" and "\<forall>a\<in>set xs. \<not> m_next (h a) < now"
  shows "takeWhile (\<lambda>a. m_next (h a) = now) xs = filter (\<lambda>a. m_next (h a) = now) xs"
  using assms
proof (induction xs)
  case (Cons x xs)
  show ?case
  proof (cases "m_next (h x) = now")
    case False
    then have "m_next (h a) \<noteq> now" if "a \<in> set xs" for a
      using that Cons.prems by (auto simp: timer_lt_iff)
    then show ?thesis using False by (simp add: filter_False)
  qed (use Cons in simp)
qed simp

lemma poll_position:
  assumes inv: "timer_inv tm" and p: "p \<notin> tm_live tm" and no: "\<not> overdue now tm"
  defines "h \<equiv> (tm_heap tm)(p := Timer_probe now)"
  shows "take (skip_equal h now (m_timers tm) (sset_lower_bound (timer_lt h) p (m_timers tm)))
           (m_timers tm)
         = filter (\<lambda>a. m_next (tm_heap tm a) = now) (m_timers tm)"
proof -
  let ?ts = "m_timers tm"
  have heap: "h a = tm_heap tm a" if "a \<in> set ?ts" for a
    using that p inv by (auto simp: h_def timer_inv_def)
  have hp: "m_next (h p) = now" by (simp add: h_def Timer_probe_def)
  have "skip_equal h now ?ts (sset_lower_bound (timer_lt h) p ?ts)
        = length (takeWhile (\<lambda>a. m_next (h a) = now) ?ts)"
    unfolding skip_equal_def sset_lower_bound_def
    by (rule takeWhile_then_takeWhile)
      (use no heap hp in \<open>auto simp: timer_lt_iff overdue_def\<close>)
  moreover have "takeWhile (\<lambda>a. m_next (h a) = now) ?ts
        = takeWhile (\<lambda>a. m_next (tm_heap tm a) = now) ?ts"
    by (rule takeWhile_cong) (simp_all add: heap)
  moreover have "\<dots> = filter (\<lambda>a. m_next (tm_heap tm a) = now) ?ts"
    using inv no by (intro takeWhile_due) (auto simp: timer_inv_def overdue_def)
  ultimately show ?thesis by (metis takeWhile_eq_take)
qed

lemma skip_equal_end: "skip_equal h now ts (length ts) = length ts"
  by (simp add: skip_equal_def)

text \<open>The state the firing loop starts from.\<close>

definition poll_start :: "u64 \<Rightarrow> 'cb timer_manager \<Rightarrow> 'cb timer_manager" where
  "poll_start now tm =
     tm\<lparr>m_previouseTime := now, m_timers := drop (length (fired now tm)) (m_timers tm)\<rparr>"

lemma fired_prefix:
  assumes "timer_inv tm"
  shows "take (length (fired now tm)) (m_timers tm) = fired now tm"
proof (cases "rolled_over now tm \<or> overdue now tm")
  case False
  have "filter (\<lambda>a. m_next (tm_heap tm a) = now) (m_timers tm)
        = takeWhile (\<lambda>a. m_next (tm_heap tm a) = now) (m_timers tm)"
    using assms False
    by (intro takeWhile_due [symmetric]) (auto simp: timer_inv_def overdue_def)
  then show ?thesis using False by (simp add: fired_def takeWhile_eq_take [symmetric])
qed (auto simp: fired_def)

lemma listExpiredCb_eq:
  assumes inv: "timer_inv tm" and p: "p \<notin> tm_live tm" and ne: "m_timers tm \<noteq> []"
  shows "listExpiredCb now p tm = Inr (fire_expired now (fired now tm) ([], poll_start now tm))"
proof -
  have s: "sorted_wrt (timer_lt (tm_heap tm)) (m_timers tm)" using inv by (simp add: timer_inv_def)
  note pos = poll_position [OF inv p, of now]
  show ?thesis
  proof (cases "rolled_over now tm")
    case True
    then show ?thesis using ne
      by (simp add: listExpiredCb_def listExpiredCb_locked_def delectClockRollover_eq
          fired_def poll_start_def skip_equal_end)
  next
    case False
    show ?thesis
    proof (cases "overdue now tm")
      case True
      with False ne overdue_front [OF s ne, of now] show ?thesis
        by (auto simp: listExpiredCb_def listExpiredCb_locked_def delectClockRollover_eq
            fired_def poll_start_def)
    next
      case no: False
      let ?h = "(tm_heap tm)(p := Timer_probe now)"
      let ?it = "skip_equal ?h now (m_timers tm) (sset_lower_bound (timer_lt ?h) p (m_timers tm))"
      have t: "take ?it (m_timers tm) = fired now tm"
        using pos [OF no] False no by (simp add: fired_def)
      moreover have "drop ?it (m_timers tm) = drop (length (fired now tm)) (m_timers tm)"
        using t fired_prefix [OF inv, of now] by (metis append_eq_conv_conj append_take_drop_id same_append_eq)
      ultimately show ?thesis
        using False ne no overdue_front [OF s ne, of now]
        by (auto simp: listExpiredCb_def listExpiredCb_locked_def delectClockRollover_eq
            poll_start_def Let_def)
    qed
  qed
qed

lemma fired_subset: "set (fired now tm) \<subseteq> set (m_timers tm)"
  by (auto simp: fired_def)

lemma poll_start_inv:
  assumes "timer_inv tm"
  shows "fire_inv (fired now tm) (poll_start now tm)"
proof -
  let ?n = "length (fired now tm)"
  have split: "m_timers tm = fired now tm @ drop ?n (m_timers tm)"
    using fired_prefix [OF assms, of now] append_take_drop_id by metis
  have d: "distinct (m_timers tm)" and s: "sorted_wrt (timer_lt (tm_heap tm)) (m_timers tm)"
    using assms tset.sorted_distinct by (auto simp: timer_inv_def)
  have "set (m_timers tm) = set (fired now tm) \<union> set (drop ?n (m_timers tm))"
    by (subst split) simp
  moreover have "set (fired now tm) \<inter> set (drop ?n (m_timers tm)) = {}" "distinct (fired now tm)"
    using d by (metis split distinct_append)+
  ultimately show ?thesis
    using assms s by (auto simp: fire_inv_def poll_start_def timer_inv_def sorted_wrt_drop)
qed

lemma fired_distinct: "timer_inv tm \<Longrightarrow> distinct (fired now tm)"
  using poll_start_inv [of tm now] by (simp add: fire_inv_def)

lemma listExpiredCb_inv [inv_intros]:
  assumes "timer_inv tm" and "p \<notin> tm_live tm" and "listExpiredCb now p tm = Inr (cbs, tm')"
  shows "timer_inv tm'"
proof (cases "m_timers tm = []")
  case True
  with assms show ?thesis by (auto simp: listExpiredCb_def)
next
  case False
  with assms fire_expired_inv [OF poll_start_inv [OF assms(1)], where cbs = "[]" and now = now] show ?thesis
    by (auto simp: listExpiredCb_eq) (metis snd_conv)
qed


section \<open>Runs of the manager\<close>

text \<open>The calls clients make, with the clock value each reads and the addresses of the
  objects each allocates.\<close>

datatype 'cb tm_op =
    OpAdd u64 "'cb timer_fn option" bool u64 addr
  | OpAddCond u64 'cb addr bool u64 addr
  | OpCancel addr
  | OpRefresh addr u64
  | OpReset addr u64 bool u64
  | OpNext u64
  | OpExpired u64 addr

text \<open>A call is on an existing timer, and \<open>new\<close> returns an address not in use.\<close>

fun tm_ok :: "'cb tm_op \<Rightarrow> 'cb timer_manager \<Rightarrow> bool" where
  "tm_ok (OpAdd ms cb r now a) tm = (a \<notin> tm_live tm)"
| "tm_ok (OpAddCond ms cb w r now a) tm = (a \<notin> tm_live tm)"
| "tm_ok (OpCancel a) tm = (a \<in> tm_live tm)"
| "tm_ok (OpRefresh a now) tm = (a \<in> tm_live tm)"
| "tm_ok (OpReset a ms f now) tm = (a \<in> tm_live tm)"
| "tm_ok (OpNext now) tm = True"
| "tm_ok (OpExpired now p) tm = (p \<notin> tm_live tm)"

text \<open>The callbacks a call hands out, and the new state.\<close>

fun tm_exec :: "'cb tm_op \<Rightarrow> 'cb timer_manager \<Rightarrow> ('cb timer_fn option list \<times> 'cb timer_manager) res" where
  "tm_exec (OpAdd ms cb r now a) tm = Inr ([], snd (addTimer ms cb r now a tm))"
| "tm_exec (OpAddCond ms cb w r now a) tm = Inr ([], snd (addConditionTimer ms cb w r now a tm))"
| "tm_exec (OpCancel a) tm = res_bind (cancel a tm) (\<lambda>(b, tm'). Inr ([], tm'))"
| "tm_exec (OpRefresh a now) tm = res_bind (refresh a now tm) (\<lambda>(b, n, tm'). Inr ([], tm'))"
| "tm_exec (OpReset a ms f now) tm = res_bind (reset a ms f now tm) (\<lambda>(b, n, tm'). Inr ([], tm'))"
| "tm_exec (OpNext now) tm = Inr ([], snd (getNextTimer now tm))"
| "tm_exec (OpExpired now p) tm = listExpiredCb now p tm"

inductive tm_run ::
  "'cb timer_manager \<Rightarrow> ('cb tm_op \<times> 'cb timer_fn option list) list \<Rightarrow> 'cb timer_manager \<Rightarrow> bool" where
  tm_run_Nil: "tm_run tm [] tm"
| tm_run_Cons: "tm_ok op tm \<Longrightarrow> tm_exec op tm = Inr (out, tm1) \<Longrightarrow> tm_run tm1 evs tm2 \<Longrightarrow>
     tm_run tm ((op, out) # evs) tm2"

inductive_cases tm_run_ConsE: "tm_run tm (e # evs) tm'"
inductive_simps tm_run_simps [simp]: "tm_run tm [] tm'" "tm_run tm ((op, out) # evs) tm'"

lemma tm_exec_inv:
  assumes inv: "timer_inv tm" and ok: "tm_ok op tm" and ex: "tm_exec op tm = Inr (out, tm')"
  shows "timer_inv tm'"
  using ok ex
  by (cases op) (auto intro: addTimer_inv [OF inv] addConditionTimer_inv [OF inv] cancel_inv [OF inv]
      refresh_inv [OF inv] reset_inv [OF inv] getNextTimer_inv [OF inv] listExpiredCb_inv [OF inv])

lemma tm_run_inv: "tm_run tm evs tm' \<Longrightarrow> timer_inv tm \<Longrightarrow> timer_inv tm'"
  by (induction rule: tm_run.induct) (auto intro: tm_exec_inv)

lemma tm_exec_defined:
  assumes "timer_inv tm" and "tm_ok op tm"
  shows "\<exists>out tm'. tm_exec op tm = Inr (out, tm')"
  using assms
proof (cases op)
  case (OpExpired now p)
  then show ?thesis using assms
    by (cases "m_timers tm = []") (auto simp: listExpiredCb_eq prod_eq_iff, simp add: listExpiredCb_def)
qed (auto simp: cancel_eq refresh_eq reset_eq Let_def split: prod.splits, (metis surj_pair)+)

text \<open>C1: in every state that calls on a fresh manager can reach, every further call (on an
  existing timer, with fresh addresses for new objects) is defined - in particular
  \<open>cancel\<close>, which erases the result of \<open>find\<close> unchecked, never erases \<open>end()\<close> - and the set
  is again strictly ordered, holds live timers only, and holds every timer with a callback.\<close>

theorem timer_calls_safe:
  assumes "tm_run (TimerManager_ctor t0) evs tm" and "tm_ok op tm"
  shows "\<exists>out tm'. tm_exec op tm = Inr (out, tm') \<and> timer_inv tm'"
  using tm_run_inv [OF assms(1) timer_inv_ctor] tm_exec_defined [OF _ assms(2)]
    tm_exec_inv [OF _ assms(2)] by blast

theorem timer_calls_safe_witness:
  "\<exists>out tm'. tm_exec (OpCancel 7)
      (snd (addTimer 5 (Some (Fn ())) False 100 7 (TimerManager_ctor 100))) = Inr (out, tm')
    \<and> timer_inv tm'"
proof -
  have "tm_run (TimerManager_ctor 100) [(OpAdd 5 (Some (Fn ())) False 100 7, [])]
      (snd (addTimer 5 (Some (Fn ())) False 100 7 (TimerManager_ctor 100)))"
    by (simp add: TimerManager_ctor_def)
  moreover have "tm_ok (OpCancel 7) (snd (addTimer 5 (Some (Fn ())) False 100 7 (TimerManager_ctor 100)))"
    by (simp add: addTimer_def)
  ultimately show ?thesis by (rule timer_calls_safe)
qed

section \<open>What the operations do\<close>

lemma listExpiredCb_result:
  assumes "timer_inv tm" and "p \<notin> tm_live tm"
  shows "\<exists>tm'. listExpiredCb now p tm = Inr (map (\<lambda>a. m_cb (tm_heap tm a)) (fired now tm), tm')
    \<and> set (m_timers tm') =
        {a \<in> set (m_timers tm). a \<in> set (fired now tm) \<longrightarrow> m_recurring (tm_heap tm a)}
    \<and> tm_heap tm' =
        (\<lambda>a. if a \<in> set (fired now tm) then fired_timer now (tm_heap tm a) else tm_heap tm a)
    \<and> m_tickled tm' = m_tickled tm \<and> tm_live tm' = tm_live tm
    \<and> m_previouseTime tm' = (if m_timers tm = [] then m_previouseTime tm else now)"
proof (cases "m_timers tm = []")
  case True
  then have "fired now tm = []" by (simp add: fired_def overdue_def)
  with True show ?thesis by (auto simp: listExpiredCb_def fun_eq_iff)
next
  case False
  let ?is = "fired now tm" and ?s = "poll_start now tm"
  have d: "distinct ?is" using assms(1) by (rule fired_distinct)
  have heap: "tm_heap ?s = tm_heap tm" and live: "tm_live ?s = tm_live tm"
    and tick: "m_tickled ?s = m_tickled tm" "m_previouseTime ?s = now" by (simp_all add: poll_start_def)
  have split: "m_timers tm = ?is @ m_timers ?s"
    using fired_prefix [OF assms(1), of now] append_take_drop_id [of "length ?is" "m_timers tm"]
    by (simp add: poll_start_def)
  then have "distinct (?is @ m_timers ?s)"
    using assms(1) tset.sorted_distinct by (metis timer_inv_def)
  then have "set (m_timers ?s) \<union> {a \<in> set ?is. m_recurring (tm_heap tm a)} =
      {a \<in> set (m_timers tm). a \<in> set ?is \<longrightarrow> m_recurring (tm_heap tm a)}"
    by (subst split) auto
  with d heap live tick show ?thesis
    by (intro exI [of _ "snd (fire_expired now ?is ([], ?s))"])
      (simp add: False listExpiredCb_eq [OF assms False] prod_eq_iff fire_expired_facts fun_eq_iff)
qed


lemma listExpiredCb_facts:
  assumes "timer_inv tm" and "p \<notin> tm_live tm" and "listExpiredCb now p tm = Inr (cbs, tm')"
  shows "cbs = map (\<lambda>a. m_cb (tm_heap tm a)) (fired now tm)"
    and "a \<in> set (m_timers tm') \<longleftrightarrow>
          a \<in> set (m_timers tm) \<and> (a \<in> set (fired now tm) \<longrightarrow> m_recurring (tm_heap tm a))"
    and "tm_heap tm' a =
          (if a \<in> set (fired now tm) then fired_timer now (tm_heap tm a) else tm_heap tm a)"
    and "tm_live tm' = tm_live tm"
  using listExpiredCb_result [OF assms(1,2), of now] assms(3) by auto

text \<open>C2: A poll without interference hands out, in deadline order, exactly the callbacks of
  the timers it takes: all of them after a rollover of the clock (it went back more than an hour
  from the recorded previous time, or at all when that lies within the first hour of the epoch);
  otherwise no timer at all when some timer's deadline lies before now, and those due at this very
  millisecond when none does.  A taken recurring timer stays in the set with deadline now plus its
  period, a taken one-shot timer leaves it and loses its callback, every other timer keeps its
  state and its place in the set or out of it.  The poll records its time as the previous one
  if there was a timer at all, and the tickle flag stays.\<close>

theorem listExpiredCb_spec:
  assumes "timer_inv tm" and "p \<notin> tm_live tm"
  shows "\<exists>tm'. listExpiredCb now p tm = Inr (map (\<lambda>a. m_cb (tm_heap tm a)) (fired now tm), tm')
    \<and> set (m_timers tm') =
        {a \<in> set (m_timers tm). a \<in> set (fired now tm) \<longrightarrow> m_recurring (tm_heap tm a)}
    \<and> tm_heap tm' =
        (\<lambda>a. if a \<in> set (fired now tm) then fired_timer now (tm_heap tm a) else tm_heap tm a)
    \<and> m_tickled tm' = m_tickled tm \<and> tm_live tm' = tm_live tm
    \<and> m_previouseTime tm' = (if m_timers tm = [] then m_previouseTime tm else now)"
  using assms by (rule listExpiredCb_result)

theorem listExpiredCb_spec_witness:
  "timer_inv (snd (addTimer 5 (Some (Fn ())) False 100 7 (TimerManager_ctor 100)))
   \<and> (\<exists>tm'. listExpiredCb 105 9 (snd (addTimer 5 (Some (Fn ())) False 100 7 (TimerManager_ctor 100)))
            = Inr ([Some (Fn ())], tm') \<and> set (m_timers tm') = {})"
proof -
  let ?tm = "snd (addTimer 5 (Some (Fn ())) False 100 7 (TimerManager_ctor 100))"
  have f: "fired 105 ?tm = [7]"
    by (simp add: addTimer_def addTimer_val_def TimerManager_ctor_def fired_def rolled_over_def overdue_def Timer_ctor_def)
  have i: "timer_inv ?tm"
    by (rule addTimer_inv [OF timer_inv_ctor]) (simp add: TimerManager_ctor_def)
  have p: "9 \<notin> tm_live ?tm" by (simp add: addTimer_def TimerManager_ctor_def)
  show ?thesis
    using i listExpiredCb_spec [OF i p, of 105] unfolding f
    by (auto simp: addTimer_def addTimer_val_def TimerManager_ctor_def Timer_ctor_def)
qed

text \<open>
  A timer whose deadline has passed blocks the manager: polls at later times see an overdue
  timer and return.  \<open>waiting_only\<close> describes a client that adds timers, asks for the next
  timeout and polls with a clock that never goes back, from time \<open>t\<close> on.
\<close>

fun waiting_only :: "u64 \<Rightarrow> ('cb tm_op \<times> 'cb timer_fn option list) list \<Rightarrow> bool" where
  "waiting_only t [] = True"
| "waiting_only t ((OpAdd ms cb r now a, _) # evs) = waiting_only t evs"
| "waiting_only t ((OpAddCond ms cb w r now a, _) # evs) = waiting_only t evs"
| "waiting_only t ((OpNext now, _) # evs) = waiting_only t evs"
| "waiting_only t ((OpExpired now p, _) # evs) = (t \<le> now \<and> waiting_only now evs)"
| "waiting_only t ((OpCancel a, _) # evs) = False"
| "waiting_only t ((OpRefresh a now, _) # evs) = False"
| "waiting_only t ((OpReset a ms f now, _) # evs) = False"

definition blocked :: "u64 \<Rightarrow> 'cb timer_manager \<Rightarrow> bool" where
  "blocked t tm \<longleftrightarrow> timer_inv tm \<and> overdue t tm \<and> m_previouseTime tm \<le> t"

lemma blocked_mono: "blocked t tm \<Longrightarrow> t \<le> t' \<Longrightarrow> blocked t' tm"
  unfolding blocked_def overdue_def by (meson order.strict_trans2 order.trans)

lemma blocked_add:
  assumes "blocked t tm" and "a \<notin> tm_live tm"
  shows "blocked t (snd (addTimer ms cb r now a tm))"
proof -
  obtain b where b: "b \<in> set (m_timers tm)" "m_next (tm_heap tm b) < t"
    using assms(1) by (auto simp: blocked_def overdue_def)
  moreover have "b \<noteq> a" using b assms by (auto simp: blocked_def timer_inv_def)
  ultimately have "overdue t (snd (addTimer ms cb r now a tm))"
    by (auto simp: overdue_def addTimer_def tset.insert_set intro!: bexI [of _ b])
  with assms show ?thesis by (simp add: blocked_def addTimer_inv) (simp add: addTimer_def)
qed

lemma blocked_poll:
  assumes "blocked t tm" and "p \<notin> tm_live tm" and "t \<le> now"
  shows "listExpiredCb now p tm = Inr ([], tm\<lparr>m_previouseTime := now\<rparr>)"
    and "blocked now (tm\<lparr>m_previouseTime := now\<rparr>)"
proof -
  have now: "blocked now tm" using assms(1,3) by (rule blocked_mono)
  then have "m_timers tm \<noteq> []" and "fired now tm = []"
    by (auto simp: blocked_def overdue_def fired_def rolled_over_def)
  then show "listExpiredCb now p tm = Inr ([], tm\<lparr>m_previouseTime := now\<rparr>)"
    using now assms(2) by (simp add: listExpiredCb_eq blocked_def poll_start_def)
  show "blocked now (tm\<lparr>m_previouseTime := now\<rparr>)"
    using now by (simp add: blocked_def overdue_def timer_inv_def)
qed

text \<open>C3: once some timer is overdue, the manager hands out no callback any more, however often
  a client adds further timers and polls, as long as the clock does not go back and nobody
  cancels, refreshes or resets a timer: the test on the front timer stops every poll.\<close>

theorem overdue_timer_blocks:
  assumes "tm_run tm evs tm'" and "blocked t tm" and "waiting_only t evs"
  shows "\<forall>(op, out) \<in> set evs. out = []"
  using assms
proof (induction arbitrary: t rule: tm_run.induct)
  case (tm_run_Cons op tm out tm1 evs tm2)
  show ?case
  proof (cases op)
    case (OpExpired now p)
    with tm_run_Cons.prems tm_run_Cons.hyps blocked_poll [of t tm p now] tm_run_Cons.IH [of now]
    show ?thesis by auto
  next
    case (OpAdd ms cb r now a)
    with tm_run_Cons.prems tm_run_Cons.hyps tm_run_Cons.IH [of t] show ?thesis
      by (auto intro: blocked_add)
  next
    case (OpAddCond ms cb w r now a)
    with tm_run_Cons.prems tm_run_Cons.hyps tm_run_Cons.IH [of t] show ?thesis
      by (auto simp: addConditionTimer_def intro: blocked_add)
  next
    case (OpNext now)
    have "blocked t (snd (getNextTimer now tm))"
      using tm_run_Cons.prems(1) getNextTimer_inv [of tm now]
      by (simp add: blocked_def overdue_def getNextTimer_state)
    with OpNext tm_run_Cons.prems tm_run_Cons.hyps tm_run_Cons.IH [of t] show ?thesis by auto
  qed (use tm_run_Cons.prems in auto)
qed simp

theorem overdue_timer_blocks_witness:
  "\<exists>tm' evs. evs = [(OpExpired 106 9, []), (OpExpired 2000 9, [])]
     \<and> tm_run (snd (addTimer 5 (Some (Fn ())) False 100 7 (TimerManager_ctor 100))) evs tm'
     \<and> (\<forall>(op, out) \<in> set evs. out = [])"
proof -
  let ?tm = "snd (addTimer 5 (Some (Fn ())) False 100 7 (TimerManager_ctor 100))"
  have b: "blocked 106 ?tm"
    using addTimer_inv [OF timer_inv_ctor, of 7 100 5 "Some (Fn ())" False 100]
    by (simp add: blocked_def overdue_def addTimer_def addTimer_val_def TimerManager_ctor_def
        Timer_ctor_def)
  have l: "9 \<notin> tm_live ?tm" by (simp add: addTimer_def TimerManager_ctor_def)
  have r: "tm_run ?tm [(OpExpired 106 9, []), (OpExpired 2000 9, [])]
      (?tm\<lparr>m_previouseTime := 106\<rparr>\<lparr>m_previouseTime := 2000\<rparr>)"
    using blocked_poll(1) [OF b l, of 106] blocked_poll(2) [OF b l, of 106]
      blocked_poll(1) [of 106 "?tm\<lparr>m_previouseTime := 106\<rparr>" 9 2000] l
    by simp
  show ?thesis
    by (intro exI conjI) (rule refl, rule r, rule overdue_timer_blocks [OF r b], simp)
qed


section \<open>Retired timers\<close>

text \<open>A timer that was cancelled, or was a one-shot timer and fired: without callback and
  outside the set.\<close>

definition retired :: "addr \<Rightarrow> 'cb timer_manager \<Rightarrow> bool" where
  "retired a tm \<longleftrightarrow>
     timer_inv tm \<and> a \<in> tm_live tm \<and> m_cb (tm_heap tm a) = None \<and> a \<notin> set (m_timers tm)"

lemma retired_addTimer:
  "retired a tm \<Longrightarrow> b \<notin> tm_live tm \<Longrightarrow> retired a (snd (addTimer ms cb r now b tm))"
  by (auto simp: retired_def addTimer_inv) (auto simp: addTimer_def tset.insert_set)

lemma retired_readd:
  assumes "retired a tm" and "b \<in> tm_live tm" and "m_cb (tm_heap tm b) \<noteq> None"
  shows "retired a (snd (readd b t tm))"
  using assms readd_inv [of tm b t]
  by (auto simp: retired_def) (auto simp: readd_def tset.insert_set dest: notin_set_remove1)

lemma retired_poll:
  assumes "retired a tm" and "p \<notin> tm_live tm" and "listExpiredCb now p tm = Inr (cbs, tm')"
  shows "retired a tm'"
proof -
  have inv: "timer_inv tm" using assms(1) by (simp add: retired_def)
  have nf: "a \<notin> set (fired now tm)" using assms(1) fired_subset by (auto simp: retired_def)
  show ?thesis
    using listExpiredCb_inv [OF inv assms(2,3)] listExpiredCb_facts [OF inv assms(2,3)] assms(1) nf
    by (simp add: retired_def)
qed

lemma retired_step:
  assumes "retired a tm" and "tm_ok op tm" and "tm_exec op tm = Inr (out, tm')"
  shows "retired a tm'"
proof -
  have inv: "timer_inv tm" using assms(1) by (simp add: retired_def)
  have inv': "timer_inv tm'" using inv assms(2,3) by (rule tm_exec_inv)
  show ?thesis
  proof (cases op)
    case (OpAdd ms cb r now b)
    with assms retired_addTimer [of a tm b ms cb r now] show ?thesis by simp
  next
    case (OpAddCond ms cb w r now b)
    with assms retired_addTimer [of a tm b ms "Some (OnTimerFn w cb)" r now] show ?thesis
      by (simp add: addConditionTimer_def)
  next
    case (OpCancel b)
    with assms inv inv' show ?thesis
      by (auto simp: retired_def cancel_eq split: if_splits dest: notin_set_remove1)
  next
    case (OpRefresh b now)
    with assms inv show ?thesis
      by (auto simp: refresh_eq Let_def split: if_splits) (metis option.distinct(1) retired_readd snd_conv)
  next
    case (OpReset b ms f now)
    with assms inv show ?thesis
      by (auto simp: reset_eq Let_def split: if_splits) (metis option.distinct(1) retired_readd snd_conv)+
  next
    case (OpNext now)
    with assms inv' show ?thesis by (auto simp: retired_def getNextTimer_state)
  next
    case (OpExpired now p)
    with assms show ?thesis by (auto intro: retired_poll)
  qed
qed

lemma retired_run: "tm_run tm evs tm' \<Longrightarrow> retired a tm \<Longrightarrow> retired a tm'"
  by (induction rule: tm_run.induct) (auto intro: retired_step)

text \<open>C4: when \<open>cancel\<close> returns true, the timer had a callback, and after any further calls it
  is still without callback and outside the set, so no later poll takes it; a second
  \<open>cancel\<close> returns false.\<close>

theorem cancelled_timer_never_fires:
  assumes "timer_inv tm" and "a \<in> tm_live tm"
    and "cancel a tm = Inr (True, tm1)" and "tm_run tm1 evs tm2"
  shows "m_cb (tm_heap tm a) \<noteq> None \<and> a \<notin> set (fired now tm2)
    \<and> cancel a tm2 = Inr (False, tm2)"
proof -
  have cb: "m_cb (tm_heap tm a) \<noteq> None"
    and tm1: "tm1 = (set_timer a ((tm_heap tm a)\<lparr>m_cb := None\<rparr>) tm)
        \<lparr>m_timers := remove1 a (m_timers tm)\<rparr>"
    using assms(3) unfolding cancel_eq [OF assms(1,2)] by (auto split: if_splits)
  have "distinct (m_timers tm)"
    using assms(1) tset.sorted_distinct by (auto simp: timer_inv_def)
  then have "a \<notin> set (m_timers tm1)" and "m_cb (tm_heap tm1 a) = None" and "a \<in> tm_live tm1"
    using assms(2) unfolding tm1 by simp_all
  then have "retired a tm1"
    using cancel_inv [OF assms(1-3)] by (simp only: retired_def simp_thms)
  with assms(4) have r: "retired a tm2" by (rule retired_run)
  then have "cancel a tm2 = Inr (False, tm2)" by (simp add: retired_def cancel_def)
  moreover have "a \<notin> set (fired now tm2)" using r fired_subset by (auto simp: retired_def)
  ultimately show ?thesis using cb by blast
qed

lemma sample_manager:
  defines "tm \<equiv> snd (addTimer 5 (Some (Fn ())) False 100 7 (TimerManager_ctor 100))"
  shows "timer_inv tm" and "7 \<in> tm_live tm" and "m_timers tm = [7]"
    and "tm_heap tm 7 = Timer_ctor 5 (Some (Fn ())) False 100" and "tm_live tm = {7}"
    and "m_tickled tm" and "m_previouseTime tm = 100"
  unfolding tm_def
  by (rule addTimer_inv [OF timer_inv_ctor])
    (simp_all add: addTimer_def addTimer_val_def TimerManager_ctor_def)

theorem cancelled_timer_never_fires_witness:
  "\<exists>tm1. cancel 7 (snd (addTimer 5 (Some (Fn ())) False 100 7 (TimerManager_ctor 100)))
      = Inr (True, tm1) \<and> cancel 7 tm1 = Inr (False, tm1)"
proof -
  let ?tm = "snd (addTimer 5 (Some (Fn ())) False 100 7 (TimerManager_ctor 100))"
  obtain tm1 where c: "cancel 7 ?tm = Inr (True, tm1)"
    using sample_manager by (simp add: cancel_eq Timer_ctor_def)
  have "tm_run tm1 [] tm1" by simp
  from cancelled_timer_never_fires [OF sample_manager(1,2) c this] c show ?thesis by blast
qed

text \<open>A poll retires every one-shot timer it takes and keeps every recurring one, now due
  one period after the poll.\<close>

theorem fired_timer_fate:
  assumes "timer_inv tm" and "p \<notin> tm_live tm"
    and "listExpiredCb now p tm = Inr (cbs, tm')" and "a \<in> set (fired now tm)"
  shows "if m_recurring (tm_heap tm a)
    then a \<in> set (m_timers tm') \<and> m_next (tm_heap tm' a) = now + m_ms (tm_heap tm a)
      \<and> m_cb (tm_heap tm' a) = m_cb (tm_heap tm a)
    else retired a tm'"
proof -
  have "a \<in> set (m_timers tm)" using assms(4) fired_subset by blast
  moreover have "a \<in> tm_live tm" using calculation assms(1) by (auto simp: timer_inv_def)
  ultimately show ?thesis
    using listExpiredCb_facts(2,3) [OF assms(1-3), of a] listExpiredCb_facts(4) [OF assms(1-3)]
      listExpiredCb_inv [OF assms(1-3)] assms(4)
    by (simp add: retired_def fired_timer_def)
qed

theorem fired_timer_fate_witness:
  "\<exists>tm'. listExpiredCb 105 9 (snd (addTimer 5 (Some (Fn ())) False 100 7 (TimerManager_ctor 100)))
      = Inr ([Some (Fn ())], tm') \<and> retired 7 tm'"
proof -
  let ?tm = "snd (addTimer 5 (Some (Fn ())) False 100 7 (TimerManager_ctor 100))"
  have f: "fired 105 ?tm = [7]"
    using sample_manager
    by (simp add: fired_def rolled_over_def overdue_def Timer_ctor_def)
  have p: "9 \<notin> tm_live ?tm" using sample_manager by simp
  obtain tm' where e: "listExpiredCb 105 9 ?tm = Inr ([Some (Fn ())], tm')"
    using listExpiredCb_result [OF sample_manager(1) p, of 105] f sample_manager(4)
    by (auto simp: Timer_ctor_def)
  from fired_timer_fate [OF sample_manager(1) p e, of 7] f sample_manager(4) e show ?thesis
    by (simp add: Timer_ctor_def)
qed

section \<open>Timeouts, notification, moving a deadline\<close>

text \<open>How long a caller at \<open>now\<close> may wait for a timer.\<close>

definition wait_of :: "u64 \<Rightarrow> 'cb timer \<Rightarrow> u64" where
  "wait_of now t = (if now \<ge> m_next t then 0 else m_next t - now)"

lemma wait_of_mono:
  assumes "m_next t \<le> m_next u"
  shows "wait_of now t \<le> wait_of now u"
proof (cases "now \<ge> m_next t")
  case False
  then have "now \<le> m_next t" by simp
  moreover have "\<not> now \<ge> m_next u" using False assms by (meson order.trans)
  ultimately show ?thesis using assms False
    by (simp add: wait_of_def word_le_nat_alt unat_sub)
qed (simp add: wait_of_def)

text \<open>C5: \<open>getNextTimer\<close> returns all ones when there is no timer and otherwise the least time
  until any timer in the set is due (0 when one is due already); it only clears the
  "tickled" flag.\<close>

theorem getNextTimer_least_wait:
  assumes "timer_inv tm"
  shows "snd (getNextTimer now tm) = tm\<lparr>m_tickled := False\<rparr>
    \<and> (if m_timers tm = [] then fst (getNextTimer now tm) = NOT 0
       else fst (getNextTimer now tm) = Min ((\<lambda>a. wait_of now (tm_heap tm a)) ` set (m_timers tm)))"
proof -
  have "fst (getNextTimer now tm) = Min ((\<lambda>a. wait_of now (tm_heap tm a)) ` set (m_timers tm))"
    if ne: "m_timers tm \<noteq> []"
  proof (rule Min_eqI [symmetric])
    show "finite ((\<lambda>a. wait_of now (tm_heap tm a)) ` set (m_timers tm))" by simp
    have f: "fst (getNextTimer now tm) = wait_of now (tm_heap tm (hd (m_timers tm)))"
      using ne by (auto simp: getNextTimer_def wait_of_def Let_def split: list.splits)
    show "fst (getNextTimer now tm) \<in> (\<lambda>a. wait_of now (tm_heap tm a)) ` set (m_timers tm)"
      using f ne by simp
    show "fst (getNextTimer now tm) \<le> y"
      if "y \<in> (\<lambda>a. wait_of now (tm_heap tm a)) ` set (m_timers tm)" for y
      using that assms unfolding f
      by (auto simp: timer_inv_def intro: wait_of_mono sorted_timers_front)
  qed
  then show ?thesis by (simp add: getNextTimer_state) (simp add: getNextTimer_def Let_def)
qed

theorem getNextTimer_least_wait_witness:
  "fst (getNextTimer 102 (snd (addTimer 5 (Some (Fn ())) False 100 7 (TimerManager_ctor 100)))) = 3"
  using getNextTimer_least_wait [OF sample_manager(1), of 102] sample_manager(3,4)
  by (simp add: wait_of_def Timer_ctor_def)

text \<open>Adding a timer calls \<open>onTimerInsertedAtFront\<close> exactly when no earlier timer is in the
  set and no notification is pending, and then marks one as pending; the new timer joins
  the set with deadline \<open>ms + now\<close> (mod \<open>2^64\<close>) and the others stay as they are.\<close>

theorem addTimer_notifies_front:
  assumes "timer_inv tm" and "a \<notin> tm_live tm"
  shows "(let (n, tm') = addTimer ms cb r now a tm in
      (n \<longleftrightarrow> \<not> m_tickled tm \<and>
         (\<forall>b\<in>set (m_timers tm). m_next (tm_heap tm b) > ms + now
            \<or> m_next (tm_heap tm b) = ms + now \<and> a < b))
      \<and> (m_tickled tm' \<longleftrightarrow> m_tickled tm \<or> n)
      \<and> set (m_timers tm') = insert a (set (m_timers tm))
      \<and> tm_heap tm' = (tm_heap tm)(a := Timer_ctor ms cb r now))"
proof -
  let ?tm1 = "tm\<lparr>tm_heap := (tm_heap tm)(a := Timer_ctor ms cb r now), tm_live := insert a (tm_live tm)\<rparr>"
  have na: "a \<notin> set (m_timers tm)" using assms by (auto simp: timer_inv_def)
  then have s: "sorted_wrt (timer_lt (tm_heap ?tm1)) (m_timers ?tm1)"
    using assms by (simp add: timer_inv_def sorted_heap_update_other)
  have "\<not> timer_lt (tm_heap ?tm1) b a \<longleftrightarrow>
      m_next (tm_heap tm b) > ms + now \<or> m_next (tm_heap tm b) = ms + now \<and> a < b"
    if "b \<in> set (m_timers tm)" for b
  proof -
    have "b \<noteq> a" using that na by blast
    then show ?thesis by (auto simp: timer_lt_iff Timer_ctor_def)
  qed
  with addTimer_val_notifies [OF s, of a] show ?thesis
    by (auto simp: addTimer_def case_prod_beta Let_def tset.insert_set)
qed

theorem addTimer_notifies_front_witness:
  "fst (addTimer 5 (Some (Fn ())) False 100 7 (TimerManager_ctor 100))"
  using addTimer_notifies_front [OF timer_inv_ctor, of 7 100 5 "Some (Fn ())" False 100]
  by (simp add: TimerManager_ctor_def case_prod_beta Let_def)

text \<open>\<open>reset\<close> refuses (false, no change) a timer without callback and an unchanged period
  unless \<open>from_now\<close>; otherwise it keeps the timer in the set with the new period, counted
  from now or from the start of the running period (all mod \<open>2^64\<close>), and changes no other
  timer.\<close>

theorem reset_spec:
  assumes "timer_inv tm" and "a \<in> tm_live tm"
  shows "\<exists>b n tm'. reset a ms from_now now tm = Inr (b, n, tm') \<and> timer_inv tm'
    \<and> (b \<longleftrightarrow> (ms \<noteq> m_ms (tm_heap tm a) \<or> from_now) \<and> m_cb (tm_heap tm a) \<noteq> None)
    \<and> (\<not> b \<longrightarrow> \<not> n \<and> tm' = tm)
    \<and> (b \<longrightarrow> set (m_timers tm') = set (m_timers tm)
          \<and> m_ms (tm_heap tm' a) = ms
          \<and> m_next (tm_heap tm' a) - ms =
              (if from_now then now else m_next (tm_heap tm a) - m_ms (tm_heap tm a))
          \<and> m_cb (tm_heap tm' a) = m_cb (tm_heap tm a)
          \<and> (\<forall>c. c \<noteq> a \<longrightarrow> tm_heap tm' c = tm_heap tm c))"
proof (cases "(ms = m_ms (tm_heap tm a) \<and> \<not> from_now) \<or> m_cb (tm_heap tm a) = None")
  case True
  then have "reset a ms from_now now tm = Inr (False, False, tm)"
    by (auto simp: reset_eq [OF assms] Let_def)
  with True assms(1) show ?thesis
    by (intro exI [of _ False] exI [of _ tm]) auto
next
  case False
  define t where "t = (tm_heap tm a)\<lparr>m_ms := ms, m_next :=
      (if from_now then now else m_next (tm_heap tm a) - m_ms (tm_heap tm a)) + ms\<rparr>"
  have eq: "reset a ms from_now now tm = Inr (True, readd a t tm)"
    using False by (auto simp: reset_eq [OF assms] Let_def t_def)
  have mem: "a \<in> set (m_timers tm)" and s: "sorted_wrt (timer_lt (tm_heap tm)) (m_timers tm)"
    using False assms by (auto simp: timer_inv_def)
  have "set (m_timers (snd (readd a t tm))) = set (m_timers tm)"
    using mem s by (auto simp: readd_def tset.insert_set tset.set_remove)
  moreover have "tm_heap (snd (readd a t tm)) = (tm_heap tm)(a := t)"
    by (simp add: readd_def)
  ultimately show ?thesis
    using eq False readd_inv [OF assms, of t]
    by (intro exI [of _ True] exI [of _ "fst (readd a t tm)"] exI [of _ "snd (readd a t tm)"])
      (auto simp: t_def)
qed

theorem reset_spec_witness:
  "\<exists>n tm'. reset 7 20 False 103 (snd (addTimer 5 (Some (Fn ())) False 100 7 (TimerManager_ctor 100)))
      = Inr (True, n, tm') \<and> m_next (tm_heap tm' 7) - 20 = 100"
  using reset_spec [OF sample_manager(1,2), of 20 False 103] sample_manager(4)
  by (auto simp: Timer_ctor_def)

text \<open>\<open>listExpiredCb\<close> tests for an empty set under the read lock and reads
  \<open>*m_timers.begin()\<close> under a write lock taken later: a \<open>cancel\<close> by another thread in
  between makes that read undefined.\<close>

theorem listExpiredCb_race:
  "\<exists>tm tm1 :: unit timer_manager. tm_run (TimerManager_ctor 100) [(OpAdd 5 (Some (Fn ())) False 100 7, [])] tm
     \<and> m_timers tm \<noteq> []
     \<and> cancel 7 tm = Inr (True, tm1)
     \<and> listExpiredCb_locked 101 9 tm1 = Inl (Undefined ''*m_timers.begin()'')"
proof -
  let ?tm = "snd (addTimer 5 (Some (Fn ())) False 100 7 (TimerManager_ctor 100)) :: unit timer_manager"
  obtain tm1 where c: "cancel 7 ?tm = Inr (True, tm1)" and e: "m_timers tm1 = []"
    and p: "m_previouseTime tm1 = 100"
    using sample_manager by (simp add: cancel_eq Timer_ctor_def)
  have "tm_run (TimerManager_ctor 100) [(OpAdd 5 (Some (Fn ())) False 100 7, [])] ?tm"
    by (simp add: TimerManager_ctor_def)
  moreover have "listExpiredCb_locked 101 9 tm1 = Inl (Undefined ''*m_timers.begin()'')"
    using e p by (simp add: listExpiredCb_locked_def delectClockRollover_eq rolled_over_def)
  ultimately show ?thesis using c sample_manager(3) by fastforce
qed


end
