(* ===== verification/Fiber.thy ===== *)
theory Fiber
  imports Prelude
begin

text \<open>
  Fibers (\<open>fiber.h\<close>, \<open>fiber.cc\<close>): objects on the shared heap with the two global
  counters, the thread-local pointers of one thread, and the operations that create,
  reset, destroy and switch fibers.  \<open>getcontext\<close>, \<open>makecontext\<close> and \<open>swapcontext\<close> act
  on an explicit saved context; the flow of control a thread is executing is named by the
  stack it runs on.  The library calls are taken to succeed, and \<open>malloc\<close>'s result and the
  address of a new object are arguments.  The lemmas show that a thread's contexts always
  resume their own stack, what a switch changes, when the destructor aborts, and that the
  global counter counts the fiber objects.
\<close>

section \<open>Data\<close>

text \<open>\<open>Fiber::State\<close>; its \<open>TERM\<close> is spelt \<open>FTERM\<close>, since \<open>TERM\<close> is a keyword of the logic.\<close>

datatype fiber_state = INIT | HOLD | EXEC | FTERM | READY | EXCEPT

text \<open>The flow a context resumes: the thread's own stack, or the stack of a fiber.\<close>

datatype flow = Native | OnStack addr

text \<open>The entry functions given to \<open>makecontext\<close>.\<close>

datatype entry = MainFunc | CallerMainFunc

text \<open>
  What is in a \<open>ucontext_t\<close>: nothing yet, a fresh entry on the fiber's stack, a suspended
  flow, or a suspended flow that has only the \<open>AWCOTN_ASSERT2(false, "never reach ...")\<close>
  at the end of \<open>MainFunc\<close> or \<open>CallerMainFunc\<close> left to execute.
\<close>

datatype ctx = NoCtx | Entry entry | Saved flow | Finished

record 'cb fiber =
  f_id :: u64
  f_stacksize :: u64
  f_state :: fiber_state
  f_ctx :: ctx
  f_stack :: "addr option"
  f_cb :: "'cb option"

text \<open>The state all threads share: the objects, which of them exist, and the counters.\<close>

record 'cb fglobal =
  fb :: "addr \<Rightarrow> 'cb fiber"
  fb_live :: "addr set"
  s_fiber_id :: u64
  s_fiber_count :: u64

text \<open>The thread-local pointers (\<open>t_scheduler_fiber\<close> of \<open>scheduler.cc\<close> is what
  \<open>Scheduler::GetMainFiber\<close> returns), and the flow the thread executes.\<close>

record tlocal =
  t_fiber :: "addr option"
  t_threadFiber :: "addr option"
  t_scheduler_fiber :: "addr option"
  t_running :: flow

type_synonym 'cb fenv = "'cb fglobal \<times> tlocal"

section \<open>Operations\<close>

definition set_fiber :: "addr \<Rightarrow> 'cb fiber \<Rightarrow> 'cb fglobal \<Rightarrow> 'cb fglobal" where
  "set_fiber a f g = g\<lparr>fb := (fb g)(a := f)\<rparr>"

definition upd_state :: "addr \<Rightarrow> fiber_state \<Rightarrow> 'cb fglobal \<Rightarrow> 'cb fglobal" where
  "upd_state a s g = set_fiber a ((fb g a)\<lparr>f_state := s\<rparr>) g"

text \<open>\<open>swapcontext(&from->m_ctx, &to->m_ctx)\<close>: saves the running flow, then resumes.\<close>

definition swapcontext :: "addr \<Rightarrow> addr \<Rightarrow> 'cb fenv \<Rightarrow> 'cb fenv res" where
  "swapcontext from to e =
     (case e of (g, l) \<Rightarrow>
        let g1 = set_fiber from ((fb g from)\<lparr>f_ctx := Saved (t_running l)\<rparr>) g
        in case f_ctx (fb g1 to) of
             NoCtx \<Rightarrow> Inl (Undefined ''swapcontext to an unset context'')
           | Entry _ \<Rightarrow> Inr (g1, l\<lparr>t_running := OnStack to\<rparr>)
           | Saved fl \<Rightarrow> Inr (g1, l\<lparr>t_running := fl\<rparr>)
           | Finished \<Rightarrow> Inl (Abort ''never reach''))"

definition GetFiberId :: "'cb fenv \<Rightarrow> u64" where
  "GetFiberId e = (case e of (g, l) \<Rightarrow>
     case t_fiber l of Some f \<Rightarrow> f_id (fb g f) | None \<Rightarrow> 0)"

definition SetThis :: "addr option \<Rightarrow> tlocal \<Rightarrow> tlocal" where
  "SetThis f l = l\<lparr>t_fiber := f\<rparr>"

text \<open>\<open>Fiber::Fiber()\<close>, the fiber of the thread's own stack, at address \<open>a\<close>.\<close>

definition Fiber_ctor_main :: "addr \<Rightarrow> 'cb fenv \<Rightarrow> 'cb fenv" where
  "Fiber_ctor_main a e =
     (case e of (g, l) \<Rightarrow>
        let f = \<lparr>f_id = s_fiber_id g, f_stacksize = 0, f_state = EXEC,
                 f_ctx = Saved (t_running l), f_stack = None, f_cb = None\<rparr>
        in (g\<lparr>fb := (fb g)(a := f), fb_live := insert a (fb_live g),
              s_fiber_id := s_fiber_id g + 1, s_fiber_count := s_fiber_count g + 1\<rparr>,
            SetThis (Some a) l))"

text \<open>\<open>Fiber::Fiber(cb, stacksize, use_caller)\<close>; \<open>dflt\<close> is \<open>g_fiber_stack_size->getValue()\<close>,
  \<open>stk\<close> the result of \<open>malloc\<close>.\<close>

definition Fiber_ctor ::
  "'cb option \<Rightarrow> u64 \<Rightarrow> bool \<Rightarrow> u32 \<Rightarrow> addr option \<Rightarrow> addr \<Rightarrow> 'cb fglobal \<Rightarrow> 'cb fglobal" where
  "Fiber_ctor cb stacksize use_caller dflt stk a g =
     (let f = \<lparr>f_id = s_fiber_id g,
               f_stacksize = (if stacksize \<noteq> 0 then stacksize else ucast dflt),
               f_state = INIT,
               f_ctx = Entry (if \<not> use_caller then MainFunc else CallerMainFunc),
               f_stack = stk, f_cb = cb\<rparr>
      in g\<lparr>fb := (fb g)(a := f), fb_live := insert a (fb_live g),
           s_fiber_id := s_fiber_id g + 1, s_fiber_count := s_fiber_count g + 1\<rparr>)"

definition Fiber_dtor :: "addr \<Rightarrow> 'cb fenv \<Rightarrow> 'cb fenv res" where
  "Fiber_dtor a e =
     (case e of (g, l) \<Rightarrow>
        let g1 = g\<lparr>s_fiber_count := s_fiber_count g - 1\<rparr>;
            f = fb g1 a;
            g2 = g1\<lparr>fb_live := fb_live g1 - {a}\<rparr>
        in if f_stack f \<noteq> None then
             if f_state f = FTERM \<or> f_state f = INIT \<or> f_state f = EXCEPT then Inr (g2, l)
             else Inl (Abort ''m_state == TERM || m_state == INIT || m_state == EXCEPT'')
           else if f_cb f \<noteq> None then Inl (Abort ''!m_cb'')
           else if f_state f \<noteq> EXEC then Inl (Abort ''m_state == EXEC'')
           else Inr (g2, if t_fiber l = Some a then SetThis None l else l))"

definition Fiber_reset :: "addr \<Rightarrow> 'cb option \<Rightarrow> 'cb fglobal \<Rightarrow> 'cb fglobal res" where
  "Fiber_reset a cb g =
     (let f = fb g a
      in if f_stack f = None then Inl (Abort ''m_stack'')
         else if \<not> (f_state f = FTERM \<or> f_state f = INIT \<or> f_state f = EXCEPT) then
           Inl (Abort ''m_state == TERM || m_state == INIT || m_state == EXCEPT'')
         else Inr (set_fiber a (f\<lparr>f_cb := cb, f_ctx := Entry MainFunc, f_state := INIT\<rparr>) g))"

definition fiber_call :: "addr \<Rightarrow> 'cb fenv \<Rightarrow> 'cb fenv res" where
  "fiber_call a e =
     (case e of (g, l) \<Rightarrow>
        let l1 = SetThis (Some a) l; g1 = upd_state a EXEC g
        in case t_threadFiber l1 of
             None \<Rightarrow> Inl (Undefined ''t_threadFiber is null'')
           | Some m \<Rightarrow> swapcontext m a (g1, l1))"

definition fiber_back :: "addr \<Rightarrow> 'cb fenv \<Rightarrow> 'cb fenv res" where
  "fiber_back a e =
     (case e of (g, l) \<Rightarrow>
        case t_threadFiber l of
          None \<Rightarrow> Inl (Undefined ''t_threadFiber is null'')
        | Some m \<Rightarrow> swapcontext a m (g, SetThis (Some m) l))"

definition swapIn :: "addr \<Rightarrow> 'cb fenv \<Rightarrow> 'cb fenv res" where
  "swapIn a e =
     (case e of (g, l) \<Rightarrow>
        let l1 = SetThis (Some a) l
        in if f_state (fb g a) = EXEC then Inl (Abort ''m_state != EXEC'')
           else
             let g1 = upd_state a EXEC g
             in case t_scheduler_fiber l1 of
                  None \<Rightarrow> Inl (Undefined ''GetMainFiber() is null'')
                | Some m \<Rightarrow> swapcontext m a (g1, l1))"

definition swapOut :: "addr \<Rightarrow> 'cb fenv \<Rightarrow> 'cb fenv res" where
  "swapOut a e =
     (case e of (g, l) \<Rightarrow>
        let l1 = SetThis (t_scheduler_fiber l) l
        in case t_scheduler_fiber l1 of
             None \<Rightarrow> Inl (Undefined ''GetMainFiber() is null'')
           | Some m \<Rightarrow> swapcontext a m (g, l1))"

text \<open>\<open>Fiber::GetThis()\<close>; \<open>a\<close> is the address of the main fiber it may create.\<close>

definition GetThis :: "addr \<Rightarrow> 'cb fenv \<Rightarrow> addr \<times> 'cb fenv" where
  "GetThis a e =
     (case e of (g, l) \<Rightarrow>
        case t_fiber l of
          Some f \<Rightarrow> (f, e)
        | None \<Rightarrow>
            (case Fiber_ctor_main a e of (g1, l1) \<Rightarrow> (a, (g1, l1\<lparr>t_threadFiber := Some a\<rparr>))))"

definition YieldTo :: "fiber_state \<Rightarrow> addr \<Rightarrow> 'cb fenv \<Rightarrow> 'cb fenv res" where
  "YieldTo s a e = (case GetThis a e of (cur, (g, l)) \<Rightarrow> swapOut cur (upd_state cur s g, l))"

definition YieldToReady :: "addr \<Rightarrow> 'cb fenv \<Rightarrow> 'cb fenv res" where
  "YieldToReady a e = YieldTo READY a e"

definition YieldToHold :: "addr \<Rightarrow> 'cb fenv \<Rightarrow> 'cb fenv res" where
  "YieldToHold a e = YieldTo HOLD a e"

definition TotalFibers :: "'cb fglobal \<Rightarrow> u64" where
  "TotalFibers g = s_fiber_count g"

text \<open>
  The end of \<open>MainFunc\<close> (and of \<open>CallerMainFunc\<close>) on fiber \<open>a\<close>: the callback returned, or
  raised (an empty \<open>m_cb\<close> raises \<open>bad_function_call\<close>); the state is set and control goes
  to the scheduler's fiber (or the thread's fiber) for good.
\<close>

definition main_exit :: "bool \<Rightarrow> 'cb fiber \<Rightarrow> 'cb fiber" where
  "main_exit raised f =
     (if raised \<or> f_cb f = None then f\<lparr>f_state := EXCEPT\<rparr>
      else f\<lparr>f_cb := None, f_state := FTERM\<rparr>)"

text \<open>After the last switch the context holds only the assertion.\<close>

definition mark_finished :: "addr \<Rightarrow> 'cb fenv \<Rightarrow> 'cb fenv" where
  "mark_finished a e =
     (case e of (g, l) \<Rightarrow> (set_fiber a ((fb g a)\<lparr>f_ctx := Finished\<rparr>) g, l))"

definition MainFunc_end :: "addr \<Rightarrow> bool \<Rightarrow> 'cb fenv \<Rightarrow> 'cb fenv res" where
  "MainFunc_end a raised e =
     (case e of (g, l) \<Rightarrow>
        res_bind (swapOut a (set_fiber a (main_exit raised (fb g a)) g, l))
          (\<lambda>e1. Inr (mark_finished a e1)))"

definition CallerMainFunc_end :: "addr \<Rightarrow> bool \<Rightarrow> 'cb fenv \<Rightarrow> 'cb fenv res" where
  "CallerMainFunc_end a raised e =
     (case e of (g, l) \<Rightarrow>
        res_bind (fiber_back a (set_fiber a (main_exit raised (fb g a)) g, l))
          (\<lambda>e1. Inr (mark_finished a e1)))"

section \<open>One thread switching between its main fiber and others\<close>

text \<open>
  A scheduler thread has a main fiber \<open>m\<close> whose flow is \<open>home\<close> (the thread's own stack, or
  the root fiber's).  The thread is either at home, or on another fiber's stack while
  \<open>m\<close>'s context holds the home flow; and the context of every other fiber resumes that
  fiber's own stack.
\<close>

definition own_context :: "addr \<Rightarrow> ctx \<Rightarrow> bool" where
  "own_context f c \<longleftrightarrow> (\<exists>en. c = Entry en) \<or> c = Saved (OnStack f) \<or> c = Finished"

definition at_home :: "addr \<Rightarrow> flow \<Rightarrow> 'cb fenv \<Rightarrow> bool" where
  "at_home m home e \<longleftrightarrow> t_running (snd e) = home \<and> t_fiber (snd e) = Some m"

definition on_fiber :: "addr \<Rightarrow> flow \<Rightarrow> addr \<Rightarrow> 'cb fenv \<Rightarrow> bool" where
  "on_fiber m home f e \<longleftrightarrow> f \<noteq> m \<and> f \<in> fb_live (fst e) \<and> t_running (snd e) = OnStack f
     \<and> t_fiber (snd e) = Some f \<and> f_ctx (fb (fst e) m) = Saved home"

definition switch_inv :: "addr \<Rightarrow> flow \<Rightarrow> 'cb fenv \<Rightarrow> bool" where
  "switch_inv m home e \<longleftrightarrow>
     t_scheduler_fiber (snd e) = Some m \<and> m \<in> fb_live (fst e)
     \<and> (at_home m home e \<or> (\<exists>f. on_fiber m home f e))
     \<and> (\<forall>f\<in>fb_live (fst e) - {m}. own_context f (f_ctx (fb (fst e) f)))"

lemma set_fiber_simps [simp]:
  "fb (set_fiber a f g) = (fb g)(a := f)" "fb_live (set_fiber a f g) = fb_live g"
  "s_fiber_id (set_fiber a f g) = s_fiber_id g" "s_fiber_count (set_fiber a f g) = s_fiber_count g"
  "fb (upd_state a s g) = (fb g)(a := (fb g a)\<lparr>f_state := s\<rparr>)" "fb_live (upd_state a s g) = fb_live g"
  "s_fiber_id (upd_state a s g) = s_fiber_id g" "s_fiber_count (upd_state a s g) = s_fiber_count g"
  by (simp_all add: set_fiber_def upd_state_def)

lemma SetThis_simps [simp]:
  "t_fiber (SetThis f l) = f" "t_threadFiber (SetThis f l) = t_threadFiber l"
  "t_scheduler_fiber (SetThis f l) = t_scheduler_fiber l" "t_running (SetThis f l) = t_running l"
  by (simp_all add: SetThis_def)

lemmas switch_defs =
  swapcontext_def swapIn_def swapOut_def Let_def own_context_def at_home_def on_fiber_def

text \<open>The steps of such a thread: at home it switches a fiber in, resets or destroys one;
  on a fiber it yields, switches out without a state change, or ends; anywhere it creates
  fibers.\<close>

inductive fiber_step :: "addr \<Rightarrow> flow \<Rightarrow> 'cb fenv \<Rightarrow> 'cb fenv \<Rightarrow> bool" for m home where
  step_in: "at_home m home e \<Longrightarrow> f \<noteq> m \<Longrightarrow> f \<in> fb_live (fst e) \<Longrightarrow> swapIn f e = Inr e' \<Longrightarrow>
     fiber_step m home e e'"
| step_reset: "at_home m home (g, l) \<Longrightarrow> f \<noteq> m \<Longrightarrow> f \<in> fb_live g \<Longrightarrow> Fiber_reset f cb g = Inr g' \<Longrightarrow>
     fiber_step m home (g, l) (g', l)"
| step_dtor: "at_home m home e \<Longrightarrow> f \<noteq> m \<Longrightarrow> f \<in> fb_live (fst e) \<Longrightarrow> Fiber_dtor f e = Inr e' \<Longrightarrow>
     fiber_step m home e e'"
| step_yield: "on_fiber m home f e \<Longrightarrow> YieldTo s a e = Inr e' \<Longrightarrow> fiber_step m home e e'"
| step_out: "on_fiber m home f e \<Longrightarrow> swapOut f e = Inr e' \<Longrightarrow> fiber_step m home e e'"
| step_end: "on_fiber m home f e \<Longrightarrow> MainFunc_end f raised e = Inr e' \<Longrightarrow> fiber_step m home e e'"
| step_new: "a \<notin> fb_live g \<Longrightarrow>
     fiber_step m home (g, l) (Fiber_ctor cb sz uc dflt stk a g, l)"

inductive_cases fiber_stepE: "fiber_step m home e e'"

lemma swapOut_home:
  assumes "switch_inv m home e" and "on_fiber m home f e"
  shows "\<exists>e'. swapOut f e = Inr e' \<and> at_home m home e' \<and> switch_inv m home e'
    \<and> fst e' = set_fiber f ((fb (fst e) f)\<lparr>f_ctx := Saved (OnStack f)\<rparr>) (fst e)
    \<and> snd e' = (snd e)\<lparr>t_fiber := Some m, t_running := home\<rparr>"
  using assms by (cases e) (auto simp: switch_inv_def switch_defs SetThis_def)

lemma switch_inv_state:
  assumes "on_fiber m home f (g, l)" and "f_ctx t = f_ctx (fb g f)"
  shows "switch_inv m home (set_fiber f t g, l) = switch_inv m home (g, l)"
    and "on_fiber m home f (set_fiber f t g, l)"
  using assms by (auto simp: switch_inv_def switch_defs)

lemma swapIn_result:
  assumes "switch_inv m home (g, l)" and "f \<noteq> m" and "f \<in> fb_live g" and "swapIn f (g, l) = Inr e'"
  shows "e' = (set_fiber m ((fb g m)\<lparr>f_ctx := Saved (t_running l)\<rparr>) (upd_state f EXEC g),
               l\<lparr>t_fiber := Some f, t_running := OnStack f\<rparr>)"
    and "f_ctx (fb g f) \<noteq> Finished" and "f_state (fb g f) \<noteq> EXEC"
proof -
  have m: "t_scheduler_fiber l = Some m" and "own_context f (f_ctx (fb g f))"
    using assms(1-3) by (auto simp: switch_inv_def)
  then consider en where "f_ctx (fb g f) = Entry en" | "f_ctx (fb g f) = Saved (OnStack f)"
    | "f_ctx (fb g f) = Finished" by (auto simp: own_context_def)
  then have "e' = (set_fiber m ((fb g m)\<lparr>f_ctx := Saved (t_running l)\<rparr>) (upd_state f EXEC g),
               l\<lparr>t_fiber := Some f, t_running := OnStack f\<rparr>)
      \<and> f_ctx (fb g f) \<noteq> Finished \<and> f_state (fb g f) \<noteq> EXEC"
    using assms(2,4) m
    by cases (simp_all add: swapIn_def swapcontext_def SetThis_def Let_def split: if_splits)
  then show "e' = (set_fiber m ((fb g m)\<lparr>f_ctx := Saved (t_running l)\<rparr>) (upd_state f EXEC g),
               l\<lparr>t_fiber := Some f, t_running := OnStack f\<rparr>)"
    and "f_ctx (fb g f) \<noteq> Finished" and "f_state (fb g f) \<noteq> EXEC" by blast+
qed

lemma swapIn_enters:
  assumes "switch_inv m home e" and "at_home m home e" and "f \<noteq> m" and "f \<in> fb_live (fst e)"
    and "swapIn f e = Inr e'"
  shows "on_fiber m home f e'" and "switch_inv m home e'"
proof -
  obtain g l where e: "e = (g, l)" by (cases e)
  note r = swapIn_result(1) [OF assms(1) [unfolded e] assms(3) _ assms(5) [unfolded e]]
  show "on_fiber m home f e'" and "switch_inv m home e'"
    using assms(1-4) r by (auto simp: e switch_inv_def switch_defs)
qed

lemma MainFunc_end_home:
  assumes "switch_inv m home e" and "on_fiber m home f e"
  shows "\<exists>e'. MainFunc_end f raised e = Inr e' \<and> at_home m home e' \<and> switch_inv m home e'
    \<and> fb (fst e') f = (main_exit raised (fb (fst e) f))\<lparr>f_ctx := Finished\<rparr>
    \<and> fb_live (fst e') = fb_live (fst e) \<and> (\<forall>g. g \<noteq> f \<longrightarrow> fb (fst e') g = fb (fst e) g)"
proof -
  obtain g l where e: "e = (g, l)" by (cases e)
  let ?g = "set_fiber f (main_exit raised (fb g f)) g"
  have c: "f_ctx (main_exit raised (fb g f)) = f_ctx (fb g f)" by (simp add: main_exit_def)
  have i: "switch_inv m home (?g, l)" and o: "on_fiber m home f (?g, l)"
    using switch_inv_state [OF _ c, of m home l] assms e by auto
  obtain e1 where e1: "swapOut f (?g, l) = Inr e1" "at_home m home e1" "switch_inv m home e1"
    "fst e1 = set_fiber f ((fb ?g f)\<lparr>f_ctx := Saved (OnStack f)\<rparr>) ?g"
    using swapOut_home [OF i o] by auto
  have "switch_inv m home (mark_finished f e1) \<and> at_home m home (mark_finished f e1)"
    using e1(2,3) assms(2)
    by (cases e1) (auto simp: mark_finished_def switch_inv_def switch_defs)
  with e1 e show ?thesis
    by (cases e1) (auto simp: MainFunc_end_def mark_finished_def)
qed

lemma own_context_simps [simp]:
  "own_context f (Entry en)" "own_context f Finished" "own_context f (Saved (OnStack f))"
  by (simp_all add: own_context_def)

lemma Fiber_reset_result:
  assumes "Fiber_reset f cb g = Inr g'"
  shows "g' = set_fiber f ((fb g f)\<lparr>f_cb := cb, f_ctx := Entry MainFunc, f_state := INIT\<rparr>) g"
    and "f_state (fb g f) \<in> {FTERM, INIT, EXCEPT}"
  using assms by (auto simp: Fiber_reset_def Let_def split: if_splits)

lemma Fiber_dtor_result:
  assumes "Fiber_dtor f (g, l) = Inr e'" and "t_fiber l \<noteq> Some f"
  shows "e' = (g\<lparr>s_fiber_count := s_fiber_count g - 1, fb_live := fb_live g - {f}\<rparr>, l)"
  using assms by (auto simp: Fiber_dtor_def Let_def split: if_splits)

lemma fiber_step_inv: "fiber_step m home e e' \<Longrightarrow> switch_inv m home e \<Longrightarrow> switch_inv m home e'"
proof (induction rule: fiber_step.induct)
  case (step_in e f e')
  then show ?case by (blast intro: swapIn_enters)
next
  case (step_yield f e s a e')
  obtain g l where e: "e = (g, l)" by (cases e)
  have "t_fiber l = Some f" using step_yield.hyps(1) e by (simp add: on_fiber_def)
  then have y: "YieldTo s a e = swapOut f (set_fiber f ((fb g f)\<lparr>f_state := s\<rparr>) g, l)"
    by (simp add: YieldTo_def GetThis_def e upd_state_def)
  then show ?case
    using step_yield swapOut_home [of m home _ f] switch_inv_state [of m home f g l "(fb g f)\<lparr>f_state := s\<rparr>"]
    unfolding e by fastforce
next
  case (step_out f e e')
  then show ?case using swapOut_home [of m home e f] by auto
next
  case (step_end f e raised e')
  then show ?case using MainFunc_end_home [of m home e f raised] by auto
next
  case (step_dtor e f e')
  obtain g l where e: "e = (g, l)" by (cases e)
  have "t_fiber l \<noteq> Some f" using step_dtor.hyps(1,2) by (simp add: at_home_def e)
  with step_dtor have "e' = (g\<lparr>s_fiber_count := s_fiber_count g - 1, fb_live := fb_live g - {f}\<rparr>, l)"
    unfolding e by (intro Fiber_dtor_result)
  with step_dtor show ?case by (auto simp: e switch_inv_def at_home_def)
next
  case (step_reset g l f cb g')
  then show ?case by (auto dest!: Fiber_reset_result(1) simp: switch_inv_def at_home_def
        split: if_splits)
qed (auto simp: switch_inv_def switch_defs Fiber_ctor_def)

text \<open>The thread after its first fiber was made and installed as the scheduler's fiber.\<close>

definition thread_start :: "addr \<Rightarrow> 'cb fglobal \<Rightarrow> 'cb fenv" where
  "thread_start m g =
     (case GetThis m (g, \<lparr>t_fiber = None, t_threadFiber = None, t_scheduler_fiber = None,
                          t_running = Native\<rparr>) of
        (f, (g1, l1)) \<Rightarrow> (g1, l1\<lparr>t_scheduler_fiber := Some f\<rparr>))"

lemma thread_start_inv: "fb_live g = {} \<Longrightarrow> switch_inv m Native (thread_start m g)"
  by (auto simp: thread_start_def GetThis_def Fiber_ctor_main_def switch_inv_def switch_defs)


definition no_fibers :: "'cb fglobal" where
  "no_fibers = \<lparr>fb = (\<lambda>_. \<lparr>f_id = 0, f_stacksize = 0, f_state = INIT, f_ctx = NoCtx, f_stack = None,
      f_cb = None\<rparr>), fb_live = {}, s_fiber_id = 0, s_fiber_count = 0\<rparr>"

definition one_fiber :: "unit fenv" where
  "one_fiber = (case thread_start 1 no_fibers of (g, l) \<Rightarrow>
     (Fiber_ctor (Some ()) 0 False 1048576 (Some 64) 2 g, l))"

lemma one_fiber_reach: "(fiber_step 1 Native)\<^sup>*\<^sup>* (thread_start 1 no_fibers) one_fiber"
proof -
  obtain g l where t: "thread_start 1 (no_fibers :: unit fglobal) = (g, l)" by (cases "thread_start 1 (no_fibers :: unit fglobal)")
  then have "2 \<notin> fb_live g"
    by (auto simp: thread_start_def GetThis_def Fiber_ctor_main_def no_fibers_def)
  then have "fiber_step 1 Native (g, l) (Fiber_ctor (Some ()) 0 False 1048576 (Some 64) 2 g, l)"
    by (rule step_new)
  then show ?thesis unfolding one_fiber_def t by (simp del: One_nat_def add: r_into_rtranclp)
qed



section \<open>What a fiber goes through\<close>

lemma yield_result:
  assumes "switch_inv m home (g, l)" and "on_fiber m home f (g, l)"
  shows "YieldTo s a (g, l) =
    Inr (set_fiber f ((fb g f)\<lparr>f_state := s, f_ctx := Saved (OnStack f)\<rparr>) g,
         l\<lparr>t_fiber := Some m, t_running := home\<rparr>)"
  using assms
  by (auto simp: YieldTo_def GetThis_def switch_inv_def switch_defs SetThis_def upd_state_def set_fiber_def)

text \<open>Switching a fiber in and out again (as \<open>IOManager::idle\<close> does, without a state
  change) or yielding from it brings the thread back home with the same thread-local
  pointers; the only objects changed are the fiber, which is left in the state the yield
  set (\<open>EXEC\<close> for a bare \<open>swapOut\<close>) with its own flow saved, and the main fiber's saved
  context.\<close>

theorem switch_round_trip:
  assumes "switch_inv m home e" and "at_home m home e" and "f \<noteq> m" and "f \<in> fb_live (fst e)"
    and "swapIn f e = Inr e1"
  shows "(\<exists>e2. swapOut f e1 = Inr e2 \<and> snd e2 = snd e
      \<and> fb (fst e2) = (fb (fst e))(m := (fb (fst e) m)\<lparr>f_ctx := Saved home\<rparr>,
           f := (fb (fst e) f)\<lparr>f_state := EXEC, f_ctx := Saved (OnStack f)\<rparr>))
    \<and> (\<exists>e2. YieldTo s a e1 = Inr e2 \<and> snd e2 = snd e
      \<and> fb (fst e2) = (fb (fst e))(m := (fb (fst e) m)\<lparr>f_ctx := Saved home\<rparr>,
           f := (fb (fst e) f)\<lparr>f_state := s, f_ctx := Saved (OnStack f)\<rparr>))"
proof -
  obtain g l where e: "e = (g, l)" by (cases e)
  note r = swapIn_result(1) [OF assms(1) [unfolded e] assms(3) _ assms(5) [unfolded e]]
  have on: "on_fiber m home f e1" and inv: "switch_inv m home e1"
    using swapIn_enters [OF assms] by blast+
  have l: "l\<lparr>t_fiber := Some m, t_running := home\<rparr> = l" and h: "t_running l = home"
    using assms(2) by (auto simp: e at_home_def)
  have "\<exists>e2. swapOut f e1 = Inr e2 \<and> snd e2 = snd e
      \<and> fb (fst e2) = (fb (fst e))(m := (fb (fst e) m)\<lparr>f_ctx := Saved home\<rparr>,
           f := (fb (fst e) f)\<lparr>f_state := EXEC, f_ctx := Saved (OnStack f)\<rparr>)"
    using swapOut_home [OF inv on] r assms(3,4) l h by (fastforce simp: e)
  moreover have "\<exists>e2. YieldTo s a e1 = Inr e2 \<and> snd e2 = snd e
      \<and> fb (fst e2) = (fb (fst e))(m := (fb (fst e) m)\<lparr>f_ctx := Saved home\<rparr>,
           f := (fb (fst e) f)\<lparr>f_state := s, f_ctx := Saved (OnStack f)\<rparr>)"
    using yield_result [of m home "fst e1" "snd e1" f s a] inv on r assms(3,4) l h
    by (auto simp: e)
  ultimately show ?thesis by blast
qed

lemma one_fiber_facts:
  "at_home 1 Native one_fiber" "2 \<in> fb_live (fst one_fiber)"
  "switch_inv 1 Native one_fiber" "\<exists>e1. swapIn 2 one_fiber = Inr e1"
proof -
  show "switch_inv 1 Native one_fiber"
    using one_fiber_reach
    by (induction rule: rtranclp_induct)
      (auto intro: fiber_step_inv thread_start_inv simp: no_fibers_def)
qed (simp_all add: one_fiber_def thread_start_def GetThis_def Fiber_ctor_main_def Fiber_ctor_def
    no_fibers_def at_home_def swapIn_def swapcontext_def Let_def SetThis_def)

theorem switch_round_trip_witness:
  "\<exists>e1 e2. swapIn 2 one_fiber = Inr e1 \<and> YieldTo HOLD 9 e1 = Inr e2 \<and> snd e2 = snd one_fiber
     \<and> f_state (fb (fst e2) 2) = HOLD"
proof -
  obtain e1 where e1: "swapIn 2 one_fiber = Inr e1" using one_fiber_facts(4) by blast
  from conjunct2 [OF switch_round_trip [OF one_fiber_facts(3,1) _ one_fiber_facts(2) e1, of HOLD 9]] e1
  show ?thesis by auto
qed

text \<open>A fiber whose callback ends leaves the thread at home, in state \<open>TERM\<close> with its callback
  dropped (\<open>EXCEPT\<close>, callback kept, if it raised or there was none).  It can then be
  destroyed, and reset to run another callback from the start; but switching it in again
  without a reset runs into the "never reach" assertion.\<close>

theorem ended_fiber_needs_reset:
  assumes "switch_inv m home e" and "on_fiber m home f e" and "f_stack (fb (fst e) f) \<noteq> None"
  shows "\<exists>g l. MainFunc_end f raised e = Inr (g, l) \<and> at_home m home (g, l)
    \<and> (f_state (fb g f), f_cb (fb g f)) =
        (if raised \<or> f_cb (fb (fst e) f) = None then (EXCEPT, f_cb (fb (fst e) f)) else (FTERM, None))
    \<and> swapIn f (g, l) = Inl (Abort ''never reach'')
    \<and> (\<exists>g' l'. Fiber_dtor f (g, l) = Inr (g', l') \<and> f \<notin> fb_live g')
    \<and> (\<exists>g1 e2. Fiber_reset f cb g = Inr g1 \<and> swapIn f (g1, l) = Inr e2 \<and> on_fiber m home f e2
         \<and> f_cb (fb (fst e2) f) = cb)"
proof -
  obtain e1 where e1: "MainFunc_end f raised e = Inr e1" "at_home m home e1" "switch_inv m home e1"
    "fb (fst e1) f = (main_exit raised (fb (fst e) f))\<lparr>f_ctx := Finished\<rparr>"
    "fb_live (fst e1) = fb_live (fst e)"
    using MainFunc_end_home [OF assms(1,2), of raised] by blast
  obtain g l where gl: "e1 = (g, l)" by (cases e1)
  have f: "f \<noteq> m" "f \<in> fb_live g" using assms(2) e1(5) by (auto simp: on_fiber_def gl)
  have st: "f_stack (fb g f) \<noteq> None" "f_state (fb g f) \<in> {FTERM, EXCEPT}" "f_ctx (fb g f) = Finished"
    using e1(4) assms(3) by (auto simp: gl main_exit_def)
  have tf: "t_fiber l = Some m" "t_scheduler_fiber l = Some m" "t_running l = home"
    using e1(2,3) by (auto simp: gl at_home_def switch_inv_def)
  have "swapIn f (g, l) = Inl (Abort ''never reach'')"
    using st tf f by (auto simp: swapIn_def swapcontext_def Let_def)
  moreover have "Fiber_dtor f (g, l) = Inr (g\<lparr>s_fiber_count := s_fiber_count g - 1, fb_live := fb_live g - {f}\<rparr>, l)"
    using st by (auto simp: Fiber_dtor_def Let_def)
  moreover
  let ?g1 = "set_fiber f ((fb g f)\<lparr>f_cb := cb, f_ctx := Entry MainFunc, f_state := INIT\<rparr>) g"
  have r: "Fiber_reset f cb g = Inr ?g1"
    using st by (auto simp: Fiber_reset_def Let_def)
  moreover have "\<exists>e2. swapIn f (?g1, l) = Inr e2 \<and> on_fiber m home f e2 \<and> f_cb (fb (fst e2) f) = cb"
    using tf f by (auto simp: swapIn_def swapcontext_def Let_def on_fiber_def)
  moreover have "(f_state (fb g f), f_cb (fb g f)) =
      (if raised \<or> f_cb (fb (fst e) f) = None then (EXCEPT, f_cb (fb (fst e) f)) else (FTERM, None))"
    using e1(4) by (auto simp: gl main_exit_def)
  ultimately show ?thesis
    using e1(1,2) by (intro exI [of _ g] exI [of _ l]) (simp add: gl)
qed

theorem ended_fiber_needs_reset_witness:
  "\<exists>e1 g l. swapIn 2 one_fiber = Inr e1 \<and> MainFunc_end 2 False e1 = Inr (g, l)
     \<and> f_state (fb g 2) = FTERM \<and> swapIn 2 (g, l) = Inl (Abort ''never reach'')"
proof -
  obtain e1 where e1: "swapIn 2 one_fiber = Inr e1" using one_fiber_facts(4) by blast
  have on: "on_fiber 1 Native 2 e1" and inv: "switch_inv 1 Native e1"
    using swapIn_enters [OF one_fiber_facts(3,1) _ one_fiber_facts(2) e1] by auto
  have st: "f_stack (fb (fst e1) 2) \<noteq> None" and cb: "f_cb (fb (fst e1) 2) = Some ()"
    using e1 by (auto simp: one_fiber_def thread_start_def GetThis_def Fiber_ctor_main_def
        Fiber_ctor_def no_fibers_def swapIn_def swapcontext_def Let_def SetThis_def)
  from ended_fiber_needs_reset [OF inv on st, of False "None :: unit option"] e1 cb
  show ?thesis by auto
qed

text \<open>What a thread can do while the fiber \<open>f\<close> has not ended: any step while another fiber or the
  main one runs (attempts to destroy or reset \<open>f\<close> among them), and on \<open>f\<close> everything but its end.\<close>

inductive before_end :: "addr \<Rightarrow> flow \<Rightarrow> addr \<Rightarrow> 'cb fenv \<Rightarrow> 'cb fenv \<Rightarrow> bool" for m home f where
  b_elsewhere: "fiber_step m home e e' \<Longrightarrow> \<not> on_fiber m home f e \<Longrightarrow> before_end m home f e e'"
| b_yield: "on_fiber m home f e \<Longrightarrow> s \<in> {HOLD, READY} \<Longrightarrow> YieldTo s a e = Inr e' \<Longrightarrow>
     before_end m home f e e'"
| b_out: "on_fiber m home f e \<Longrightarrow> swapOut f e = Inr e' \<Longrightarrow> before_end m home f e e'"
| b_new: "a \<notin> fb_live g \<Longrightarrow> before_end m home f (g, l) (Fiber_ctor cb sz uc dflt stk a g, l)"

lemma before_end_step: "before_end m home f e e' \<Longrightarrow> fiber_step m home e e'"
  by (induction rule: before_end.induct) (auto intro: fiber_step.intros)

definition pinned :: "addr \<Rightarrow> 'cb fglobal \<Rightarrow> bool" where
  "pinned f g \<longleftrightarrow> f \<in> fb_live g \<and> f_stack (fb g f) \<noteq> None \<and> f_state (fb g f) \<in> {HOLD, READY, EXEC}"

lemma pinned_aborts:
  assumes "pinned f g"
  shows "Fiber_reset f cb g = Inl (Abort ''m_state == TERM || m_state == INIT || m_state == EXCEPT'')"
    and "Fiber_dtor f (g, l) = Inl (Abort ''m_state == TERM || m_state == INIT || m_state == EXCEPT'')"
  using assms by (auto simp: pinned_def Fiber_reset_def Fiber_dtor_def Let_def)

text \<open>A step elsewhere: \<open>f\<close> may be switched in, and nothing else reaches it.\<close>

lemma pinned_elsewhere:
  assumes "fiber_step m home e e'" and "\<not> on_fiber m home f e" and "switch_inv m home e"
    and "f \<noteq> m" and "pinned f (fst e)"
  shows "pinned f (fst e')"
  using assms
proof (induction rule: fiber_step.induct)
  case (step_in e a e')
  obtain g l where e: "e = (g, l)" by (cases e)
  show ?case
    using swapIn_result(1) [of m home g l a e'] step_in by (auto simp: e pinned_def)
next
  case (step_reset g l a cb g')
  then have "a \<noteq> f" using pinned_aborts(1) [of f g cb] by auto
  then show ?case using step_reset Fiber_reset_result(1) [of a cb g g'] by (auto simp: pinned_def)
next
  case (step_dtor e a e')
  obtain g l where e: "e = (g, l)" by (cases e)
  have "a \<noteq> f" using step_dtor pinned_aborts(2) [of f g l] by (auto simp: e)
  moreover have "t_fiber l \<noteq> Some a" using step_dtor by (simp add: at_home_def e)
  ultimately show ?case using step_dtor Fiber_dtor_result [of a g l e'] by (auto simp: e pinned_def)
next
  case (step_yield a e s b e')
  obtain g l where e: "e = (g, l)" by (cases e)
  have "a \<noteq> f" using step_yield by auto
  then show ?case using step_yield yield_result [of m home g l a s b] by (auto simp: e pinned_def)
next
  case (step_out a e e')
  have "a \<noteq> f" using step_out by auto
  then show ?case using step_out swapOut_home [of m home e a] by (auto simp: pinned_def)
next
  case (step_end a e r e')
  have "a \<noteq> f" using step_end by auto
  then show ?case using step_end MainFunc_end_home [of m home e a r] by (auto simp: pinned_def)
qed (auto simp: pinned_def Fiber_ctor_def)

lemma pinned_step:
  "before_end m home f e e' \<Longrightarrow> switch_inv m home e \<Longrightarrow> f \<noteq> m \<Longrightarrow> pinned f (fst e) \<Longrightarrow> pinned f (fst e')"
proof (induction rule: before_end.induct)
  case (b_elsewhere e e')
  then show ?case by (rule pinned_elsewhere)
next
  case (b_yield e s a e')
  then show ?case
    using yield_result [of m home "fst e" "snd e" f s a] by (auto simp: pinned_def)
next
  case (b_out e e')
  then show ?case using swapOut_home [of m home e f] by (auto simp: pinned_def)
qed (auto simp: pinned_def Fiber_ctor_def)

text \<open>C7: From the moment a fiber with a stack of its own yields (to \<open>HOLD\<close> or \<open>READY\<close>) until it ends
  it can be neither destroyed nor reset: in every state the thread that switches it gets to
  without the fiber's end, by switching fibers in and out, yielding, creating, resetting and
  destroying fibers, and whether the fiber was switched in again or not, both abort on its state.\<close>

theorem suspended_fiber_is_pinned:
  assumes "switch_inv m home e" and "on_fiber m home f e" and "f_stack (fb (fst e) f) \<noteq> None"
    and "s \<in> {HOLD, READY}" and "YieldTo s a e = Inr e1" and "(before_end m home f)\<^sup>*\<^sup>* e1 (g, l)"
  shows "Fiber_reset f cb g = Inl (Abort ''m_state == TERM || m_state == INIT || m_state == EXCEPT'')
    \<and> Fiber_dtor f (g, l) = Inl (Abort ''m_state == TERM || m_state == INIT || m_state == EXCEPT'')"
proof -
  have f: "f \<noteq> m" using assms(2) by (simp add: on_fiber_def)
  have y: "pinned f (fst e1)"
    using yield_result [of m home "fst e" "snd e" f s a] assms(1-5) by (auto simp: pinned_def on_fiber_def)
  have "fiber_step m home e e1" using assms(2,5) by (rule step_yield)
  then have i: "switch_inv m home e1" using assms(1) by (rule fiber_step_inv)
  have "switch_inv m home (g, l) \<and> pinned f (fst (g, l))"
    using assms(6)
    by (induction rule: rtranclp_induct) (use i y f in \<open>auto intro: pinned_step fiber_step_inv before_end_step\<close>)
  then show ?thesis using pinned_aborts [of f g] by simp
qed

text \<open>The fiber yields, is switched in again and switches out without ending.\<close>

theorem suspended_fiber_is_pinned_witness:
  "\<exists>e1 e2 e3 g l. swapIn 2 one_fiber = Inr e1 \<and> YieldTo HOLD 9 e1 = Inr e2 \<and> swapIn 2 e2 = Inr e3
     \<and> swapOut 2 e3 = Inr (g, l)
     \<and> Fiber_dtor 2 (g, l) = Inl (Abort ''m_state == TERM || m_state == INIT || m_state == EXCEPT'')"
proof -
  obtain e1 where e1: "swapIn 2 one_fiber = Inr e1" using one_fiber_facts(4) by blast
  have on: "on_fiber 1 Native 2 e1" and inv: "switch_inv 1 Native e1"
    using swapIn_enters [OF one_fiber_facts(3,1) _ one_fiber_facts(2) e1] by auto
  have st: "f_stack (fb (fst e1) 2) \<noteq> None"
    using e1 by (auto simp: one_fiber_def thread_start_def GetThis_def Fiber_ctor_main_def
        Fiber_ctor_def no_fibers_def swapIn_def swapcontext_def Let_def SetThis_def)
  obtain e2 where e2: "YieldTo HOLD 9 e1 = Inr e2"
    and r2: "e2 = (set_fiber 2 ((fb (fst e1) 2)\<lparr>f_state := HOLD, f_ctx := Saved (OnStack 2)\<rparr>) (fst e1),
         (snd e1)\<lparr>t_fiber := Some 1, t_running := Native\<rparr>)"
    using yield_result [of 1 Native "fst e1" "snd e1" 2 HOLD 9] on inv by simp
  have i2: "switch_inv 1 Native e2" using step_yield [OF on e2] inv by (rule fiber_step_inv)
  have h2: "at_home 1 Native e2" "2 \<in> fb_live (fst e2)" "\<not> on_fiber 1 Native 2 e2"
    using on by (auto simp: r2 at_home_def on_fiber_def)
  obtain e3 where e3: "swapIn 2 e2 = Inr e3"
    using i2 by (auto simp: r2 swapIn_def swapcontext_def Let_def switch_inv_def)
  have on3: "on_fiber 1 Native 2 e3" and i3: "switch_inv 1 Native e3"
    using swapIn_enters [OF i2 h2(1) _ h2(2) e3] by auto
  obtain g l where e4: "swapOut 2 e3 = Inr (g, l)" using swapOut_home [OF i3 on3] by fastforce
  have "before_end 1 Native 2 e2 e3"
    using step_in [OF h2(1) _ h2(2) e3] h2(3) by (auto intro: b_elsewhere)
  then have run: "(before_end 1 Native 2)\<^sup>*\<^sup>* e2 (g, l)"
    using b_out [OF on3 e4] by (meson converse_rtranclp_into_rtranclp r_into_rtranclp)
  show ?thesis
    using suspended_fiber_is_pinned [OF inv on st _ e2 run, of "None :: unit option"] e1 e2 e3 e4 by blast
qed

section \<open>The counters\<close>

text \<open>The number of objects is the counter, and ids of existing fibers are distinct and below
  the next id.\<close>

definition count_inv :: "'cb fglobal \<Rightarrow> bool" where
  "count_inv g \<longleftrightarrow> finite (fb_live g) \<and> s_fiber_count g = of_nat (card (fb_live g))
     \<and> inj_on (\<lambda>a. f_id (fb g a)) (fb_live g)
     \<and> (\<forall>a\<in>fb_live g. f_id (fb g a) < s_fiber_id g)"

lemma next_id: "n \<noteq> -1 \<Longrightarrow> n < n + (1 :: u64)"
proof -
  assume "n \<noteq> -1"
  then have "1 + n \<noteq> 0" by (metis add.commute add_eq_0_iff2)
  then show ?thesis by (simp add: word_less_nat_alt unatSuc add.commute [of n 1])
qed

lemma count_inv_new:
  assumes "count_inv g" and "a \<notin> fb_live g" and "s_fiber_id g \<noteq> -1" and "f_id f = s_fiber_id g"
  shows "count_inv (g\<lparr>fb := (fb g)(a := f), fb_live := insert a (fb_live g),
           s_fiber_id := s_fiber_id g + 1, s_fiber_count := s_fiber_count g + 1\<rparr>)"
proof -
  let ?h = "(fb g)(a := f)"
  have lt: "s_fiber_id g < s_fiber_id g + 1" using assms(3) by (rule next_id)
  have old: "f_id (fb g b) < s_fiber_id g" if "b \<in> fb_live g" for b
    using that assms(1) by (simp add: count_inv_def)
  have "f_id (?h b) < s_fiber_id g + 1" if "b \<in> insert a (fb_live g)" for b
    using that old [of b] lt assms(4) by (cases "b = a") (simp_all add: order.strict_trans [OF _ lt])
  moreover have "inj_on (\<lambda>b. f_id (?h b)) (insert a (fb_live g))"
  proof -
    have eq: "f_id (?h b) = f_id (fb g b)" if "b \<in> fb_live g" for b
      using that assms(2) by (cases "b = a") auto
    have "inj_on (\<lambda>b. f_id (?h b)) (fb_live g)"
      using assms(1) inj_on_cong [of "fb_live g" "\<lambda>b. f_id (?h b)" "\<lambda>b. f_id (fb g b)"] eq
      by (simp add: count_inv_def)
    moreover have "f_id (?h a) \<notin> (\<lambda>b. f_id (?h b)) ` fb_live g"
      using old eq assms(4) by (metis (no_types, lifting) fun_upd_same imageE less_irrefl)
    ultimately show ?thesis using assms(2) by simp
  qed
  ultimately show ?thesis
    using assms(1,2) by (simp add: count_inv_def)
qed

lemma count_inv_cong:
  assumes "fb_live g' = fb_live g" and "s_fiber_id g' = s_fiber_id g"
    and "s_fiber_count g' = s_fiber_count g" and "\<And>a. f_id (fb g' a) = f_id (fb g a)"
  shows "count_inv g' = count_inv g"
  using assms by (simp add: count_inv_def)

lemma count_inv_set_fiber [simp]:
  "f_id f = f_id (fb g a) \<Longrightarrow> count_inv (set_fiber a f g) = count_inv g"
  by (rule count_inv_cong) auto

lemma upd_state_count [simp]: "count_inv (upd_state a s g) = count_inv g"
  by (simp add: upd_state_def)

lemma swapcontext_count:
  "swapcontext from to (g, l) = Inr e' \<Longrightarrow> count_inv (fst e') = count_inv g"
  by (simp add: swapcontext_def Let_def split: ctx.splits) auto

text \<open>The operations on the objects and the counters, in any order and by any thread.\<close>

inductive count_step :: "'cb fenv \<Rightarrow> 'cb fenv \<Rightarrow> bool" where
  cs_main: "a \<notin> fb_live g \<Longrightarrow> s_fiber_id g \<noteq> -1 \<Longrightarrow> count_step (g, l) (Fiber_ctor_main a (g, l))"
| cs_new: "a \<notin> fb_live g \<Longrightarrow> s_fiber_id g \<noteq> -1 \<Longrightarrow>
     count_step (g, l) (Fiber_ctor cb sz uc dflt stk a g, l)"
| cs_dtor: "a \<in> fb_live (fst e) \<Longrightarrow> Fiber_dtor a e = Inr e' \<Longrightarrow> count_step e e'"
| cs_reset: "Fiber_reset a cb g = Inr g' \<Longrightarrow> count_step (g, l) (g', l)"
| cs_in: "swapIn a e = Inr e' \<Longrightarrow> count_step e e'"
| cs_out: "swapOut a e = Inr e' \<Longrightarrow> count_step e e'"
| cs_call: "fiber_call a e = Inr e' \<Longrightarrow> count_step e e'"
| cs_back: "fiber_back a e = Inr e' \<Longrightarrow> count_step e e'"
| cs_thread: "count_step (g, l) (g, l')"

lemma Fiber_dtor_count:
  assumes "count_inv g" and "a \<in> fb_live g" and "Fiber_dtor a (g, l) = Inr e'"
  shows "count_inv (fst e')"
proof -
  have fin: "finite (fb_live g)" using assms(1) by (simp add: count_inv_def)
  have "fst e' = g\<lparr>s_fiber_count := s_fiber_count g - 1, fb_live := fb_live g - {a}\<rparr>"
    using assms(3) by (auto simp: Fiber_dtor_def Let_def split: if_splits)
  moreover have "card (fb_live g) = Suc (card (fb_live g - {a}))"
    using card_Suc_Diff1 [OF fin assms(2)] by simp
  moreover have "inj_on (\<lambda>b. f_id (fb g b)) (fb_live g - {a})"
    using assms(1) unfolding count_inv_def by (blast intro: inj_on_subset)
  ultimately show ?thesis
    using assms(1) unfolding count_inv_def by auto
qed

lemma count_step_inv: "count_step e e' \<Longrightarrow> count_inv (fst e) \<Longrightarrow> count_inv (fst e')"
proof (induction rule: count_step.induct)
  case (cs_main a g l)
  then show ?case by (simp add: Fiber_ctor_main_def Let_def count_inv_new)
next
  case (cs_new a g cb sz uc dflt stk l)
  then show ?case by (simp add: Fiber_ctor_def Let_def count_inv_new)
next
  case (cs_dtor a e e')
  then show ?case by (cases e) (auto intro: Fiber_dtor_count)
next
  case (cs_reset a cb g g' l)
  then show ?case
    by (auto dest!: Fiber_reset_result(1))
next
  case (cs_in a e e')
  then show ?case
    by (cases e) (auto simp: swapIn_def Let_def split: if_splits option.splits
        dest!: swapcontext_count)
next
  case (cs_out a e e')
  then show ?case
    by (cases e) (auto simp: swapOut_def Let_def split: option.splits dest!: swapcontext_count)
next
  case (cs_call a e e')
  then show ?case
    by (cases e) (auto simp: fiber_call_def Let_def split: option.splits dest!: swapcontext_count)
next
  case (cs_back a e e')
  then show ?case
    by (cases e) (auto simp: fiber_back_def Let_def split: option.splits dest!: swapcontext_count)
qed simp

text \<open>However threads create, destroy, reset and switch fibers, \<open>TotalFibers\<close> is the number of
  existing fiber objects (mod \<open>2^64\<close>) and no two existing fibers share an id, as long as
  fewer than \<open>2^64 - 1\<close> fibers were ever created.\<close>

theorem total_fibers_counts:
  assumes "count_step\<^sup>*\<^sup>* (no_fibers, l0) (g, l)"
  shows "TotalFibers g = of_nat (card (fb_live g))
    \<and> inj_on (\<lambda>a. f_id (fb g a)) (fb_live g)"
proof -
  have "count_inv (fst (no_fibers :: 'a fglobal, l0))" by (simp add: count_inv_def no_fibers_def)
  with assms have "count_inv (fst (g, l))"
    by (induction rule: rtranclp_induct) (auto intro: count_step_inv)
  then show ?thesis by (simp add: count_inv_def TotalFibers_def)
qed

theorem total_fibers_counts_witness:
  "TotalFibers (Fiber_ctor (Some ()) 0 False 1048576 (Some 64) 2 no_fibers) = 1"
proof -
  let ?l = "\<lparr>t_fiber = None, t_threadFiber = None, t_scheduler_fiber = None, t_running = Native\<rparr>"
  have "count_step\<^sup>*\<^sup>* (no_fibers, ?l) (Fiber_ctor (Some ()) 0 False 1048576 (Some 64) 2 no_fibers, ?l)"
    by (rule r_into_rtranclp) (rule cs_new; simp add: no_fibers_def)
  from total_fibers_counts [OF this] show ?thesis by (simp add: Fiber_ctor_def no_fibers_def)
qed


end
