(* ===== verification/Scheduler.thy ===== *)
theory Scheduler
  imports Fiber
begin

text \<open>
  The scheduler (\<open>scheduler.h\<close>, \<open>scheduler.cc\<close>): the queue of tasks, the operations on
  it, construction and shutdown, and the loop \<open>run()\<close> that every worker thread executes.
  The loop is a step function on an explicit program counter per worker, cut where
  another thread can observe the difference (the critical section, the state changes of a
  fiber, the switches, the counter updates), so that a run of the system is any
  interleaving of the workers' steps.  The theory \<open>Scheduler_System\<close> has the lemmas.
\<close>

section \<open>Data\<close>

text \<open>\<open>Scheduler::FiberAndThread\<close>.\<close>

record 'cb task =
  ft_fiber :: "addr option"
  ft_cb :: "'cb option"
  ft_thread :: int

text \<open>The members of \<open>Scheduler\<close>.  \<open>m_tickles\<close> is no member: it counts the calls of the
  virtual function \<open>tickle()\<close>, whose base version only logs.\<close>

record 'cb scheduler =
  m_fibers :: "'cb task list"
  m_rootFiber :: "addr option"
  m_name :: string
  m_threads :: "tid list"
  m_threadIds :: "int list"
  m_threadCount :: u64
  m_activeThreadCount :: u64
  m_idleThreadCount :: u64
  m_stopping :: bool
  m_autoStop :: bool
  m_rootThread :: int
  m_tickles :: nat

section \<open>Tasks\<close>

definition fiber_task :: "addr option \<Rightarrow> int \<Rightarrow> 'cb task" where
  "fiber_task f thr = \<lparr>ft_fiber = f, ft_cb = None, ft_thread = thr\<rparr>"

definition cb_task :: "'cb option \<Rightarrow> int \<Rightarrow> 'cb task" where
  "cb_task c thr = \<lparr>ft_fiber = None, ft_cb = c, ft_thread = thr\<rparr>"

definition empty_task :: "'cb task" where
  "empty_task = \<lparr>ft_fiber = None, ft_cb = None, ft_thread = -1\<rparr>"

text \<open>The test \<open>ft.fiber || ft.cb\<close>.\<close>

definition nonempty :: "'cb task \<Rightarrow> bool" where
  "nonempty t \<longleftrightarrow> ft_fiber t \<noteq> None \<or> ft_cb t \<noteq> None"

section \<open>The queue\<close>

definition scheduleNoLock :: "'cb task \<Rightarrow> 'cb scheduler \<Rightarrow> bool \<times> 'cb scheduler" where
  "scheduleNoLock ft s =
     (let need_tickle = (m_fibers s = [])
      in (need_tickle, if nonempty ft then s\<lparr>m_fibers := m_fibers s @ [ft]\<rparr> else s))"

text \<open>\<open>Scheduler::tickle()\<close>.\<close>

definition tickle :: "'cb scheduler \<Rightarrow> 'cb scheduler" where
  "tickle s = s\<lparr>m_tickles := Suc (m_tickles s)\<rparr>"

definition schedule :: "'cb task \<Rightarrow> 'cb scheduler \<Rightarrow> 'cb scheduler" where
  "schedule ft s =
     (case scheduleNoLock ft s of (need_tickle, s1) \<Rightarrow> if need_tickle then tickle s1 else s1)"

text \<open>
  \<open>schedule(begin, end)\<close> on a range of fiber pointers or of callbacks.  Each element is
  passed by address and swapped out of the range, so the range ends up all null; \<open>mk\<close> is
  the task constructor for the range's element type, and the result carries the range.
\<close>

fun schedule_loop ::
  "('x option \<Rightarrow> int \<Rightarrow> 'cb task) \<Rightarrow> 'x option list \<Rightarrow> bool \<Rightarrow> 'cb scheduler
    \<Rightarrow> bool \<times> 'x option list \<times> 'cb scheduler" where
  "schedule_loop mk [] need_tickle s = (need_tickle, [], s)"
| "schedule_loop mk (x # xs) need_tickle s =
     (case scheduleNoLock (mk x (-1)) s of
        (b, s1) \<Rightarrow>
          (case schedule_loop mk xs (b \<or> need_tickle) s1 of
             (n, ys, s2) \<Rightarrow> (n, None # ys, s2)))"

definition schedule_range ::
  "('x option \<Rightarrow> int \<Rightarrow> 'cb task) \<Rightarrow> 'x option list \<Rightarrow> 'cb scheduler
    \<Rightarrow> 'x option list \<times> 'cb scheduler" where
  "schedule_range mk xs s =
     (case schedule_loop mk xs False s of
        (need_tickle, ys, s1) \<Rightarrow> (ys, if need_tickle then tickle s1 else s1))"

definition hasIdleThreads :: "'cb scheduler \<Rightarrow> bool" where
  "hasIdleThreads s \<longleftrightarrow> m_idleThreadCount s > 0"

definition stopping :: "'cb scheduler \<Rightarrow> bool" where
  "stopping s \<longleftrightarrow> m_autoStop s \<and> m_stopping s \<and> m_fibers s = [] \<and> m_activeThreadCount s = 0"

text \<open>
  The search of \<open>run()\<close> under the lock: the first task that is not pinned to another
  thread and whose fiber is not executing is taken out of the queue; \<open>st\<close> is the state of
  each fiber, \<open>tk\<close> is \<open>tickle_me\<close>.
\<close>

fun pick ::
  "tid \<Rightarrow> (addr \<Rightarrow> fiber_state) \<Rightarrow> 'cb task list \<Rightarrow> bool
    \<Rightarrow> ('cb task option \<times> 'cb task list \<times> bool) res" where
  "pick me st [] tk = Inr (None, [], tk)"
| "pick me st (t # ts) tk =
     (if ft_thread t \<noteq> -1 \<and> ft_thread t \<noteq> me then
        res_bind (pick me st ts True) (\<lambda>(r, rest, tk'). Inr (r, t # rest, tk'))
      else if \<not> nonempty t then Inl (Abort ''it->fiber || it->cb'')
      else if (case ft_fiber t of Some f \<Rightarrow> st f = EXEC | None \<Rightarrow> False) then
        res_bind (pick me st ts tk) (\<lambda>(r, rest, tk'). Inr (r, t # rest, tk'))
      else Inr (Some t, ts, tk))"

text \<open>The whole critical section of the loop: the task (empty if none) and \<open>tickle_me\<close>.\<close>

definition fetch ::
  "tid \<Rightarrow> (addr \<Rightarrow> fiber_state) \<Rightarrow> 'cb scheduler \<Rightarrow> ('cb task \<times> bool \<times> 'cb scheduler) res" where
  "fetch me st s =
     res_bind (pick me st (m_fibers s) False)
       (\<lambda>(r, rest, tk).
          let s1 = s\<lparr>m_fibers := rest\<rparr>;
              s2 = (if r \<noteq> None then s1\<lparr>m_activeThreadCount := m_activeThreadCount s1 + 1\<rparr> else s1)
          in Inr (case r of Some t \<Rightarrow> t | None \<Rightarrow> empty_task, tk \<or> rest \<noteq> [], s2))"

section \<open>Construction and shutdown\<close>

text \<open>\<open>Scheduler::Scheduler\<close>; \<open>this\<close> is its address, \<open>tsched\<close> the thread-local
  \<open>t_scheduler\<close>, \<open>run_cb\<close> stands for \<open>bind(&Scheduler::run, this)\<close>, \<open>me\<close> is the thread,
  \<open>a\<close>, \<open>b\<close> and \<open>stk\<close> are the addresses of the objects it may allocate.\<close>

definition Scheduler_ctor ::
  "addr \<Rightarrow> u64 \<Rightarrow> bool \<Rightarrow> string \<Rightarrow> tid \<Rightarrow> 'cb \<Rightarrow> u32 \<Rightarrow> addr \<Rightarrow> addr \<Rightarrow> addr option
    \<Rightarrow> addr option \<Rightarrow> 'cb fenv \<Rightarrow> ('cb scheduler \<times> addr option \<times> 'cb fenv) res" where
  "Scheduler_ctor this threads use_caller name me run_cb dflt a b stk tsched e =
     (let s0 = \<lparr>m_fibers = [], m_rootFiber = None, m_name = name, m_threads = [],
                m_threadIds = [], m_threadCount = 0, m_activeThreadCount = 0,
                m_idleThreadCount = 0, m_stopping = True, m_autoStop = False,
                m_rootThread = 0, m_tickles = 0\<rparr>
      in if threads = 0 then Inl (Abort ''threads > 0'')
         else if use_caller then
           (case GetThis a e of (_, (g, l)) \<Rightarrow>
              if tsched \<noteq> None then Inl (Abort ''GetThis() == nullptr'')
              else
                let g1 = Fiber_ctor (Some run_cb) 0 True dflt stk b g;
                    l1 = l\<lparr>t_scheduler_fiber := Some b\<rparr>
                in Inr (s0\<lparr>m_rootFiber := Some b, m_rootThread := me, m_threadIds := [me],
                          m_threadCount := threads - 1\<rparr>, Some this, (g1, l1)))
         else Inr (s0\<lparr>m_rootThread := -1, m_threadCount := threads\<rparr>, tsched, e))"

text \<open>\<open>Scheduler::~Scheduler\<close>: the new \<open>t_scheduler\<close>.\<close>

definition Scheduler_dtor :: "addr \<Rightarrow> 'cb scheduler \<Rightarrow> addr option \<Rightarrow> addr option res" where
  "Scheduler_dtor this s tsched =
     (if \<not> m_stopping s then Inl (Abort ''m_stopping'')
      else Inr (if tsched = Some this then None else tsched))"

text \<open>\<open>Scheduler::start()\<close>; \<open>ids\<close> are the thread ids of the threads it creates.\<close>

definition start :: "tid list \<Rightarrow> 'cb scheduler \<Rightarrow> 'cb scheduler res" where
  "start ids s =
     (if \<not> m_stopping s then Inr s
      else if m_threads s \<noteq> [] then Inl (Abort ''m_threads.empty()'')
      else
        let new_ids = take (unat (m_threadCount s)) ids
        in Inr (s\<lparr>m_stopping := False, m_threads := new_ids,
                  m_threadIds := m_threadIds s @ new_ids\<rparr>))"

text \<open>How \<open>stop()\<close> goes on after its first part: it returns, or joins the worker threads,
  running the root fiber first when there is work left for it.\<close>

datatype stop_next = Stop_return | Stop_join | Stop_call addr

text \<open>\<open>Scheduler::stop()\<close> up to the join; \<open>st\<close> is the state of each fiber, \<open>tsched\<close> the
  thread-local \<open>t_scheduler\<close>.\<close>

definition stop_begin ::
  "addr \<Rightarrow> (addr \<Rightarrow> fiber_state) \<Rightarrow> addr option \<Rightarrow> 'cb scheduler
    \<Rightarrow> (stop_next \<times> 'cb scheduler) res" where
  "stop_begin this st tsched s =
     (let s1 = s\<lparr>m_autoStop := True\<rparr>;
          idle_root = (case m_rootFiber s1 of
                         None \<Rightarrow> False
                       | Some r \<Rightarrow> m_threadCount s1 = 0 \<and> (st r = FTERM \<or> st r = INIT));
          s2 = (if idle_root then s1\<lparr>m_stopping := True\<rparr> else s1)
      in if idle_root \<and> stopping s2 then Inr (Stop_return, s2)
         else if m_rootThread s2 \<noteq> -1 \<and> tsched \<noteq> Some this then
           Inl (Abort ''GetThis() == this'')
         else if m_rootThread s2 = -1 \<and> tsched = Some this then
           Inl (Abort ''GetThis() != this'')
         else
           let s3 = s2\<lparr>m_stopping := True\<rparr>;
               s4 = (tickle ^^ unat (m_threadCount s3)) s3;
               s5 = (if m_rootFiber s4 \<noteq> None then tickle s4 else s4)
           in Inr (case m_rootFiber s5 of
                     Some r \<Rightarrow> if \<not> stopping s5 then Stop_call r else Stop_join
                   | None \<Rightarrow> Stop_join, s5))"

text \<open>The end of \<open>stop()\<close>: the threads it joins.\<close>

definition stop_end :: "'cb scheduler \<Rightarrow> tid list \<times> 'cb scheduler" where
  "stop_end s = (m_threads s, s\<lparr>m_threads := []\<rparr>)"

section \<open>The loop of a worker\<close>

text \<open>What the worker switched to: a fiber of the queue, its callback fiber, its idle fiber.\<close>

datatype kind = Task_fiber | Task_cb | Idle_fiber

text \<open>
  Where a worker is in \<open>run()\<close>: about to lock the queue; unlocked, with the task and
  \<open>tickle_me\<close>; about to look at the task; inside \<open>swapIn\<close>, the fiber running; inside it,
  the fiber having set its state and about to switch back (for good or not); just after
  \<open>swapIn\<close>; after \<open>--m_activeThreadCount\<close>; or it left the loop.
\<close>

datatype 'cb pc =
    Fetch
  | Unlocked "'cb task" bool
  | Dispatch "'cb task"
  | Running kind addr
  | Leaving kind addr bool
  | After kind addr
  | Counted kind addr
  | Exited

record 'cb worker =
  w_pc :: "'cb pc"
  w_l :: tlocal
  w_idle :: addr
  w_cb :: "addr option"

text \<open>The system: the scheduler, the fibers, the workers by thread id, and how many times a
  taken task was dropped without \<open>--m_activeThreadCount\<close> (no member of the code).\<close>

record 'cb sys =
  y_s :: "'cb scheduler"
  y_g :: "'cb fglobal"
  y_w :: "tid \<Rightarrow> 'cb worker"
  y_ids :: "tid set"
  y_leaked :: nat

definition set_worker :: "tid \<Rightarrow> 'cb worker \<Rightarrow> 'cb sys \<Rightarrow> 'cb sys" where
  "set_worker t w y = y\<lparr>y_w := (y_w y)(t := w)\<rparr>"

definition goto :: "tid \<Rightarrow> 'cb pc \<Rightarrow> 'cb sys \<Rightarrow> 'cb sys" where
  "goto t p y = set_worker t ((y_w y t)\<lparr>w_pc := p\<rparr>) y"

text \<open>A fiber operation on thread \<open>t\<close>.\<close>

definition on_fibers :: "tid \<Rightarrow> ('cb fenv \<Rightarrow> 'cb fenv res) \<Rightarrow> 'cb sys \<Rightarrow> 'cb sys res" where
  "on_fibers t f y =
     res_bind (f (y_g y, w_l (y_w y t)))
       (\<lambda>(g, l). Inr (set_worker t ((y_w y t)\<lparr>w_l := l\<rparr>) (y\<lparr>y_g := g\<rparr>)))"

definition fiber_states :: "'cb fglobal \<Rightarrow> addr \<Rightarrow> fiber_state" where
  "fiber_states g a = f_state (fb g a)"

definition alive :: "fiber_state \<Rightarrow> bool" where
  "alive s \<longleftrightarrow> s \<noteq> FTERM \<and> s \<noteq> EXCEPT"

text \<open>\<open>run()\<close> before the loop: \<open>root\<close> is the main fiber \<open>Fiber::GetThis()\<close> may create, \<open>idl\<close>
  the idle fiber, \<open>idle_cb\<close> stands for \<open>bind(&Scheduler::idle, this)\<close>.\<close>

definition run_begin ::
  "tid \<Rightarrow> addr \<Rightarrow> addr \<Rightarrow> addr option \<Rightarrow> u32 \<Rightarrow> 'cb \<Rightarrow> 'cb sys \<Rightarrow> 'cb sys" where
  "run_begin t root idl stk dflt idle_cb y =
     (let e = (y_g y, w_l (y_w y t));
          (g, l) = (if t \<noteq> m_rootThread (y_s y) then
                      (case GetThis root e of (f, (g, l)) \<Rightarrow> (g, l\<lparr>t_scheduler_fiber := Some f\<rparr>))
                    else e);
          g1 = Fiber_ctor (Some idle_cb) 0 False dflt stk idl g
      in y\<lparr>y_g := g1, y_ids := insert t (y_ids y),
           y_w := (y_w y)(t := \<lparr>w_pc = Fetch, w_l = l, w_idle = idl, w_cb = None\<rparr>)\<rparr>)"

text \<open>The branch of the loop that runs the idle fiber.\<close>

definition dispatch_idle :: "tid \<Rightarrow> 'cb sys \<Rightarrow> 'cb sys res" where
  "dispatch_idle t y =
     (let w = y_w y t
      in if f_state (fb (y_g y) (w_idle w)) = FTERM then Inr (goto t Exited y)
         else
           let y1 = y\<lparr>y_s := (y_s y)\<lparr>m_idleThreadCount := m_idleThreadCount (y_s y) + 1\<rparr>\<rparr>
           in res_bind (on_fibers t (swapIn (w_idle w)) y1)
                (\<lambda>y2. Inr (goto t (Running Idle_fiber (w_idle w)) y2)))"

text \<open>The branch that runs a callback on the worker's callback fiber; \<open>b\<close> and \<open>stk\<close> are the
  addresses used if that fiber has to be created.\<close>

definition dispatch_cb ::
  "tid \<Rightarrow> addr \<Rightarrow> addr option \<Rightarrow> u32 \<Rightarrow> 'cb \<Rightarrow> 'cb sys \<Rightarrow> 'cb sys res" where
  "dispatch_cb t b stk dflt c y =
     (let w = y_w y t;
          made = (case w_cb w of
                    Some f \<Rightarrow> res_bind (Fiber_reset f (Some c) (y_g y)) (\<lambda>g. Inr (f, g))
                  | None \<Rightarrow> Inr (b, Fiber_ctor (Some c) 0 False dflt stk b (y_g y)))
      in res_bind made
           (\<lambda>(f, g). res_bind
              (on_fibers t (swapIn f) (set_worker t (w\<lparr>w_cb := Some f\<rparr>) (y\<lparr>y_g := g\<rparr>)))
              (\<lambda>y1. Inr (goto t (Running Task_cb f) y1))))"

definition dispatch ::
  "tid \<Rightarrow> addr \<Rightarrow> addr option \<Rightarrow> u32 \<Rightarrow> 'cb task \<Rightarrow> 'cb sys \<Rightarrow> 'cb sys res" where
  "dispatch t b stk dflt ft y =
     (case ft_fiber ft of
        Some f \<Rightarrow>
          if alive (f_state (fb (y_g y) f)) then
            res_bind (on_fibers t (swapIn f) y) (\<lambda>y1. Inr (goto t (Running Task_fiber f) y1))
          else (case ft_cb ft of
                  Some c \<Rightarrow> dispatch_cb t b stk dflt c y
                | None \<Rightarrow> dispatch_idle t (y\<lparr>y_leaked := Suc (y_leaked y)\<rparr>))
      | None \<Rightarrow> (case ft_cb ft of
                   Some c \<Rightarrow> dispatch_cb t b stk dflt c y
                 | None \<Rightarrow> dispatch_idle t y))"

text \<open>After \<open>--m_activeThreadCount\<close>, a fiber of the queue.\<close>

definition after_fiber :: "tid \<Rightarrow> addr \<Rightarrow> 'cb sys \<Rightarrow> 'cb sys res" where
  "after_fiber t f y =
     (let st = f_state (fb (y_g y) f)
      in if st = READY then
           Inr (goto t Fetch (y\<lparr>y_s := schedule (fiber_task (Some f) (-1)) (y_s y)\<rparr>))
         else if alive st then Inr (goto t Fetch (y\<lparr>y_g := upd_state f HOLD (y_g y)\<rparr>))
         else Inr (goto t Fetch y))"

text \<open>After \<open>--m_activeThreadCount\<close>, the callback fiber: it is kept for the next callback if
  it ended, and handed over to the queue or to whoever resumes it if it yielded.\<close>

definition after_cb :: "tid \<Rightarrow> addr \<Rightarrow> 'cb sys \<Rightarrow> 'cb sys res" where
  "after_cb t f y =
     (let st = f_state (fb (y_g y) f); w = (y_w y t)\<lparr>w_pc := Fetch\<rparr>
      in if st = READY then
           Inr (set_worker t (w\<lparr>w_cb := None\<rparr>)
                  (y\<lparr>y_s := schedule (fiber_task (Some f) (-1)) (y_s y)\<rparr>))
         else if \<not> alive st then
           res_bind (Fiber_reset f None (y_g y)) (\<lambda>g. Inr (set_worker t w (y\<lparr>y_g := g\<rparr>)))
         else Inr (set_worker t (w\<lparr>w_cb := None\<rparr>) (y\<lparr>y_g := upd_state f HOLD (y_g y)\<rparr>)))"

definition after_idle :: "tid \<Rightarrow> addr \<Rightarrow> 'cb sys \<Rightarrow> 'cb sys" where
  "after_idle t f y =
     (let g = (if alive (f_state (fb (y_g y) f)) then upd_state f HOLD (y_g y) else y_g y);
          s = (y_s y)\<lparr>m_idleThreadCount := m_idleThreadCount (y_s y) - 1\<rparr>
      in goto t Fetch (y\<lparr>y_g := g, y_s := s\<rparr>))"

text \<open>One step of the loop on worker \<open>t\<close>; while a fiber runs, the loop itself has no step.\<close>

definition run_step :: "tid \<Rightarrow> addr \<Rightarrow> addr option \<Rightarrow> u32 \<Rightarrow> 'cb sys \<Rightarrow> 'cb sys res" where
  "run_step t b stk dflt y =
     (case w_pc (y_w y t) of
        Fetch \<Rightarrow>
          res_bind (fetch t (fiber_states (y_g y)) (y_s y))
            (\<lambda>(ft, tk, s). Inr (goto t (Unlocked ft tk) (y\<lparr>y_s := s\<rparr>)))
      | Unlocked ft tk \<Rightarrow>
          Inr (goto t (Dispatch ft) (if tk then y\<lparr>y_s := tickle (y_s y)\<rparr> else y))
      | Dispatch ft \<Rightarrow> dispatch t b stk dflt ft y
      | After k f \<Rightarrow>
          (case k of
             Idle_fiber \<Rightarrow> Inr (after_idle t f y)
           | _ \<Rightarrow> Inr (goto t (Counted k f)
                    (y\<lparr>y_s := (y_s y)\<lparr>m_activeThreadCount := m_activeThreadCount (y_s y) - 1\<rparr>\<rparr>)))
      | Counted k f \<Rightarrow>
          (case k of
             Task_fiber \<Rightarrow> after_fiber t f y
           | Task_cb \<Rightarrow> after_cb t f y
           | Idle_fiber \<Rightarrow> Inr y)
      | _ \<Rightarrow> Inr y)"

section \<open>What the running fiber does\<close>

text \<open>The fiber sets its state, in \<open>YieldToReady\<close> or \<open>YieldToHold\<close>, or at the end of
  \<open>MainFunc\<close>; then it switches back to its worker's loop.\<close>

definition yield_mark :: "tid \<Rightarrow> kind \<Rightarrow> addr \<Rightarrow> fiber_state \<Rightarrow> 'cb sys \<Rightarrow> 'cb sys" where
  "yield_mark t k f st y = goto t (Leaving k f False) (y\<lparr>y_g := upd_state f st (y_g y)\<rparr>)"

definition end_mark :: "tid \<Rightarrow> kind \<Rightarrow> addr \<Rightarrow> bool \<Rightarrow> 'cb sys \<Rightarrow> 'cb sys" where
  "end_mark t k f raised y =
     goto t (Leaving k f True) (y\<lparr>y_g := set_fiber f (main_exit raised (fb (y_g y) f)) (y_g y)\<rparr>)"

definition leave :: "tid \<Rightarrow> kind \<Rightarrow> addr \<Rightarrow> bool \<Rightarrow> 'cb sys \<Rightarrow> 'cb sys res" where
  "leave t k f final y =
     res_bind (on_fibers t (\<lambda>e. res_bind (swapOut f e)
                 (\<lambda>e1. Inr (if final then mark_finished f e1 else e1))) y)
       (\<lambda>y1. Inr (goto t (After k f) y1))"

text \<open>\<open>Scheduler::idle()\<close>: one test of its loop.\<close>

definition idle_test :: "tid \<Rightarrow> addr \<Rightarrow> 'cb sys \<Rightarrow> 'cb sys" where
  "idle_test t f y =
     (if \<not> stopping (y_s y) then yield_mark t Idle_fiber f HOLD y
      else end_mark t Idle_fiber f False y)"

text \<open>The steps of the system: the loops of the workers, the fibers they run, and calls of
  \<open>schedule\<close> and of the first part of \<open>stop\<close> by any thread.\<close>

inductive sys_step :: "'cb sys \<Rightarrow> 'cb sys \<Rightarrow> bool" where
  sy_run: "t \<in> y_ids y \<Longrightarrow> run_step t b stk dflt y = Inr y' \<Longrightarrow> sys_step y y'"
| sy_yield: "t \<in> y_ids y \<Longrightarrow> w_pc (y_w y t) = Running k f \<Longrightarrow> k \<noteq> Idle_fiber \<Longrightarrow>
     st \<in> {READY, HOLD} \<Longrightarrow> sys_step y (yield_mark t k f st y)"
| sy_end: "t \<in> y_ids y \<Longrightarrow> w_pc (y_w y t) = Running k f \<Longrightarrow> k \<noteq> Idle_fiber \<Longrightarrow>
     sys_step y (end_mark t k f raised y)"
| sy_idle: "t \<in> y_ids y \<Longrightarrow> w_pc (y_w y t) = Running Idle_fiber f \<Longrightarrow>
     sys_step y (idle_test t f y)"
| sy_leave: "t \<in> y_ids y \<Longrightarrow> w_pc (y_w y t) = Leaving k f final \<Longrightarrow>
     leave t k f final y = Inr y' \<Longrightarrow> sys_step y y'"
| sy_schedule: "sys_step y (y\<lparr>y_s := schedule ft (y_s y)\<rparr>)"
| sy_stop: "stop_begin this (fiber_states (y_g y)) tsched (y_s y) = Inr (n, s) \<Longrightarrow>
     sys_step y (y\<lparr>y_s := s\<rparr>)"
| sy_start: "start ids (y_s y) = Inr s \<Longrightarrow> sys_step y (y\<lparr>y_s := s\<rparr>)"

inductive_cases sys_stepE: "sys_step y y'"

end
