(* ===== verification/Scheduler_System.thy ===== *)
theory Scheduler_System
  imports Scheduler
begin

text \<open>
  The system of workers, fibers and callers of the scheduler: which task a worker takes, what
  the two counters count in every reachable state, when \<open>stopping()\<close> can hold, and the states in
  which a task is run twice or the scheduler never stops.
\<close>

section \<open>Which task a worker takes\<close>

definition eligible :: "tid \<Rightarrow> (addr \<Rightarrow> fiber_state) \<Rightarrow> 'cb task \<Rightarrow> bool" where
  "eligible me st t \<longleftrightarrow> (ft_thread t = -1 \<or> ft_thread t = me)
     \<and> (case ft_fiber t of Some f \<Rightarrow> st f \<noteq> EXEC | None \<Rightarrow> True)"

definition pinned_elsewhere :: "tid \<Rightarrow> 'cb task \<Rightarrow> bool" where
  "pinned_elsewhere me t \<longleftrightarrow> ft_thread t \<noteq> -1 \<and> ft_thread t \<noteq> me"

lemma dropWhile_hd: "dropWhile P xs = y # ys \<Longrightarrow> \<not> P y \<and> y \<in> set xs"
  by (metis dropWhile_eq_Cons_conv in_set_conv_decomp takeWhile_dropWhile_id)

text \<open>\<open>pick\<close> skips the longest prefix of tasks that are not eligible, and takes the task after it.\<close>

lemma pick_eq:
  "\<forall>t\<in>set ts. nonempty t \<Longrightarrow>
   pick me st ts tk = Inr
     (let pre = takeWhile (\<lambda>t. \<not> eligible me st t) ts;
          tk' = (tk \<or> (\<exists>u\<in>set pre. pinned_elsewhere me u))
      in case dropWhile (\<lambda>t. \<not> eligible me st t) ts of
           [] \<Rightarrow> (None, ts, tk')
         | t # post \<Rightarrow> (Some t, pre @ post, tk'))"
proof (induction ts arbitrary: tk)
  case (Cons t ts)
  consider (pin) "pinned_elsewhere me t" "\<not> eligible me st t"
    | (ex) "\<not> pinned_elsewhere me t" "\<not> eligible me st t"
    | (el) "\<not> pinned_elsewhere me t" "eligible me st t"
    by (auto simp: pinned_elsewhere_def eligible_def)
  then show ?case
  proof cases
    case pin
    then show ?thesis using Cons
      by (auto simp: pinned_elsewhere_def Let_def dest: dropWhile_hd split: list.splits)
  next
    case el
    then have "pick me st (t # ts) tk = Inr (Some t, ts, tk)"
      using Cons.prems by (auto simp: pinned_elsewhere_def eligible_def split: option.splits)
    then show ?thesis using el by simp
  next
    case ex
    then obtain f where "ft_fiber t = Some f" "st f = EXEC"
      by (auto simp: pinned_elsewhere_def eligible_def split: option.splits)
    then show ?thesis using Cons ex
      by (auto simp: pinned_elsewhere_def nonempty_def Let_def dest: dropWhile_hd split: list.splits)
  qed
qed simp

lemma pick_result:
  assumes "\<forall>t\<in>set ts. nonempty t"
  shows "(\<forall>t\<in>set ts. \<not> eligible me st t)
           \<and> pick me st ts tk = Inr (None, ts, tk \<or> (\<exists>t\<in>set ts. pinned_elsewhere me t))
       \<or> (\<exists>pre t post. ts = pre @ t # post \<and> (\<forall>u\<in>set pre. \<not> eligible me st u) \<and> eligible me st t
           \<and> pick me st ts tk = Inr (Some t, pre @ post, tk \<or> (\<exists>u\<in>set pre. pinned_elsewhere me u)))"
proof (cases "dropWhile (\<lambda>t. \<not> eligible me st t) ts")
  case Nil
  then have "\<forall>t\<in>set ts. \<not> eligible me st t" by (simp add: dropWhile_eq_Nil_conv)
  then show ?thesis using pick_eq [OF assms, of me st tk] Nil by (simp add: takeWhile_eq_all_conv [THEN iffD2])
next
  case (Cons t post)
  let ?pre = "takeWhile (\<lambda>t. \<not> eligible me st t) ts"
  have "ts = ?pre @ t # post" using takeWhile_dropWhile_id Cons by metis
  moreover have "eligible me st t" "\<forall>u\<in>set ?pre. \<not> eligible me st u"
    using Cons by (auto simp: dropWhile_eq_Cons_conv dest: set_takeWhileD)
  ultimately show ?thesis using pick_eq [OF assms, of me st tk] Cons by (auto simp: Let_def)
qed

lemma nonempty_empty_task [simp]: "\<not> nonempty empty_task"
  by (simp add: nonempty_def empty_task_def)

text \<open>The critical section, in terms of \<open>eligible\<close>.\<close>

lemma fetch_result:
  assumes "\<forall>t\<in>set (m_fibers s). nonempty t"
  shows "(\<forall>t\<in>set (m_fibers s). \<not> eligible me st t) \<and> fetch me st s = Inr (empty_task, m_fibers s \<noteq> [], s)
    \<or> (\<exists>pre t post. m_fibers s = pre @ t # post \<and> (\<forall>u\<in>set pre. \<not> eligible me st u) \<and> eligible me st t
         \<and> fetch me st s = Inr (t, pre @ post \<noteq> [],
             s\<lparr>m_fibers := pre @ post, m_activeThreadCount := m_activeThreadCount s + 1\<rparr>))"
  using pick_result [OF assms, of me st False]
proof (elim disjE exE conjE)
  assume n: "\<forall>t\<in>set (m_fibers s). \<not> eligible me st t" and p:
    "pick me st (m_fibers s) False = Inr (None, m_fibers s, False \<or> (\<exists>t\<in>set (m_fibers s). pinned_elsewhere me t))"
  have "(\<exists>t\<in>set (m_fibers s). pinned_elsewhere me t) \<or> m_fibers s \<noteq> [] \<longleftrightarrow> m_fibers s \<noteq> []" by auto
  with n p show ?thesis by (simp add: fetch_def)
next
  fix pre t post
  assume f: "m_fibers s = pre @ t # post" and e: "\<forall>u\<in>set pre. \<not> eligible me st u" "eligible me st t"
    and p: "pick me st (m_fibers s) False
      = Inr (Some t, pre @ post, False \<or> (\<exists>u\<in>set pre. pinned_elsewhere me u))"
  have "(\<exists>u\<in>set pre. pinned_elsewhere me u) \<or> pre @ post \<noteq> [] \<longleftrightarrow> pre @ post \<noteq> []" by auto
  with e f p show ?thesis
    by (intro disjI2 exI [of _ pre] exI [of _ t] exI [of _ post]) (simp add: fetch_def Let_def)
qed

text \<open>C10: a worker takes the oldest task that is pinned to no other thread and whose fiber is
  not executing, leaves the other tasks in their order, counts the task as active, and asks for
  a wake-up exactly if tasks are left; if no task qualifies it takes none and changes nothing.
  The assertion in the search does not fail.\<close>

theorem fetch_takes_oldest_eligible:
  assumes "\<forall>t\<in>set (m_fibers s). nonempty t"
  shows "case find (eligible me st) (m_fibers s) of
      None \<Rightarrow> fetch me st s = Inr (empty_task, m_fibers s \<noteq> [], s)
    | Some t \<Rightarrow> (\<exists>pre post. m_fibers s = pre @ t # post \<and> (\<forall>u\<in>set pre. \<not> eligible me st u)
         \<and> fetch me st s = Inr (t, pre @ post \<noteq> [],
             s\<lparr>m_fibers := pre @ post, m_activeThreadCount := m_activeThreadCount s + 1\<rparr>))"
  using fetch_result [OF assms, of me st]
proof (elim disjE exE conjE)
  assume "\<forall>t\<in>set (m_fibers s). \<not> eligible me st t"
    and "fetch me st s = Inr (empty_task, m_fibers s \<noteq> [], s)"
  moreover from this have "find (eligible me st) (m_fibers s) = None"
    by (auto simp: find_None_iff)
  ultimately show ?thesis by simp
next
  fix pre t post
  assume *: "m_fibers s = pre @ t # post" "\<forall>u\<in>set pre. \<not> eligible me st u" "eligible me st t"
    "fetch me st s = Inr (t, pre @ post \<noteq> [],
       s\<lparr>m_fibers := pre @ post, m_activeThreadCount := m_activeThreadCount s + 1\<rparr>)"
  then have "find (eligible me st) (m_fibers s) = Some t"
    by (auto simp: find_Some_iff nth_append intro!: exI [of _ "length pre"])
  with * show ?thesis by auto
qed

theorem fetch_takes_oldest_eligible_witness:
  "fetch 7 (\<lambda>f. if f = 1 then EXEC else HOLD)
     \<lparr>m_fibers = [fiber_task (Some 1) (-1), cb_task (Some ()) 8, fiber_task (Some 2) 7, cb_task (Some ()) (-1)],
      m_rootFiber = None, m_name = [], m_threads = [], m_threadIds = [], m_threadCount = 2,
      m_activeThreadCount = 0, m_idleThreadCount = 0, m_stopping = False, m_autoStop = False,
      m_rootThread = -1, m_tickles = 0\<rparr>
   = Inr (fiber_task (Some 2) 7, True,
     \<lparr>m_fibers = [fiber_task (Some 1) (-1), cb_task (Some ()) 8, cb_task (Some ()) (-1)],
      m_rootFiber = None, m_name = [], m_threads = [], m_threadIds = [], m_threadCount = 2,
      m_activeThreadCount = 1, m_idleThreadCount = 0, m_stopping = False, m_autoStop = False,
      m_rootThread = -1, m_tickles = 0\<rparr>)"
  (is "fetch _ ?st ?s = _")
proof -
  have ne: "\<forall>t\<in>set (m_fibers ?s). nonempty t" by (simp add: nonempty_def fiber_task_def cb_task_def)
  have f: "find (eligible 7 ?st) (m_fibers ?s) = Some (fiber_task (Some 2) 7)"
    by (simp add: eligible_def fiber_task_def cb_task_def)
  from fetch_takes_oldest_eligible [OF ne, of 7 ?st, unfolded f] show ?thesis
    by (auto simp: eligible_def fiber_task_def cb_task_def Cons_eq_append_conv)
qed

section \<open>Scheduling\<close>

lemma schedule_fields [simp]:
  "m_activeThreadCount (schedule ft s) = m_activeThreadCount s"
  "m_idleThreadCount (schedule ft s) = m_idleThreadCount s"
  "m_stopping (schedule ft s) = m_stopping s"
  "m_autoStop (schedule ft s) = m_autoStop s"
  "m_fibers (schedule ft s) = (if nonempty ft then m_fibers s @ [ft] else m_fibers s)"
  "m_tickles (schedule ft s) = m_tickles s + of_bool (m_fibers s = [])"
  by (simp_all add: schedule_def scheduleNoLock_def tickle_def)

lemma schedule_loop_result:
  "schedule_loop mk xs b s = (n, ys, s') \<Longrightarrow>
     ys = map (\<lambda>_. None) xs
     \<and> s' = s\<lparr>m_fibers := m_fibers s @ [ft. ft \<leftarrow> map (\<lambda>x. mk x (-1)) xs, nonempty ft]\<rparr>
     \<and> n = (b \<or> m_fibers s = [] \<and> xs \<noteq> [])"
proof (induction xs arbitrary: b s n ys s')
  case Nil
  then show ?case by simp
next
  case (Cons x xs)
  let ?s1 = "if nonempty (mk x (-1)) then s\<lparr>m_fibers := m_fibers s @ [mk x (-1)]\<rparr> else s"
  obtain zs where l: "schedule_loop mk xs (m_fibers s = [] \<or> b) ?s1 = (n, zs, s')" and y: "ys = None # zs"
    using Cons.prems by (auto simp: scheduleNoLock_def Let_def split: prod.splits)
  from Cons.IH [OF l] show ?case using y by auto
qed

text \<open>Scheduling a range appends its non-null elements to the queue in their order, leaves
  every element of the range null (the elements are moved), and wakes a worker exactly if the
  queue was empty and the range was not; nothing else changes.\<close>

theorem schedule_range_spec:
  "schedule_range mk xs s =
     (map (\<lambda>_. None) xs,
      s\<lparr>m_fibers := m_fibers s @ [ft. ft \<leftarrow> map (\<lambda>x. mk x (-1)) xs, nonempty ft],
        m_tickles := m_tickles s + of_bool (m_fibers s = [] \<and> xs \<noteq> [])\<rparr>)"
proof -
  obtain n ys s1 where l: "schedule_loop mk xs False s = (n, ys, s1)" by (metis prod_cases3)
  from schedule_loop_result [OF l] show ?thesis
    by (simp add: schedule_range_def l tickle_def)
qed


section \<open>What the counters count\<close>

text \<open>A worker that has a task of the queue: it took one, runs it, or is back from it and about to
  look at its fiber.  The active counter counts such a worker (\<open>busy\<close>) only up to
  \<open>--m_activeThreadCount\<close>, which comes before the fiber is looked at.\<close>

fun has_task :: "'cb pc \<Rightarrow> bool" where
  "has_task (Unlocked ft _) \<longleftrightarrow> nonempty ft"
| "has_task (Dispatch ft) \<longleftrightarrow> nonempty ft"
| "has_task (Running k _) \<longleftrightarrow> k \<noteq> Idle_fiber"
| "has_task (Leaving k _ _) \<longleftrightarrow> k \<noteq> Idle_fiber"
| "has_task (After k _) \<longleftrightarrow> k \<noteq> Idle_fiber"
| "has_task (Counted k _) \<longleftrightarrow> k \<noteq> Idle_fiber"
| "has_task _ \<longleftrightarrow> False"

fun busy :: "'cb pc \<Rightarrow> bool" where
  "busy (Unlocked ft _) \<longleftrightarrow> nonempty ft"
| "busy (Dispatch ft) \<longleftrightarrow> nonempty ft"
| "busy (Running k _) \<longleftrightarrow> k \<noteq> Idle_fiber"
| "busy (Leaving k _ _) \<longleftrightarrow> k \<noteq> Idle_fiber"
| "busy (After k _) \<longleftrightarrow> k \<noteq> Idle_fiber"
| "busy _ \<longleftrightarrow> False"

fun idling :: "'cb pc \<Rightarrow> bool" where
  "idling (Running k _) \<longleftrightarrow> k = Idle_fiber"
| "idling (Leaving k _ _) \<longleftrightarrow> k = Idle_fiber"
| "idling (After k _) \<longleftrightarrow> k = Idle_fiber"
| "idling _ \<longleftrightarrow> False"

definition workers_at :: "('cb pc \<Rightarrow> bool) \<Rightarrow> 'cb sys \<Rightarrow> nat" where
  "workers_at P y = card {t \<in> y_ids y. P (w_pc (y_w y t))}"

definition sys_inv :: "'cb sys \<Rightarrow> bool" where
  "sys_inv y \<longleftrightarrow> finite (y_ids y)
     \<and> (\<forall>ft\<in>set (m_fibers (y_s y)). nonempty ft)
     \<and> m_activeThreadCount (y_s y) = of_nat (workers_at busy y + y_leaked y)
     \<and> m_idleThreadCount (y_s y) = of_nat (workers_at idling y)"

text \<open>One worker moves.\<close>

lemma workers_at_upd:
  assumes "finite (y_ids y)" and "t \<in> y_ids y" and "y_ids y' = y_ids y"
    and "\<And>u. u \<noteq> t \<Longrightarrow> w_pc (y_w y' u) = w_pc (y_w y u)"
  shows "workers_at P y' + of_bool (P (w_pc (y_w y t)))
    = workers_at P y + of_bool (P (w_pc (y_w y' t)))"
proof -
  let ?I = "{u \<in> y_ids y. u \<noteq> t \<and> P (w_pc (y_w y u))}"
  have s: "{u \<in> y_ids z. P (w_pc (y_w z u))} = (if P (w_pc (y_w z t)) then insert t ?I else ?I)"
    if "y_ids z = y_ids y" "\<And>u. u \<noteq> t \<Longrightarrow> w_pc (y_w z u) = w_pc (y_w y u)" for z :: "'a sys"
  proof (cases "P (w_pc (y_w z t))")
    case True
    then show ?thesis using that assms(2) by (auto simp: insert_iff)
  next
    case False
    then show ?thesis using that by force
  qed
  have "finite ?I" using assms(1) by simp
  then have c: "card (insert t ?I) = Suc (card ?I)" by (subst card_insert_disjoint) auto
  have "workers_at P z = card ?I + of_bool (P (w_pc (y_w z t)))"
    if "y_ids z = y_ids y" "\<And>u. u \<noteq> t \<Longrightarrow> w_pc (y_w z u) = w_pc (y_w y u)" for z :: "'a sys"
  proof -
    have "workers_at P z = card (if P (w_pc (y_w z t)) then insert t ?I else ?I)"
      unfolding workers_at_def by (rule arg_cong [where f = card]) (rule s [OF that])
    then show ?thesis using c by simp
  qed
  from this [of y] this [of y', OF assms(3,4)] show ?thesis by simp
qed

lemma sys_inv_move:
  assumes "sys_inv y" and "t \<in> y_ids y" and "y_ids y' = y_ids y"
    and "\<And>u. u \<noteq> t \<Longrightarrow> w_pc (y_w y' u) = w_pc (y_w y u)"
    and "\<forall>ft\<in>set (m_fibers (y_s y')). nonempty ft"
    and act: "m_activeThreadCount (y_s y') + of_bool (busy (w_pc (y_w y t))) + of_nat (y_leaked y)
      = m_activeThreadCount (y_s y) + of_bool (busy (w_pc (y_w y' t))) + of_nat (y_leaked y')"
    and idl: "m_idleThreadCount (y_s y') + of_bool (idling (w_pc (y_w y t)))
      = m_idleThreadCount (y_s y) + of_bool (idling (w_pc (y_w y' t)))"
  shows "sys_inv y'"
proof -
  have fin: "finite (y_ids y)" using assms(1) by (simp add: sys_inv_def)
  note c = workers_at_upd [OF fin assms(2-4)]
  have ow: "(of_nat (of_bool b) :: u64) = of_bool b" for b by simp
  have "(of_nat (workers_at busy y' + of_bool (busy (w_pc (y_w y t)))) :: u64)
      = of_nat (workers_at busy y + of_bool (busy (w_pc (y_w y' t))))"
    by (rule arg_cong [OF c])
  then have b: "of_nat (workers_at busy y') + of_bool (busy (w_pc (y_w y t)))
      = (of_nat (workers_at busy y) + of_bool (busy (w_pc (y_w y' t))) :: u64)"
    by (simp only: of_nat_add ow)
  have "(of_nat (workers_at idling y' + of_bool (idling (w_pc (y_w y t)))) :: u64)
      = of_nat (workers_at idling y + of_bool (idling (w_pc (y_w y' t))))"
    by (rule arg_cong [OF c])
  then have i: "of_nat (workers_at idling y') + of_bool (idling (w_pc (y_w y t)))
      = (of_nat (workers_at idling y) + of_bool (idling (w_pc (y_w y' t))) :: u64)"
    by (simp only: of_nat_add ow)
  have "m_idleThreadCount (y_s y') + of_bool (idling (w_pc (y_w y t)))
      = of_nat (workers_at idling y') + of_bool (idling (w_pc (y_w y t)))"
    using idl i assms(1) by (simp add: sys_inv_def)
  then have I: "m_idleThreadCount (y_s y') = of_nat (workers_at idling y')" by simp
  have "m_activeThreadCount (y_s y') + (of_bool (busy (w_pc (y_w y t))) + of_nat (y_leaked y))
      = of_nat (workers_at busy y') + of_nat (y_leaked y')
          + (of_bool (busy (w_pc (y_w y t))) + of_nat (y_leaked y))"
    using act b assms(1) by (simp add: sys_inv_def algebra_simps)
  then have "m_activeThreadCount (y_s y') = of_nat (workers_at busy y') + of_nat (y_leaked y')"
    by simp
  with I fin assms(3,5) show ?thesis by (simp add: sys_inv_def)
qed

lemma sys_inv_same_workers:
  assumes "sys_inv y" and "y_ids y' = y_ids y" and "y_w y' = y_w y" and "y_leaked y' = y_leaked y"
    and "\<forall>ft\<in>set (m_fibers (y_s y')). nonempty ft"
    and "m_activeThreadCount (y_s y') = m_activeThreadCount (y_s y)"
    and "m_idleThreadCount (y_s y') = m_idleThreadCount (y_s y)"
  shows "sys_inv y'"
  using assms by (simp add: sys_inv_def workers_at_def)

subsection \<open>The effect of the operations on program counters and counters\<close>

lemma goto_fields [simp]:
  "y_s (goto t p y) = y_s y" "y_g (goto t p y) = y_g y" "y_ids (goto t p y) = y_ids y"
  "y_leaked (goto t p y) = y_leaked y" "w_pc (y_w (goto t p y) t) = p"
  "u \<noteq> t \<Longrightarrow> y_w (goto t p y) u = y_w y u"
  by (simp_all add: goto_def set_worker_def)

lemma set_worker_fields [simp]:
  "y_s (set_worker t w y) = y_s y" "y_g (set_worker t w y) = y_g y"
  "y_ids (set_worker t w y) = y_ids y" "y_leaked (set_worker t w y) = y_leaked y"
  "y_w (set_worker t w y) t = w" "u \<noteq> t \<Longrightarrow> y_w (set_worker t w y) u = y_w y u"
  by (simp_all add: set_worker_def)

lemma on_fibers_fields:
  assumes "on_fibers t f y = Inr y'"
  shows "y_s y' = y_s y" "y_ids y' = y_ids y" "y_leaked y' = y_leaked y"
    "w_pc (y_w y' u) = w_pc (y_w y u)" "u \<noteq> t \<Longrightarrow> y_w y' u = y_w y u"
    "w_cb (y_w y' t) = w_cb (y_w y t)" "w_idle (y_w y' t) = w_idle (y_w y t)"
  using assms by (cases "u = t"; force simp: on_fibers_def set_worker_def split: prod.splits)+

lemma dispatch_idle_result:
  assumes "dispatch_idle t y = Inr y'"
  shows "y_ids y' = y_ids y" "y_leaked y' = y_leaked y"
    "u \<noteq> t \<Longrightarrow> w_pc (y_w y' u) = w_pc (y_w y u)"
    "w_pc (y_w y' t) = Exited \<and> y_s y' = y_s y
     \<or> (\<exists>f. w_pc (y_w y' t) = Running Idle_fiber f)
       \<and> y_s y' = (y_s y)\<lparr>m_idleThreadCount := m_idleThreadCount (y_s y) + 1\<rparr>"
  using assms by (auto simp: dispatch_idle_def Let_def on_fibers_fields split: if_splits
      dest: on_fibers_fields)

lemma dispatch_cb_result:
  assumes "dispatch_cb t b stk dflt c y = Inr y'"
  shows "y_ids y' = y_ids y" "y_leaked y' = y_leaked y" "y_s y' = y_s y"
    "u \<noteq> t \<Longrightarrow> w_pc (y_w y' u) = w_pc (y_w y u)"
    "\<exists>f. w_pc (y_w y' t) = Running Task_cb f"
  using assms by (auto simp: dispatch_cb_def Let_def dest: on_fibers_fields)

lemma busy_simps: "nonempty ft \<longleftrightarrow> ft_fiber ft \<noteq> None \<or> ft_cb ft \<noteq> None"
  by (simp add: nonempty_def)

lemma dispatch_inv:
  assumes inv: "sys_inv y" and t: "t \<in> y_ids y" and pc: "w_pc (y_w y t) = Dispatch ft"
    and d: "dispatch t b stk dflt ft y = Inr y'"
  shows "sys_inv y'"
proof -
  have q: "\<forall>ft\<in>set (m_fibers (y_s y)). nonempty ft" using inv by (simp add: sys_inv_def)
  consider (swap) f y1 where "ft_fiber ft = Some f" "on_fibers t (swapIn f) y = Inr y1"
      "y' = goto t (Running Task_fiber f) y1"
    | (cb) c where "ft_cb ft = Some c" "dispatch_cb t b stk dflt c y = Inr y'"
    | (leak) f where "ft_fiber ft = Some f" "ft_cb ft = None"
      "dispatch_idle t (y\<lparr>y_leaked := Suc (y_leaked y)\<rparr>) = Inr y'"
    | (none) "ft_fiber ft = None" "ft_cb ft = None" "dispatch_idle t y = Inr y'"
    using d by (auto simp: dispatch_def split: option.splits if_splits)
  then show ?thesis
  proof cases
    case swap
    note o = on_fibers_fields [OF swap(2)]
    show ?thesis
      by (rule sys_inv_move [OF inv t])
        (use swap q pc in \<open>simp_all add: o busy_simps\<close>)
  next
    case cb
    note o = dispatch_cb_result [OF cb(2)]
    from o(5) obtain f where f: "w_pc (y_w y' t) = Running Task_cb f" by blast
    show ?thesis
      by (rule sys_inv_move [OF inv t])
        (use cb q pc f in \<open>simp_all add: o busy_simps\<close>)
  next
    case leak
    note o = dispatch_idle_result [OF leak(3)]
    show ?thesis
      by (rule sys_inv_move [OF inv t])
        (use leak q pc o(4) in \<open>auto simp: o(1,2,3) busy_simps\<close>)
  next
    case none
    note o = dispatch_idle_result [OF none(3)]
    show ?thesis
      by (rule sys_inv_move [OF inv t])
        (use none q pc o(4) in \<open>auto simp: o(1,2,3) busy_simps\<close>)
  qed
qed

lemma after_fiber_inv:
  assumes inv: "sys_inv y" and t: "t \<in> y_ids y" and pc: "w_pc (y_w y t) = Counted k f"
    and d: "after_fiber t f y = Inr y'"
  shows "sys_inv y'"
  by (rule sys_inv_move [OF inv t])
    (use d inv pc in \<open>auto simp: after_fiber_def Let_def sys_inv_def nonempty_def fiber_task_def
       split: if_splits\<close>)

lemma after_cb_inv:
  assumes inv: "sys_inv y" and t: "t \<in> y_ids y" and pc: "w_pc (y_w y t) = Counted k f"
    and d: "after_cb t f y = Inr y'"
  shows "sys_inv y'"
  by (rule sys_inv_move [OF inv t])
    (use d inv pc in \<open>auto simp: after_cb_def Let_def sys_inv_def nonempty_def fiber_task_def
       split: if_splits\<close>)

lemma fetch_step_inv:
  assumes inv: "sys_inv y" and t: "t \<in> y_ids y" and d: "run_step t b stk dflt y = Inr y'"
    and Fetch: "w_pc (y_w y t) = Fetch"
  shows "sys_inv y'"
proof -
  have q: "\<forall>ft\<in>set (m_fibers (y_s y)). nonempty ft" using inv by (simp add: sys_inv_def)
  from fetch_result [OF q, of t "fiber_states (y_g y)"] show ?thesis
  proof (elim disjE exE conjE)
    assume "fetch t (fiber_states (y_g y)) (y_s y) = Inr (empty_task, m_fibers (y_s y) \<noteq> [], y_s y)"
    then have "y' = goto t (Unlocked empty_task (m_fibers (y_s y) \<noteq> [])) y"
      using d Fetch by (simp add: run_step_def)
    then show ?thesis
      by (intro sys_inv_move [OF inv t]) (use q Fetch in simp_all)
  next
    fix pre ft post
    assume f: "m_fibers (y_s y) = pre @ ft # post" and
      "fetch t (fiber_states (y_g y)) (y_s y) = Inr (ft, pre @ post \<noteq> [],
         (y_s y)\<lparr>m_fibers := pre @ post, m_activeThreadCount := m_activeThreadCount (y_s y) + 1\<rparr>)"
    then have "y' = goto t (Unlocked ft (pre @ post \<noteq> [])) (y\<lparr>y_s :=
         (y_s y)\<lparr>m_fibers := pre @ post, m_activeThreadCount := m_activeThreadCount (y_s y) + 1\<rparr>\<rparr>)"
      using d Fetch by (simp add: run_step_def)
    moreover have "nonempty ft" using q f by simp
    ultimately show ?thesis
      by (intro sys_inv_move [OF inv t]) (use q f Fetch in auto)
  qed
qed

lemma run_step_inv:
  assumes inv: "sys_inv y" and t: "t \<in> y_ids y" and d: "run_step t b stk dflt y = Inr y'"
  shows "sys_inv y'"
proof -
  have q: "\<forall>ft\<in>set (m_fibers (y_s y)). nonempty ft" using inv by (simp add: sys_inv_def)
  show ?thesis
  proof (cases "w_pc (y_w y t)")
    case Fetch
    with inv t d show ?thesis by (rule fetch_step_inv)
  next
    case (Unlocked ft tk)
    then have "y' = goto t (Dispatch ft) (if tk then y\<lparr>y_s := tickle (y_s y)\<rparr> else y)"
      using d by (simp add: run_step_def)
    then show ?thesis
      by (intro sys_inv_move [OF inv t]) (use q Unlocked in \<open>simp_all add: tickle_def\<close>)
  next
    case (Dispatch ft)
    then show ?thesis using d dispatch_inv [OF inv t] by (simp add: run_step_def)
  next
    case (After k f)
    show ?thesis
      by (rule sys_inv_move [OF inv t])
        (use d q After in \<open>cases k; force simp: run_step_def after_idle_def Let_def\<close>)+
  next
    case (Counted k f)
    then show ?thesis using d after_fiber_inv [OF inv t] after_cb_inv [OF inv t] inv
      by (cases k) (auto simp: run_step_def)
  qed (use d inv in \<open>simp_all add: run_step_def\<close>)
qed

lemma tickle_fields [simp]:
  "m_fibers (tickle s) = m_fibers s" "m_activeThreadCount (tickle s) = m_activeThreadCount s"
  "m_idleThreadCount (tickle s) = m_idleThreadCount s" "m_stopping (tickle s) = m_stopping s"
  "m_autoStop (tickle s) = m_autoStop s" "m_rootFiber (tickle s) = m_rootFiber s"
  "m_threadCount (tickle s) = m_threadCount s" "m_tickles (tickle s) = Suc (m_tickles s)"
  "m_threads (tickle s) = m_threads s" "m_rootThread (tickle s) = m_rootThread s"
  by (simp_all add: tickle_def)

lemma tickle_n: "(tickle ^^ n) s = s\<lparr>m_tickles := m_tickles s + n\<rparr>"
  by (induction n) (simp_all add: tickle_def)

lemma stop_begin_fields:
  assumes "stop_begin this st tsched s = Inr (n, s')"
  shows "m_fibers s' = m_fibers s" "m_activeThreadCount s' = m_activeThreadCount s"
    "m_idleThreadCount s' = m_idleThreadCount s"
  using assms by (auto simp: stop_begin_def Let_def tickle_n split: if_splits)

lemma sys_step_inv: "sys_step y y' \<Longrightarrow> sys_inv y \<Longrightarrow> sys_inv y'"
proof (induction rule: sys_step.induct)
  case (sy_run t y b stk dflt y')
  then show ?case by (blast intro: run_step_inv)
next
  case (sy_yield t y k f st)
  show ?case by (rule sys_inv_move [OF sy_yield(5,1)])
    (use sy_yield in \<open>simp_all add: yield_mark_def sys_inv_def\<close>)
next
  case (sy_end t y k f raised)
  show ?case by (rule sys_inv_move [OF sy_end(4,1)])
    (use sy_end in \<open>simp_all add: end_mark_def sys_inv_def\<close>)
next
  case (sy_idle t y f)
  show ?case by (rule sys_inv_move [OF sy_idle(3,1)])
    (use sy_idle in \<open>simp_all add: idle_test_def yield_mark_def end_mark_def sys_inv_def\<close>)
next
  case (sy_leave t y k f final y')
  then obtain y1 where o: "on_fibers t (\<lambda>e. res_bind (swapOut f e)
      (\<lambda>e1. Inr (if final then mark_finished f e1 else e1))) y = Inr y1" "y' = goto t (After k f) y1"
    by (auto simp: leave_def)
  show ?case by (rule sys_inv_move [OF sy_leave(4,1)])
    (use sy_leave in \<open>simp_all add: o(2) on_fibers_fields [OF o(1)] sys_inv_def\<close>)
next
  case (sy_schedule y ft)
  show ?case by (rule sys_inv_same_workers [OF sy_schedule])
    (use sy_schedule in \<open>auto simp: sys_inv_def\<close>)
next
  case (sy_stop this y tsched n s)
  show ?case by (rule sys_inv_same_workers [OF sy_stop(2)])
    (use sy_stop in \<open>auto simp: sys_inv_def stop_begin_fields\<close>)
next
  case (sy_start ids y s)
  show ?case by (rule sys_inv_same_workers [OF sy_start(2)])
    (use sy_start in \<open>auto simp: sys_inv_def start_def Let_def split: if_splits\<close>)
qed

lemma sys_steps_inv: "sys_step\<^sup>*\<^sup>* y y' \<Longrightarrow> sys_inv y \<Longrightarrow> sys_inv y'"
  by (induction rule: rtranclp_induct) (auto intro: sys_step_inv)


section \<open>Reachable states\<close>

text \<open>A system before its workers took anything: an empty queue, all counters zero, every
  worker at the start of its loop.\<close>

definition fresh_sys :: "'cb sys \<Rightarrow> bool" where
  "fresh_sys y \<longleftrightarrow> finite (y_ids y) \<and> (\<forall>t\<in>y_ids y. w_pc (y_w y t) = Fetch)
     \<and> m_fibers (y_s y) = [] \<and> m_activeThreadCount (y_s y) = 0
     \<and> m_idleThreadCount (y_s y) = 0 \<and> y_leaked y = 0"

lemma fresh_sys_inv: "fresh_sys y \<Longrightarrow> sys_inv y"
proof -
  assume f: "fresh_sys y"
  then have "workers_at busy y = 0" "workers_at idling y = 0"
    by (auto simp: fresh_sys_def workers_at_def card_eq_0_iff)
  with f show "sys_inv y" by (simp add: fresh_sys_def sys_inv_def)
qed

lemma reachable_inv: "fresh_sys y0 \<Longrightarrow> sys_step\<^sup>*\<^sup>* y0 y \<Longrightarrow> sys_inv y"
  by (blast intro: sys_steps_inv fresh_sys_inv)

lemma workers_at_0: "finite (y_ids y) \<Longrightarrow> workers_at P y = 0 \<longleftrightarrow> (\<forall>t\<in>y_ids y. \<not> P (w_pc (y_w y t)))"
  by (auto simp: workers_at_def)

lemma workers_at_le: "finite (y_ids y) \<Longrightarrow> workers_at P y \<le> card (y_ids y)"
  unfolding workers_at_def by (rule card_mono) auto

lemma of_nat_u64_0: "n < 2 ^ 64 \<Longrightarrow> (of_nat n :: u64) = 0 \<longleftrightarrow> n = 0"
  by (auto simp: word_of_nat_eq_0_iff dvd_eq_mod_eq_0)

lemma stopping_inv:
  assumes "sys_inv y" and "y_leaked y + card (y_ids y) < 2 ^ 64" and "stopping (y_s y)"
  shows "m_fibers (y_s y) = []" "y_leaked y = 0" "\<forall>t\<in>y_ids y. \<not> busy (w_pc (y_w y t))"
proof -
  have fin: "finite (y_ids y)" using assms(1) by (simp add: sys_inv_def)
  have "(of_nat (workers_at busy y + y_leaked y) :: u64) = 0"
    using assms(1,3) by (simp add: sys_inv_def stopping_def)
  then have "workers_at busy y + y_leaked y = 0"
    using assms(2) workers_at_le [OF fin, of busy] by (subst (asm) of_nat_u64_0) auto
  then show "y_leaked y = 0" "\<forall>t\<in>y_ids y. \<not> busy (w_pc (y_w y t))"
    using workers_at_0 [OF fin, of busy] by auto
  show "m_fibers (y_s y) = []" using assms(3) by (simp add: stopping_def)
qed

text \<open>
  The virtual function \<open>stopping()\<close>, as the loops that call it see it: any version of it
  may only add conditions to the scheduler's own.
\<close>

locale stop_policy =
  fixes base :: "'x \<Rightarrow> 'cb scheduler"
    and stop :: "'x \<Rightarrow> bool"
  assumes stop_base: "stop x \<Longrightarrow> stopping (base x)"
begin

lemma stop_quiescent:
  assumes "stop x" and "base x = y_s y" and "sys_inv y"
    and "y_leaked y + card (y_ids y) < 2 ^ 64"
  shows "m_fibers (y_s y) = [] \<and> y_leaked y = 0 \<and> (\<forall>t\<in>y_ids y. \<not> busy (w_pc (y_w y t)))"
  using stopping_inv [OF assms(3,4)] stop_base [OF assms(1)] assms(2) by auto

lemma stop_not_leaked:
  assumes "0 < y_leaked y" and "base x = y_s y" and "sys_inv y"
    and "y_leaked y + card (y_ids y) < 2 ^ 64"
  shows "\<not> stop x"
  using stop_quiescent [of x y] assms by auto

end

interpretation sched_stop: stop_policy "\<lambda>s. s" stopping
  by unfold_locales

text \<open>C8: in every state the system can reach, whatever the interleaving of the workers, the
  active counter is the number of workers that took a task and have not yet counted it out (from
  \<open>++m_activeThreadCount\<close> to \<open>--m_activeThreadCount\<close>) plus the number of dropped tasks, and the idle counter is the number of workers running their idle fiber (mod \<open>2^64\<close>).\<close>

theorem counters_count:
  assumes "fresh_sys y0" and "sys_step\<^sup>*\<^sup>* y0 y"
  shows "m_activeThreadCount (y_s y) = of_nat (card {t \<in> y_ids y. busy (w_pc (y_w y t))} + y_leaked y)
    \<and> m_idleThreadCount (y_s y) = of_nat (card {t \<in> y_ids y. idling (w_pc (y_w y t))})"
  using reachable_inv [OF assms] by (simp add: sys_inv_def workers_at_def)

text \<open>The assertion \<open>it->fiber || it->cb\<close> of the search never fails: no reachable queue holds
  an empty task, so the critical section of a worker always completes.\<close>

theorem fetch_never_aborts:
  assumes "fresh_sys y0" and "sys_step\<^sup>*\<^sup>* y0 y"
  shows "\<exists>r. fetch t (fiber_states (y_g y)) (y_s y) = Inr r"
proof -
  have "\<forall>ft\<in>set (m_fibers (y_s y)). nonempty ft"
    using reachable_inv [OF assms] by (simp add: sys_inv_def)
  from fetch_result [OF this, of t "fiber_states (y_g y)"] show ?thesis by blast
qed

lemma has_task_cases: "has_task p \<Longrightarrow> busy p \<or> (\<exists>k f. p = Counted k f \<and> k \<noteq> Idle_fiber)"
  by (cases p) auto

lemma requeues:
  assumes "w_pc (y_w y t) = Counted k f" and "k \<noteq> Idle_fiber" and "f_state (fb (y_g y) f) = READY"
    and "m_fibers (y_s y) = []"
  shows "\<exists>y'. run_step t b stk dflt y = Inr y' \<and> m_fibers (y_s y') = [fiber_task (Some f) (-1)]
    \<and> \<not> stopping (y_s y')"
  using assms
  by (cases k) (auto simp: run_step_def after_fiber_def after_cb_def Let_def stopping_def nonempty_def
      fiber_task_def set_worker_def)

text \<open>C9: When \<open>stopping()\<close> holds in a reachable state, the queue is empty, and a worker that still has a
  task is back from running it and has counted it out already (with fewer than \<open>2^64\<close> workers and
  dropped tasks).  If the fiber of such a worker yielded to be run again (it is \<open>READY\<close>), the
  worker's next step puts it back into the queue, and \<open>stopping()\<close> is false again.\<close>

theorem stopping_means_quiescent:
  assumes "fresh_sys y0" and "sys_step\<^sup>*\<^sup>* y0 y" and "y_leaked y + card (y_ids y) < 2 ^ 64"
    and "stopping (y_s y)"
  shows "m_fibers (y_s y) = []
    \<and> (\<forall>t\<in>y_ids y. has_task (w_pc (y_w y t)) \<longrightarrow>
         (\<exists>k f. w_pc (y_w y t) = Counted k f \<and>
           (f_state (fb (y_g y) f) = READY \<longrightarrow>
             (\<exists>y'. run_step t b stk dflt y = Inr y' \<and> m_fibers (y_s y') = [fiber_task (Some f) (-1)]
                \<and> \<not> stopping (y_s y')))))"
proof -
  have q: "m_fibers (y_s y) = []" "\<forall>t\<in>y_ids y. \<not> busy (w_pc (y_w y t))"
    using sched_stop.stop_quiescent [OF assms(4) refl reachable_inv [OF assms(1,2)] assms(3)] by blast+
  have "\<exists>k f. w_pc (y_w y t) = Counted k f \<and> k \<noteq> Idle_fiber" if "t \<in> y_ids y" "has_task (w_pc (y_w y t))" for t
    using q(2) that has_task_cases by blast
  then show ?thesis using q(1) requeues by blast
qed

subsection \<open>A dropped task\<close>

lemma run_step_leaked:
  assumes "run_step t b stk dflt y = Inr y'"
  shows "y_leaked y \<le> y_leaked y'" "y_ids y' = y_ids y"
proof -
  have "y_leaked y \<le> y_leaked y' \<and> y_ids y' = y_ids y"
  proof (cases "w_pc (y_w y t)")
    case (Dispatch ft)
    then show ?thesis using assms
      by (auto simp: run_step_def dispatch_def dispatch_idle_result dispatch_cb_result on_fibers_fields
          split: option.splits if_splits)
  next
    case (Counted k f)
    then show ?thesis using assms
      by (auto simp: run_step_def after_fiber_def after_cb_def Let_def split: kind.splits if_splits)
  next
    case (After k f)
    then show ?thesis using assms
      by (auto simp: run_step_def after_idle_def Let_def split: kind.splits if_splits)
  qed (use assms in \<open>auto simp: run_step_def split: if_splits\<close>)
  then show "y_leaked y \<le> y_leaked y'" "y_ids y' = y_ids y" by simp_all
qed

lemma sys_step_leaked: "sys_step y y' \<Longrightarrow> y_leaked y \<le> y_leaked y' \<and> y_ids y' = y_ids y"
  by (induction rule: sys_step.induct)
    (auto simp: run_step_leaked yield_mark_def end_mark_def idle_test_def leave_def on_fibers_fields)

lemma sys_steps_leaked: "sys_step\<^sup>*\<^sup>* y y' \<Longrightarrow> y_leaked y \<le> y_leaked y' \<and> y_ids y' = y_ids y"
  by (induction rule: rtranclp_induct) (auto dest: sys_step_leaked)

lemma dispatch_drop_leaks:
  assumes "ft_fiber ft = Some f" and "ft_cb ft = None" and "\<not> alive (f_state (fb (y_g y) f))"
    and "dispatch t b stk dflt ft y = Inr y'"
  shows "y_leaked y' = Suc (y_leaked y)"
  using assms by (auto simp: dispatch_def dispatch_idle_result)

text \<open>C11: A task whose fiber has already ended when a worker gets to it (the fiber was scheduled
  twice, say) is dropped without \<open>--m_activeThreadCount\<close>.  From then on, as long as fewer than
  \<open>2^64\<close> tasks are dropped and workers exist, \<open>stopping()\<close> is false in every state the system can
  reach, so the loop of an idle fiber that looks goes on instead of ending.\<close>

theorem ended_task_blocks_stopping:
  assumes "fresh_sys y0" and "sys_step\<^sup>*\<^sup>* y0 y" and "t \<in> y_ids y"
    and "w_pc (y_w y t) = Dispatch ft" and "ft_fiber ft = Some f" and "ft_cb ft = None"
    and "\<not> alive (f_state (fb (y_g y) f))"
    and "run_step t b stk dflt y = Inr y1" and "sys_step\<^sup>*\<^sup>* y1 y2"
    and "y_leaked y2 + card (y_ids y2) < 2 ^ 64"
  shows "\<not> stopping (y_s y2)
    \<and> (\<forall>u i. w_pc (y_w y2 u) = Running Idle_fiber i \<longrightarrow> idle_test u i y2 = yield_mark u Idle_fiber i HOLD y2)"
proof -
  have d: "dispatch t b stk dflt ft y = Inr y1" using assms(4,8) by (simp add: run_step_def)
  have "sys_step y y1" using assms(3,8) by (rule sy_run)
  then have "sys_inv y2"
    using reachable_inv [OF assms(1,2)] assms(9) sys_step_inv sys_steps_inv by blast
  moreover have "0 < y_leaked y2"
    using dispatch_drop_leaks [OF assms(5-7) d] sys_steps_leaked [OF assms(9)] by simp
  ultimately have "\<not> stopping (y_s y2)" using sched_stop.stop_not_leaked [OF _ refl _ assms(10)] by blast
  then show ?thesis by (simp add: idle_test_def)
qed

text \<open>A small system for the examples: worker 7, with main fiber 0 and idle fiber 1, and two
  more fibers, 2 ready to run and 3 ended.\<close>

definition ex_fiber :: "fiber_state \<Rightarrow> ctx \<Rightarrow> unit fiber" where
  "ex_fiber st c = \<lparr>f_id = 0, f_stacksize = 1024, f_state = st, f_ctx = c, f_stack = Some 9, f_cb = Some ()\<rparr>"

definition ex_sys :: "unit sys" where
  "ex_sys =
     \<lparr>y_s = \<lparr>m_fibers = [], m_rootFiber = None, m_name = ''w'', m_threads = [7], m_threadIds = [7],
             m_threadCount = 1, m_activeThreadCount = 0, m_idleThreadCount = 0, m_stopping = False,
             m_autoStop = False, m_rootThread = -1, m_tickles = 0\<rparr>,
      y_g = \<lparr>fb = (\<lambda>a. if a = 0 then ex_fiber EXEC (Saved Native)
                        else if a = 3 then ex_fiber FTERM Finished
                        else ex_fiber INIT (Entry MainFunc)),
             fb_live = {0, 1, 2, 3}, s_fiber_id = 4, s_fiber_count = 4\<rparr>,
      y_w = (\<lambda>_. \<lparr>w_pc = Fetch, w_l = \<lparr>t_fiber = Some 0, t_threadFiber = Some 0,
                    t_scheduler_fiber = Some 0, t_running = Native\<rparr>, w_idle = 1, w_cb = None\<rparr>),
      y_ids = {7}, y_leaked = 0\<rparr>"

definition ex_sched :: "addr \<Rightarrow> unit sys \<Rightarrow> unit sys" where
  "ex_sched f y = y\<lparr>y_s := schedule (fiber_task (Some f) (-1)) (y_s y)\<rparr>"

definition ex_run :: "unit sys \<Rightarrow> unit sys" where
  "ex_run y = projr (run_step 7 8 None 1024 y)"

lemma ex_fresh: "fresh_sys ex_sys"
  by (simp add: fresh_sys_def ex_sys_def)

lemma ex_run_step:
  assumes "\<not> isl (run_step 7 8 None 1024 y)" and "7 \<in> y_ids y"
  shows "run_step 7 8 None 1024 y = Inr (ex_run y)" and "sys_step y (ex_run y)"
    and "y_ids (ex_run y) = y_ids y"
proof -
  show r: "run_step 7 8 None 1024 y = Inr (ex_run y)"
    unfolding ex_run_def by (rule sum.collapse(2) [OF assms(1), symmetric])
  then show "sys_step y (ex_run y)" by (rule sy_run [OF assms(2)])
  show "y_ids (ex_run y) = y_ids y" using run_step_leaked(2) [OF r] .
qed

lemma ex_sched_step: "sys_step y (ex_sched f y)" "y_ids (ex_sched f y) = y_ids y"
  by (simp_all add: ex_sched_def sy_schedule)

lemma ex_ids: "y_ids ex_sys = {7}"
  by (simp add: ex_sys_def)

lemmas ex_defs = ex_sys_def ex_sched_def ex_run_def ex_fiber_def run_step_def fetch_def
  fiber_task_def nonempty_def fiber_states_def Let_def

lemma ex_fetch:
  "sys_step\<^sup>*\<^sup>* ex_sys (ex_run (ex_sched 2 ex_sys))" "y_ids (ex_run (ex_sched 2 ex_sys)) = {7}"
proof -
  have "\<not> isl (run_step 7 8 None 1024 (ex_sched 2 ex_sys))" by code_simp
  note r = ex_run_step [OF this, unfolded ex_sched_step(2) ex_ids]
  show "sys_step\<^sup>*\<^sup>* ex_sys (ex_run (ex_sched 2 ex_sys))"
    using ex_sched_step(1) [of ex_sys 2] r(2) by (auto intro: rtranclp.rtrancl_into_rtrancl)
  show "y_ids (ex_run (ex_sched 2 ex_sys)) = {7}" using r(3) by simp
qed

theorem counters_count_witness:
  "m_activeThreadCount (y_s (ex_run (ex_sched 2 ex_sys)))
     = of_nat (card {t \<in> {7}. busy (w_pc (y_w (ex_run (ex_sched 2 ex_sys)) t))}
         + y_leaked (ex_run (ex_sched 2 ex_sys)))
   \<and> m_activeThreadCount (y_s (ex_run (ex_sched 2 ex_sys))) = 1"
proof -
  have "m_activeThreadCount (y_s (ex_run (ex_sched 2 ex_sys))) = 1" by (simp add: ex_defs)
  with counters_count [OF ex_fresh ex_fetch(1)] show ?thesis
    unfolding ex_fetch(2) by simp
qed

theorem fetch_never_aborts_witness:
  "\<exists>r. fetch 7 (fiber_states (y_g ex_sys)) (y_s (ex_run (ex_sched 2 ex_sys))) = Inr r"
proof -
  have "fiber_states (y_g (ex_run (ex_sched 2 ex_sys))) = fiber_states (y_g ex_sys)"
    by (simp add: ex_defs)
  then show ?thesis
    using fetch_never_aborts [OF ex_fresh ex_fetch(1), of 7] by simp
qed

text \<open>Fiber 2 runs, yields to be run again and is counted out; then \<open>stop\<close> is called.\<close>

definition ex_left :: "unit sys" where
  "ex_left = projr (leave 7 Task_fiber 2 False
     (yield_mark 7 Task_fiber 2 READY (ex_run (ex_run (ex_run (ex_sched 2 ex_sys))))))"

definition ex_stop :: "unit sys" where
  "ex_stop = (ex_run ex_left)\<lparr>y_s :=
     snd (projr (stop_begin 5 (fiber_states (y_g (ex_run ex_left))) None (y_s (ex_run ex_left))))\<rparr>"

lemma ex_stop_reach: "sys_step\<^sup>*\<^sup>* ex_sys ex_stop" "y_ids ex_stop = {7}"
proof -
  let ?y1 = "ex_sched 2 ex_sys" let ?y2 = "ex_run ?y1" let ?y3 = "ex_run ?y2" let ?y4 = "ex_run ?y3"
  let ?y5 = "yield_mark 7 Task_fiber 2 READY ?y4"
  have "\<not> isl (run_step 7 8 None 1024 ?y1)" by code_simp
  note r1 = ex_run_step [OF this, unfolded ex_sched_step(2) ex_ids, simplified]
  have "\<not> isl (run_step 7 8 None 1024 ?y2)" by code_simp
  note r2 = ex_run_step [OF this, unfolded r1(3), simplified]
  have "\<not> isl (run_step 7 8 None 1024 ?y3)" by code_simp
  note r3 = ex_run_step [OF this, unfolded r2(3), simplified]
  have pc: "w_pc (y_w ?y4 7) = Running Task_fiber 2" by code_simp
  have s5: "sys_step ?y4 ?y5" by (rule sy_yield [OF _ pc]) (simp_all add: r3(3))
  have "\<not> isl (leave 7 Task_fiber 2 False ?y5)" by code_simp
  then have l: "leave 7 Task_fiber 2 False ?y5 = Inr ex_left" by (simp add: ex_left_def sum.collapse(2))
  have s6: "sys_step ?y5 ex_left"
    by (rule sy_leave [OF _ _ l]) (simp_all add: yield_mark_def r3(3))
  have "y_ids ex_left = {7}" using sys_step_leaked [OF s6] sys_step_leaked [OF s5] r3(3) by simp
  moreover have "\<not> isl (run_step 7 8 None 1024 ex_left)" by code_simp
  ultimately have r7: "sys_step ex_left (ex_run ex_left)" "y_ids (ex_run ex_left) = {7}"
    using ex_run_step [of ex_left] by auto
  have "\<not> isl (stop_begin 5 (fiber_states (y_g (ex_run ex_left))) None (y_s (ex_run ex_left)))" by code_simp
  from sum.collapse(2) [OF this] have "stop_begin 5 (fiber_states (y_g (ex_run ex_left))) None (y_s (ex_run ex_left))
      = Inr (fst (projr (stop_begin 5 (fiber_states (y_g (ex_run ex_left))) None (y_s (ex_run ex_left)))), y_s ex_stop)"
    by (simp add: ex_stop_def)
  from sy_stop [OF this] have "sys_step (ex_run ex_left) ex_stop" by (simp add: ex_stop_def)
  then show "sys_step\<^sup>*\<^sup>* ex_sys ex_stop"
    using ex_sched_step(1) [of ex_sys 2] r1(2) r2(2) r3(2) s5 s6 r7(1)
    by (meson rtranclp.rtrancl_into_rtrancl rtranclp.rtrancl_refl)
  show "y_ids ex_stop = {7}" using r7(2) by (simp add: ex_stop_def)
qed

lemma ex_stop_facts:
  "stopping (y_s ex_stop)" "y_leaked ex_stop = 0" "w_pc (y_w ex_stop 7) = Counted Task_fiber 2"
  "f_state (fb (y_g ex_stop) 2) = READY"
  by code_simp+

theorem stopping_means_quiescent_witness:
  "stopping (y_s ex_stop) \<and> m_fibers (y_s ex_stop) = [] \<and> w_pc (y_w ex_stop 7) = Counted Task_fiber 2
    \<and> (\<exists>y'. run_step 7 8 None 1024 ex_stop = Inr y' \<and> \<not> stopping (y_s y'))"
  using stopping_means_quiescent [OF ex_fresh ex_stop_reach(1) _ ex_stop_facts(1), of 8 None 1024]
    ex_stop_facts ex_stop_reach(2)
  by auto

theorem ended_task_blocks_stopping_witness:
  "\<not> stopping (y_s (ex_run (ex_run (ex_run (ex_sched 3 ex_sys)))))"
proof -
  let ?y1 = "ex_sched 3 ex_sys" let ?y2 = "ex_run ?y1" let ?y3 = "ex_run ?y2" let ?y4 = "ex_run ?y3"
  have "\<not> isl (run_step 7 8 None 1024 ?y1)" by code_simp
  note r1 = ex_run_step [OF this, unfolded ex_sched_step(2) ex_ids, simplified]
  have "\<not> isl (run_step 7 8 None 1024 ?y2)" by code_simp
  note r2 = ex_run_step [OF this, unfolded r1(3), simplified]
  have "\<not> isl (run_step 7 8 None 1024 ?y3)" by code_simp
  note r3 = ex_run_step [OF this, unfolded r2(3), simplified]
  have reach: "sys_step\<^sup>*\<^sup>* ex_sys ?y3"
    using ex_sched_step(1) [of ex_sys 3] r1(2) r2(2) by (meson rtranclp.rtrancl_into_rtrancl rtranclp.rtrancl_refl)
  have pc: "w_pc (y_w ?y3 7) = Dispatch (fiber_task (Some 3) (-1))" by code_simp
  have st: "\<not> alive (f_state (fb (y_g ?y3) 3))" by code_simp
  have lk: "y_leaked ?y4 = 1" by code_simp
  show ?thesis
    by (rule ended_task_blocks_stopping [THEN conjunct1, OF ex_fresh reach _ pc _ _ st r3(1)])
      (simp_all add: r2(3) r3(3) lk fiber_task_def)
qed


section \<open>Two windows between the workers\<close>

text \<open>C12: \<open>YieldToHold\<close> makes the fiber's state \<open>HOLD\<close> before it has switched away.  If the fiber is
  scheduled in that window (by the event it is about to wait for), another worker can take the
  task and start running the fiber while the first is still on its stack.\<close>

theorem yield_to_hold_window:
  assumes "t \<in> y_ids y" and "u \<in> y_ids y" and "t \<noteq> u"
    and "w_pc (y_w y t) = Running k f" and "k \<noteq> Idle_fiber" and "w_pc (y_w y u) = Fetch"
    and "t_scheduler_fiber (w_l (y_w y u)) = Some m" and "m \<noteq> f"
    and "f_ctx (fb (y_g y) f) \<notin> {NoCtx, Finished}"
    and "m_fibers (y_s y) = []"
  shows "\<exists>y'. sys_step\<^sup>*\<^sup>* y y' \<and> w_pc (y_w y' t) = Leaving k f False
    \<and> w_pc (y_w y' u) = Running Task_fiber f"
proof -
  let ?ft = "fiber_task (Some f) (-1) :: 'a task"
  let ?y1 = "yield_mark t k f HOLD y"
  let ?y2 = "?y1\<lparr>y_s := schedule ?ft (y_s ?y1)\<rparr>"
  let ?s3 = "(y_s ?y2)\<lparr>m_fibers := [], m_activeThreadCount := m_activeThreadCount (y_s ?y2) + 1\<rparr>"
  let ?y3 = "goto u (Unlocked ?ft False) (?y2\<lparr>y_s := ?s3\<rparr>)"
  let ?y4 = "goto u (Dispatch ?ft) ?y3"
  have w: "w_pc (y_w ?y1 u) = Fetch" "w_pc (y_w ?y1 t) = Leaving k f False"
    "t_scheduler_fiber (w_l (y_w ?y1 u)) = Some m" "y_ids ?y1 = y_ids y" "y_s ?y1 = y_s y"
    "f_state (fb (y_g ?y1) f) = HOLD" "f_ctx (fb (y_g ?y1) f) = f_ctx (fb (y_g y) f)"
    using assms by (simp_all add: yield_mark_def upd_state_def set_fiber_def)
  have s1: "sys_step y ?y1" using assms by (intro sy_yield) simp_all
  have s2: "sys_step ?y1 ?y2" by (rule sy_schedule)
  have q: "m_fibers (y_s ?y2) = [?ft]" using w assms(10) by (simp add: fiber_task_def nonempty_def)
  have "fetch u (fiber_states (y_g ?y2)) (y_s ?y2) = Inr (?ft, False, ?s3)"
    using q w by (simp add: fetch_def fiber_task_def nonempty_def fiber_states_def)
  then have r3: "run_step u 0 None 0 ?y2 = Inr ?y3"
    using w by (simp add: run_step_def)
  have s3: "sys_step ?y2 ?y3" by (rule sy_run [OF _ r3]) (use assms(2) w in simp)
  have r4: "run_step u 0 None 0 ?y3 = Inr ?y4" by (simp add: run_step_def)
  have s4: "sys_step ?y3 ?y4" by (rule sy_run [OF _ r4]) (use assms(2) w in simp)
  have "\<exists>e'. swapIn f (y_g ?y4, w_l (y_w ?y4 u)) = Inr e'"
    using w assms(3,7-9) by (auto simp: swapIn_def swapcontext_def SetThis_def upd_state_def set_fiber_def
        goto_def set_worker_def Let_def split: ctx.splits)
  then obtain y5 where r5: "on_fibers u (swapIn f) ?y4 = Inr y5"
    by (auto simp: on_fibers_def split: prod.splits)
  have r5': "run_step u 0 None 0 ?y4 = Inr (goto u (Running Task_fiber f) y5)"
    using r5 w by (simp add: run_step_def dispatch_def fiber_task_def alive_def)
  have s5: "sys_step ?y4 (goto u (Running Task_fiber f) y5)"
    by (rule sy_run [OF _ r5']) (use assms(2) w in simp)
  have "sys_step\<^sup>*\<^sup>* y (goto u (Running Task_fiber f) y5)"
    using s1 s2 s3 s4 s5 by (meson rtranclp.rtrancl_into_rtrancl rtranclp.rtrancl_refl)
  moreover have "w_pc (y_w (goto u (Running Task_fiber f) y5) t) = Leaving k f False"
    using w assms(3) on_fibers_fields(4) [OF r5, of t] by simp
  ultimately show ?thesis by (intro exI [of _ "goto u (Running Task_fiber f) y5"]) simp
qed

text \<open>A fiber that yielded to be rescheduled is counted out of the active counter before it is
  put back in the queue: if it was the last one, \<open>stopping()\<close> holds in between, so an idle worker
  that looks then stops, although one step later the queue holds work again.\<close>

theorem stopping_is_not_stable:
  assumes "t \<in> y_ids y" and "w_pc (y_w y t) = After Task_fiber f" and "f_state (fb (y_g y) f) = READY"
    and "m_autoStop (y_s y)" and "m_stopping (y_s y)" and "m_fibers (y_s y) = []"
    and "m_activeThreadCount (y_s y) = 1"
  shows "\<exists>y1 y2. sys_step y y1 \<and> stopping (y_s y1) \<and> sys_step y1 y2 \<and> \<not> stopping (y_s y2)"
proof -
  let ?y1 = "goto t (Counted Task_fiber f) (y\<lparr>y_s := (y_s y)\<lparr>m_activeThreadCount := 0\<rparr>\<rparr>)"
  let ?y2 = "goto t Fetch (?y1\<lparr>y_s := schedule (fiber_task (Some f) (-1)) (y_s ?y1)\<rparr>)"
  have "run_step t 0 None 0 y = Inr ?y1" using assms by (simp add: run_step_def)
  then have 1: "sys_step y ?y1" by (rule sy_run [OF assms(1)])
  have "run_step t 0 None 0 ?y1 = Inr ?y2" using assms by (simp add: run_step_def after_fiber_def)
  then have 2: "sys_step ?y1 ?y2" by (rule sy_run [rotated]) (use assms(1) in simp)
  have "stopping (y_s ?y1)" using assms by (simp add: stopping_def)
  moreover have "\<not> stopping (y_s ?y2)" using assms by (simp add: stopping_def nonempty_def fiber_task_def)
  ultimately show ?thesis using 1 2 by blast
qed

section \<open>Starting and stopping\<close>

definition stopped :: "'cb scheduler \<Rightarrow> 'cb scheduler" where
  "stopped s = s\<lparr>m_autoStop := True, m_stopping := True\<rparr>"

lemma stopping_tickles [simp]: "stopping (s\<lparr>m_tickles := n\<rparr>) = stopping s"
  by (simp add: stopping_def)

definition stops_early :: "(addr \<Rightarrow> fiber_state) \<Rightarrow> 'cb scheduler \<Rightarrow> bool" where
  "stops_early st s \<longleftrightarrow> m_threadCount s = 0 \<and> stopping (stopped s)
     \<and> (case m_rootFiber s of Some r \<Rightarrow> st r = FTERM \<or> st r = INIT | None \<Rightarrow> False)"

text \<open>\<open>stop()\<close>, called from the thread it must be called from, sets both flags, then wakes every
  worker thread once and the root fiber's thread once more; it runs the root fiber exactly if
  there is one and the scheduler is not yet quiescent.  Only a scheduler without worker threads
  whose root fiber is not running returns early, when it is quiescent.\<close>

theorem stop_begin_spec:
  assumes "(m_rootThread s \<noteq> -1) = (tsched = Some this)"
  shows "stop_begin this st tsched s =
    (if stops_early st s then Inr (Stop_return, stopped s)
     else Inr (case m_rootFiber s of
                 Some r \<Rightarrow> if stopping (stopped s) then Stop_join else Stop_call r
               | None \<Rightarrow> Stop_join,
               (stopped s)\<lparr>m_tickles := m_tickles s + unat (m_threadCount s)
                                        + of_bool (m_rootFiber s \<noteq> None)\<rparr>))"
  using assms
  by (cases "m_rootFiber s"; cases "m_threadCount s = 0"; cases "m_rootThread s = -1";
      cases "stopping (s\<lparr>m_autoStop := True, m_stopping := True\<rparr>)")
    (simp_all add: stop_begin_def stops_early_def stopped_def tickle_n tickle_def Let_def)

theorem stop_begin_spec_witness:
  "stop_begin 5 (\<lambda>_. INIT) None (y_s ex_sys)
     = Inr (Stop_join, (y_s ex_sys)\<lparr>m_autoStop := True, m_stopping := True, m_tickles := 1\<rparr>)"
proof -
  have "(m_rootThread (y_s ex_sys) \<noteq> -1) = (None = Some (5 :: addr))" by (simp add: ex_sys_def)
  from stop_begin_spec [OF this, of "\<lambda>_. INIT"] show ?thesis by (simp add: ex_sys_def stops_early_def stopped_def)
qed

theorem stopping_is_not_stable_witness:
  "let y = goto 7 (After Task_fiber 2)
        (ex_sys\<lparr>y_s := (y_s ex_sys)\<lparr>m_autoStop := True, m_stopping := True, m_activeThreadCount := 1\<rparr>,
               y_g := upd_state 2 READY (y_g ex_sys)\<rparr>)
   in \<exists>y1 y2. sys_step y y1 \<and> stopping (y_s y1) \<and> sys_step y1 y2 \<and> \<not> stopping (y_s y2)"
  unfolding Let_def
  by (rule stopping_is_not_stable [where t = 7 and f = 2])
    (simp_all add: ex_sys_def upd_state_def set_fiber_def)

theorem yield_to_hold_window_witness:
  "let y = goto 7 (Running Task_fiber 2)
        (ex_sys\<lparr>y_ids := {7, 8}, y_g := upd_state 2 EXEC (y_g ex_sys)\<rparr>)
   in \<exists>y'. sys_step\<^sup>*\<^sup>* y y' \<and> w_pc (y_w y' 7) = Leaving Task_fiber 2 False
        \<and> w_pc (y_w y' 8) = Running Task_fiber 2"
  unfolding Let_def
  by (rule yield_to_hold_window [where m = 0])
    (simp_all add: ex_sys_def upd_state_def set_fiber_def ex_fiber_def goto_def set_worker_def)

text \<open>Starting a scheduler that was stopped creates \<open>m_threadCount\<close> workers and records their
  ids after the root thread's; starting it again has no effect until it is stopped.\<close>

theorem start_spec:
  assumes "m_threads s = []" and "m_stopping s" and "length ids = unat (m_threadCount s)"
    and "start ids s = Inr s'"
  shows "m_threads s' = ids \<and> m_threadIds s' = m_threadIds s @ ids \<and> \<not> m_stopping s'
    \<and> start ids' s' = Inr s' \<and> \<not> stopping s'"
  using assms by (auto simp: start_def Let_def stopping_def)

theorem start_spec_witness:
  "m_threads (projr (start [4, 5] (((y_s ex_sys)\<lparr>m_threads := [], m_stopping := True,
      m_threadCount := 2\<rparr>)))) = [4, 5]"
proof -
  let ?s = "(y_s ex_sys)\<lparr>m_threads := [], m_stopping := True, m_threadCount := 2\<rparr>"
  have s: "start [4, 5] ?s = Inr (projr (start [4, 5] ?s))" by (simp add: start_def Let_def)
  from start_spec [OF _ _ _ s] show ?thesis by simp
qed

text \<open>\<open>YieldTo\<close> is the two steps the system takes for it, when the thread runs fiber \<open>f\<close>.\<close>

lemma YieldTo_split:
  assumes "t_fiber l = Some f"
  shows "YieldTo st a (g, l) = swapOut f (upd_state f st g, l)"
  using assms by (simp add: YieldTo_def GetThis_def)


end
