(* ===== verification/IO_Manager.thy ===== *)
theory IO_Manager
  imports Scheduler Timer
begin

text \<open>
  The IO manager (\<open>iomanager.h\<close>, \<open>iomanager.cc\<close>): a scheduler with timers that lets a
  fiber or a callback wait for a descriptor.  The model holds the scheduler and the timer
  manager it derives from, the table of descriptor contexts and its own counters.  The
  kernel is a parameter: every operation takes the result of the \<open>epoll_ctl\<close> call it makes
  and appends the call to a log, from which the specification computes the interest list
  of the epoll instance.  Writing the wake-up byte to the pipe is taken to succeed.

  The theory \<open>IO_Invariant\<close> states the invariant, \<open>IO_Properties\<close> what the calls do.
\<close>

section \<open>Data\<close>

text \<open>The \<open>Event\<close> bits and the epoll bits the code uses; an \<open>Event\<close> is an \<open>int\<close>.\<close>

definition NONE :: u32 where "NONE = 0"
definition READ :: u32 where "READ = 0x1"
definition WRITE :: u32 where "WRITE = 0x4"

definition EPOLLIN :: u32 where "EPOLLIN = 0x1"
definition EPOLLOUT :: u32 where "EPOLLOUT = 0x4"
definition EPOLLERR :: u32 where "EPOLLERR = 0x8"
definition EPOLLHUP :: u32 where "EPOLLHUP = 0x10"
definition EPOLLET :: u32 where "EPOLLET = 0x80000000"

lemmas ev_defs = NONE_def READ_def WRITE_def EPOLLIN_def EPOLLOUT_def EPOLLERR_def
  EPOLLHUP_def EPOLLET_def

record 'cb event_context =
  ec_scheduler :: "addr option"
  ec_fiber :: "addr option"
  ec_cb :: "'cb timer_fn option"

record 'cb fd_context =
  fc_read :: "'cb event_context"
  fc_write :: "'cb event_context"
  fc_fd :: nat
  fc_events :: u32

datatype ctl_op = CTL_ADD | CTL_MOD | CTL_DEL

text \<open>A call \<open>epoll_ctl(m_epfd, op, fd, {events})\<close> with its result.\<close>

record ctl =
  ctl_op :: ctl_op
  ctl_fd :: nat
  ctl_events :: u32
  ctl_rt :: int

text \<open>
  The members of \<open>IOManager\<close> with its two base objects.  The \<open>FdContext\<close> objects are on
  the heap, since the code keeps pointers to them across the release of the table's lock;
  \<open>io_next\<close> is the next fresh address.  Three fields record what leaves the object: the
  \<open>epoll_ctl\<close> calls, the bytes written to the pipe and the tasks given to other schedulers.
\<close>

record 'cb io_manager =
  io_this :: addr
  io_sched :: "'cb timer_fn scheduler"
  io_timers :: "'cb timer_manager"
  m_epfd :: int
  m_tickleFds :: "int \<times> int"
  m_pendingEventCount :: u64
  m_fdContexts :: "addr list"
  io_ctx :: "addr \<Rightarrow> 'cb fd_context"
  io_next :: addr
  io_ctl :: "ctl list"
  io_pipe :: nat
  io_posted :: "(addr \<times> 'cb timer_fn task) list"

section \<open>\<open>FdContext\<close>\<close>

definition empty_ectx :: "'cb event_context" where
  "empty_ectx = \<lparr>ec_scheduler = None, ec_fiber = None, ec_cb = None\<rparr>"

definition new_fd_context :: "nat \<Rightarrow> 'cb fd_context" where
  "new_fd_context i = \<lparr>fc_read = empty_ectx, fc_write = empty_ectx, fc_fd = i, fc_events = NONE\<rparr>"

definition getContext :: "'cb fd_context \<Rightarrow> u32 \<Rightarrow> 'cb event_context res" where
  "getContext fc event =
     (if event = READ then Inr (fc_read fc)
      else if event = WRITE then Inr (fc_write fc)
      else Inl (Abort ''getContext''))"

text \<open>Assignment through the reference \<open>getContext\<close> returns.\<close>

definition setContext :: "u32 \<Rightarrow> 'cb event_context \<Rightarrow> 'cb fd_context \<Rightarrow> 'cb fd_context" where
  "setContext event ec fc =
     (if event = READ then fc\<lparr>fc_read := ec\<rparr>
      else if event = WRITE then fc\<lparr>fc_write := ec\<rparr> else fc)"

definition resetContext :: "'cb event_context \<Rightarrow> 'cb event_context" where
  "resetContext ec = ec\<lparr>ec_scheduler := None, ec_fiber := None, ec_cb := None\<rparr>"

text \<open>\<open>triggerEvent\<close>: the new context, and the scheduler and task of the \<open>schedule\<close> call.  The
  callback or fiber is passed by address and swapped out of the context.\<close>

definition triggerEvent ::
  "u32 \<Rightarrow> 'cb fd_context \<Rightarrow> ('cb fd_context \<times> addr \<times> 'cb timer_fn task) res" where
  "triggerEvent event fc =
     (if fc_events fc AND event = 0 then Inl (Abort ''events & event'')
      else
        let fc1 = fc\<lparr>fc_events := fc_events fc AND NOT event\<rparr>
        in res_bind (getContext fc1 event)
             (\<lambda>ec. case ec_scheduler ec of
                     None \<Rightarrow> Inl (Undefined ''ctx.scheduler is null'')
                   | Some sc \<Rightarrow>
                       let (task, ec1) =
                             (if ec_cb ec \<noteq> None then (cb_task (ec_cb ec) (-1), ec\<lparr>ec_cb := None\<rparr>)
                              else (fiber_task (ec_fiber ec) (-1), ec\<lparr>ec_fiber := None\<rparr>))
                       in Inr (setContext event (ec1\<lparr>ec_scheduler := None\<rparr>) fc1, sc, task)))"

section \<open>Wake-ups and scheduling\<close>

text \<open>\<open>IOManager::tickle()\<close>.\<close>

definition io_tickle :: "'cb io_manager \<Rightarrow> 'cb io_manager" where
  "io_tickle io = (if hasIdleThreads (io_sched io) then io else io\<lparr>io_pipe := Suc (io_pipe io)\<rparr>)"

text \<open>
  A scheduler operation on the base object.  Each call of the virtual \<open>tickle()\<close> it makes
  (counted by the base model) reaches \<open>IOManager::tickle()\<close>, which looks at nothing these
  operations change.
\<close>

definition on_sched ::
  "('cb timer_fn scheduler \<Rightarrow> 'cb timer_fn scheduler) \<Rightarrow> 'cb io_manager \<Rightarrow> 'cb io_manager" where
  "on_sched f io =
     (let s1 = f (io_sched io)
      in (io_tickle ^^ (m_tickles s1 - m_tickles (io_sched io))) (io\<lparr>io_sched := s1\<rparr>))"

text \<open>\<open>ctx.scheduler->schedule(&task)\<close>.\<close>

definition post :: "addr \<Rightarrow> 'cb timer_fn task \<Rightarrow> 'cb io_manager \<Rightarrow> 'cb io_manager" where
  "post sc t io =
     (if sc = io_this io then on_sched (schedule t) io
      else io\<lparr>io_posted := io_posted io @ [(sc, t)]\<rparr>)"

definition onTimerInsertedAtFront :: "'cb io_manager \<Rightarrow> 'cb io_manager" where
  "onTimerInsertedAtFront io = io_tickle io"

section \<open>The table of contexts\<close>

text \<open>The loop of \<open>contextResize\<close>: the entries that are null (\<open>None\<close>) get new contexts.\<close>

fun fill_contexts :: "nat \<Rightarrow> addr option list \<Rightarrow> 'cb io_manager \<Rightarrow> addr list \<times> 'cb io_manager" where
  "fill_contexts i [] io = ([], io)"
| "fill_contexts i (Some p # ps) io =
     (case fill_contexts (Suc i) ps io of (qs, io') \<Rightarrow> (p # qs, io'))"
| "fill_contexts i (None # ps) io =
     (let p = io_next io;
          io1 = io\<lparr>io_ctx := (io_ctx io)(p := new_fd_context i), io_next := Suc p\<rparr>
      in case fill_contexts (Suc i) ps io1 of (qs, io') \<Rightarrow> (p # qs, io'))"

definition contextResize :: "nat \<Rightarrow> 'cb io_manager \<Rightarrow> 'cb io_manager" where
  "contextResize sz io =
     (case fill_contexts 0 (vec_resize sz None (map Some (m_fdContexts io))) io of
        (ps, io1) \<Rightarrow> io1\<lparr>m_fdContexts := ps\<rparr>)"

definition set_ctx :: "addr \<Rightarrow> 'cb fd_context \<Rightarrow> 'cb io_manager \<Rightarrow> 'cb io_manager" where
  "set_ctx p fc io = io\<lparr>io_ctx := (io_ctx io)(p := fc)\<rparr>"

definition epoll_ctl :: "ctl_op \<Rightarrow> nat \<Rightarrow> u32 \<Rightarrow> int \<Rightarrow> 'cb io_manager \<Rightarrow> 'cb io_manager" where
  "epoll_ctl op n evs rt io =
     io\<lparr>io_ctl := io_ctl io @ [\<lparr>ctl_op = op, ctl_fd = n, ctl_events = evs, ctl_rt = rt\<rparr>]\<rparr>"

section \<open>\<open>addEvent\<close>, \<open>delEvent\<close>, \<open>cancelEvent\<close>, \<open>cancelAll\<close>\<close>

text \<open>\<open>m_fdContexts[fd]\<close>.\<close>

definition context_at :: "fd \<Rightarrow> 'cb io_manager \<Rightarrow> addr res" where
  "context_at fd io =
     (if fd < 0 \<or> int (length (m_fdContexts io)) \<le> fd then Inl (Undefined ''m_fdContexts[fd]'')
      else Inr (m_fdContexts io ! nat fd))"

text \<open>\<open>addEvent\<close> under the read lock: the context, or that the table is too short.\<close>

definition addEvent_lookup :: "fd \<Rightarrow> 'cb io_manager \<Rightarrow> addr option res" where
  "addEvent_lookup fd io =
     (if fd < int (length (m_fdContexts io)) then res_bind (context_at fd io) (\<lambda>p. Inr (Some p))
      else Inr None)"

text \<open>\<open>addEvent\<close> under the write lock: \<open>contextResize(fd * 1.5)\<close>, and the context.\<close>

definition addEvent_grow :: "fd \<Rightarrow> 'cb io_manager \<Rightarrow> (addr \<times> 'cb io_manager) res" where
  "addEvent_grow fd io =
     (let io1 = contextResize (nat (3 * fd div 2)) io
      in res_bind (context_at fd io1) (\<lambda>p. Inr (p, io1)))"

text \<open>\<open>addEvent\<close> under the context's lock: \<open>sched\<close> is \<open>Scheduler::GetThis()\<close>, \<open>cur\<close> is
  \<open>Fiber::GetThis()\<close> with its state, \<open>rt\<close> is the result of \<open>epoll_ctl\<close>.\<close>

definition addEvent_on ::
  "addr \<Rightarrow> fd \<Rightarrow> u32 \<Rightarrow> 'cb timer_fn option \<Rightarrow> addr option \<Rightarrow> addr \<times> fiber_state \<Rightarrow> int
    \<Rightarrow> 'cb io_manager \<Rightarrow> (int \<times> 'cb io_manager) res" where
  "addEvent_on p fd event cb sched cur rt io =
     (let fc = io_ctx io p
      in if fc_events fc AND event \<noteq> 0 then Inl (Abort ''!(fd_ctx->events & event)'')
         else
           let op = (if fc_events fc \<noteq> 0 then CTL_MOD else CTL_ADD);
               io1 = epoll_ctl op (nat fd) (EPOLLET OR fc_events fc OR event) rt io
           in if rt \<noteq> 0 then Inr (-1, io1)
              else
                let io2 = io1\<lparr>m_pendingEventCount := m_pendingEventCount io1 + 1\<rparr>;
                    fc1 = fc\<lparr>fc_events := fc_events fc OR event\<rparr>
                in res_bind (getContext fc1 event)
                     (\<lambda>ec. if ec_scheduler ec \<noteq> None \<or> ec_fiber ec \<noteq> None \<or> ec_cb ec \<noteq> None then
                             Inl (Abort ''!event_ctx.scheduler && !event_ctx.fiber && !event_ctx.cb'')
                           else
                             let ec1 = ec\<lparr>ec_scheduler := sched\<rparr>
                             in if cb \<noteq> None then
                                  Inr (0, set_ctx p (setContext event (ec1\<lparr>ec_cb := cb\<rparr>) fc1) io2)
                                else if snd cur \<noteq> EXEC then
                                  Inl (Abort ''event_ctx.fiber->getState() == Fiber::EXEC'')
                                else
                                  Inr (0, set_ctx p
                                        (setContext event (ec1\<lparr>ec_fiber := Some (fst cur)\<rparr>) fc1) io2)))"

text \<open>\<open>addEvent\<close> without interference.\<close>

definition addEvent ::
  "fd \<Rightarrow> u32 \<Rightarrow> 'cb timer_fn option \<Rightarrow> addr option \<Rightarrow> addr \<times> fiber_state \<Rightarrow> int
    \<Rightarrow> 'cb io_manager \<Rightarrow> (int \<times> 'cb io_manager) res" where
  "addEvent fd event cb sched cur rt io =
     res_bind (addEvent_lookup fd io)
       (\<lambda>q. case q of
              Some p \<Rightarrow> addEvent_on p fd event cb sched cur rt io
            | None \<Rightarrow> res_bind (addEvent_grow fd io)
                        (\<lambda>(p, io1). addEvent_on p fd event cb sched cur rt io1))"

text \<open>The common part of \<open>delEvent\<close> and \<open>cancelEvent\<close>: \<open>None\<close> if the function returns false.\<close>

definition delEvent_on :: "addr \<Rightarrow> fd \<Rightarrow> u32 \<Rightarrow> int \<Rightarrow> 'cb io_manager \<Rightarrow> (bool \<times> 'cb io_manager) res" where
  "delEvent_on p fd event rt io =
     (let fc = io_ctx io p
      in if fc_events fc AND event = 0 then Inr (False, io)
         else
           let new_events = fc_events fc AND NOT event;
               op = (if new_events \<noteq> 0 then CTL_MOD else CTL_DEL);
               io1 = epoll_ctl op (nat fd) (EPOLLET OR new_events) rt io
           in if rt \<noteq> 0 then Inr (False, io1)
              else
                let io2 = io1\<lparr>m_pendingEventCount := m_pendingEventCount io1 - 1\<rparr>;
                    fc1 = fc\<lparr>fc_events := new_events\<rparr>
                in res_bind (getContext fc1 event)
                     (\<lambda>ec. Inr (True, set_ctx p (setContext event (resetContext ec) fc1) io2)))"

definition delEvent :: "fd \<Rightarrow> u32 \<Rightarrow> int \<Rightarrow> 'cb io_manager \<Rightarrow> (bool \<times> 'cb io_manager) res" where
  "delEvent fd event rt io =
     (if int (length (m_fdContexts io)) \<le> fd then Inr (False, io)
      else res_bind (context_at fd io) (\<lambda>p. delEvent_on p fd event rt io))"

text \<open>\<open>fd_ctx->triggerEvent(event)\<close> on the context at \<open>p\<close>.\<close>

definition trigger :: "addr \<Rightarrow> u32 \<Rightarrow> 'cb io_manager \<Rightarrow> 'cb io_manager res" where
  "trigger p event io =
     res_bind (triggerEvent event (io_ctx io p))
       (\<lambda>(fc, sc, t). Inr (post sc t (set_ctx p fc io)))"

definition cancelEvent_on ::
  "addr \<Rightarrow> fd \<Rightarrow> u32 \<Rightarrow> int \<Rightarrow> 'cb io_manager \<Rightarrow> (bool \<times> 'cb io_manager) res" where
  "cancelEvent_on p fd event rt io =
     (let fc = io_ctx io p
      in if fc_events fc AND event = 0 then Inr (False, io)
         else
           let new_events = fc_events fc AND NOT event;
               op = (if new_events \<noteq> 0 then CTL_MOD else CTL_DEL);
               io1 = epoll_ctl op (nat fd) (EPOLLET OR new_events) rt io
           in if rt \<noteq> 0 then Inr (False, io1)
              else
                let io2 = io1\<lparr>m_pendingEventCount := m_pendingEventCount io1 - 1\<rparr>
                in res_bind (trigger p event io2) (\<lambda>io3. Inr (True, io3)))"

definition cancelEvent :: "fd \<Rightarrow> u32 \<Rightarrow> int \<Rightarrow> 'cb io_manager \<Rightarrow> (bool \<times> 'cb io_manager) res" where
  "cancelEvent fd event rt io =
     (if int (length (m_fdContexts io)) \<le> fd then Inr (False, io)
      else res_bind (context_at fd io) (\<lambda>p. cancelEvent_on p fd event rt io))"

text \<open>\<open>if(cond) { fd_ctx->triggerEvent(event); --m_pendingEventCount; }\<close>\<close>

definition trigger_if :: "bool \<Rightarrow> addr \<Rightarrow> u32 \<Rightarrow> 'cb io_manager \<Rightarrow> 'cb io_manager res" where
  "trigger_if c p event io =
     (if c then res_bind (trigger p event io)
                  (\<lambda>io1. Inr (io1\<lparr>m_pendingEventCount := m_pendingEventCount io1 - 1\<rparr>))
      else Inr io)"

definition cancelAll_on :: "addr \<Rightarrow> fd \<Rightarrow> int \<Rightarrow> 'cb io_manager \<Rightarrow> (bool \<times> 'cb io_manager) res" where
  "cancelAll_on p fd rt io =
     (if fc_events (io_ctx io p) = 0 then Inr (False, io)
      else
        let io1 = epoll_ctl CTL_DEL (nat fd) 0 rt io
        in if rt \<noteq> 0 then Inr (False, io1)
           else
             res_bind (trigger_if (fc_events (io_ctx io1 p) AND READ \<noteq> 0) p READ io1)
               (\<lambda>io2. res_bind (trigger_if (fc_events (io_ctx io2 p) AND WRITE \<noteq> 0) p WRITE io2)
                  (\<lambda>io3. if fc_events (io_ctx io3 p) \<noteq> 0 then Inl (Abort ''fd_ctx->events == 0'')
                         else Inr (True, io3))))"

definition cancelAll :: "fd \<Rightarrow> int \<Rightarrow> 'cb io_manager \<Rightarrow> (bool \<times> 'cb io_manager) res" where
  "cancelAll fd rt io =
     (if int (length (m_fdContexts io)) \<le> fd then Inr (False, io)
      else res_bind (context_at fd io) (\<lambda>p. cancelAll_on p fd rt io))"

section \<open>The idle loop\<close>

text \<open>\<open>stopping(timeout)\<close>: the argument is a copy that the function overwrites; \<open>now\<close> is the
  clock \<open>getNextTimer\<close> reads.\<close>

definition stopping_timeout :: "u64 \<Rightarrow> u64 \<Rightarrow> 'cb io_manager \<Rightarrow> bool \<times> 'cb io_manager" where
  "stopping_timeout timeout now io =
     (case getNextTimer now (io_timers io) of
        (timeout', tm) \<Rightarrow>
          (timeout' = NOT 0 \<and> m_pendingEventCount io = 0 \<and> stopping (io_sched io),
           io\<lparr>io_timers := tm\<rparr>))"

definition io_stopping :: "u64 \<Rightarrow> u64 \<Rightarrow> 'cb io_manager \<Rightarrow> bool \<times> 'cb io_manager" where
  "io_stopping now now' io =
     (case getNextTimer now (io_timers io) of
        (timeout, tm) \<Rightarrow> stopping_timeout timeout now' (io\<lparr>io_timers := tm\<rparr>))"

text \<open>The clamping of \<open>next_timeout\<close> before \<open>epoll_wait\<close>.\<close>

definition clamp_timeout :: "u64 \<Rightarrow> u64" where
  "clamp_timeout next_timeout =
     (if next_timeout \<noteq> NOT 0 then
        if sint (ucast next_timeout :: i32) > 1000 then 1000 else next_timeout
      else 1000)"

datatype idle_next = Idle_exit | Idle_wait i32

text \<open>\<open>idle()\<close> from the head of its loop to \<open>epoll_wait\<close>: it leaves, or waits at most this
  long (in ms).\<close>

definition idle_begin :: "u64 \<Rightarrow> 'cb io_manager \<Rightarrow> idle_next \<times> 'cb io_manager" where
  "idle_begin now io =
     (let next_timeout = 0
      in case stopping_timeout next_timeout now io of
           (stop, io1) \<Rightarrow>
             (if stop then Idle_exit else Idle_wait (ucast (clamp_timeout next_timeout)), io1))"

text \<open>What \<open>epoll_wait\<close> reports: the pipe, or a context, with the event bits; with each context
  comes the result of the \<open>epoll_ctl\<close> call the loop may make for it.  (The code tells the two
  apart by comparing the low half of the pointer with the pipe's descriptor.)\<close>

datatype ev_source = Tickle_pipe | Ctx addr

type_synonym epoll_event = "ev_source \<times> u32 \<times> int"

definition process_event :: "epoll_event \<Rightarrow> 'cb io_manager \<Rightarrow> 'cb io_manager res" where
  "process_event e io =
     (case e of
        (Tickle_pipe, _, _) \<Rightarrow> Inr (io\<lparr>io_pipe := 0\<rparr>)
      | (Ctx p, evs0, rt2) \<Rightarrow>
          let fc = io_ctx io p;
              evs = (if evs0 AND (EPOLLERR OR EPOLLHUP) \<noteq> 0 then evs0 OR EPOLLIN OR EPOLLOUT
                     else evs0);
              r1 = (if evs AND EPOLLIN \<noteq> 0 then NONE OR READ else NONE);
              real_events = (if evs AND EPOLLOUT \<noteq> 0 then r1 OR WRITE else r1)
          in if fc_events fc AND real_events = NONE then Inr io
             else
               let left_events = fc_events fc AND NOT real_events;
                   op = (if left_events \<noteq> 0 then CTL_MOD else CTL_DEL);
                   io1 = epoll_ctl op (fc_fd fc) (EPOLLET OR left_events) rt2 io
               in if rt2 \<noteq> 0 then Inr io1
                  else res_bind (trigger_if (real_events AND READ \<noteq> 0) p READ io1)
                         (\<lambda>io2. trigger_if (real_events AND WRITE \<noteq> 0) p WRITE io2))"

fun process_events :: "epoll_event list \<Rightarrow> 'cb io_manager \<Rightarrow> 'cb io_manager res" where
  "process_events [] io = Inr io"
| "process_events (e # es) io = res_bind (process_event e io) (process_events es)"

text \<open>\<open>idle()\<close> from the return of \<open>epoll_wait\<close> to \<open>swapOut\<close>: the callbacks of the expired
  timers are scheduled as one range, then the events are handled; \<open>now\<close> and \<open>probe\<close> are
  the clock and the address \<open>listExpiredCb\<close> uses.\<close>

definition idle_end ::
  "u64 \<Rightarrow> addr \<Rightarrow> epoll_event list \<Rightarrow> 'cb io_manager \<Rightarrow> 'cb io_manager res" where
  "idle_end now probe es io =
     res_bind (listExpiredCb now probe (io_timers io))
       (\<lambda>(cbs, tm).
          let io1 = io\<lparr>io_timers := tm\<rparr>;
              io2 = (if cbs \<noteq> [] then on_sched (\<lambda>s. snd (schedule_range cb_task cbs s)) io1 else io1)
          in process_events es io2)"

section \<open>Construction and destruction\<close>

text \<open>\<open>IOManager::IOManager\<close> after the base constructors, with the results of \<open>epoll_create\<close>,
  \<open>pipe\<close>, \<open>fcntl\<close> and \<open>epoll_ctl\<close>; \<open>ids\<close> are the thread ids \<open>start\<close> uses.  (The pipe's own
  registration is not in the log of descriptor contexts.)\<close>

definition IOManager_ctor ::
  "addr \<Rightarrow> 'cb timer_fn scheduler \<Rightarrow> 'cb timer_manager \<Rightarrow> int \<Rightarrow> int \<Rightarrow> int \<times> int \<Rightarrow> int \<Rightarrow> int
    \<Rightarrow> tid list \<Rightarrow> 'cb io_manager res" where
  "IOManager_ctor this s tm epfd rt_pipe fds rt_fcntl rt_ctl ids =
     (if \<not> epfd > 0 then Inl (Abort ''m_epfd > 0'')
      else if rt_pipe \<noteq> 0 then Inl (Abort ''!rt'')
      else if rt_fcntl \<noteq> 0 then Inl (Abort ''rt == 0'')
      else if rt_ctl \<noteq> 0 then Inl (Abort ''!rt'')
      else
        let io = contextResize 32
              \<lparr>io_this = this, io_sched = s, io_timers = tm, m_epfd = epfd, m_tickleFds = fds,
               m_pendingEventCount = 0, m_fdContexts = [], io_ctx = (\<lambda>_. new_fd_context 0),
               io_next = 0, io_ctl = [], io_pipe = 0, io_posted = []\<rparr>
        in res_bind (start ids (io_sched io)) (\<lambda>s1. Inr (io\<lparr>io_sched := s1\<rparr>)))"

text \<open>\<open>IOManager::~IOManager\<close> after \<open>stop()\<close>, and the base destructor: the descriptors it closes, the
  contexts it deletes, and the new \<open>t_scheduler\<close>.\<close>

definition IOManager_dtor ::
  "addr option \<Rightarrow> 'cb io_manager \<Rightarrow> (int list \<times> addr list \<times> addr option) res" where
  "IOManager_dtor tsched io =
     (let closed = [m_epfd io, fst (m_tickleFds io), snd (m_tickleFds io)];
          deleted = m_fdContexts io
      in res_bind (Scheduler_dtor (io_this io) (io_sched io) tsched)
           (\<lambda>tsched'. Inr (closed, deleted, tsched')))"

end
