(* ===== verification/IO_Invariant.thy ===== *)
theory IO_Invariant
  imports IO_Manager
begin

text \<open>
  The invariant of the IO manager: the contexts, the kernel's interest list (computed from the
  log of \<open>epoll_ctl\<close> calls) and the pending counter agree, and every operation keeps them in
  agreement.
\<close>

section \<open>The kernel's side\<close>

text \<open>The effect of the logged calls on the interest list of the epoll instance, as documented:
  a successful \<open>ADD\<close> registers a new descriptor, a successful \<open>MOD\<close> or \<open>DEL\<close> changes one
  that is registered.  \<open>ctl_run\<close> says whether every successful call was one the kernel
  accepts, and computes the resulting list.\<close>

definition epoll_apply :: "ctl \<Rightarrow> (nat \<rightharpoonup> u32) \<Rightarrow> (nat \<rightharpoonup> u32)" where
  "epoll_apply c I =
     (if ctl_rt c \<noteq> 0 then I
      else if ctl_op c = CTL_DEL then I(ctl_fd c := None)
      else I(ctl_fd c \<mapsto> ctl_events c))"

definition admissible :: "ctl \<Rightarrow> (nat \<rightharpoonup> u32) \<Rightarrow> bool" where
  "admissible c I \<longleftrightarrow>
     (ctl_rt c = 0 \<longrightarrow> (if ctl_op c = CTL_ADD then I (ctl_fd c) = None else I (ctl_fd c) \<noteq> None))"

fun ctl_run :: "ctl list \<Rightarrow> (nat \<rightharpoonup> u32) \<Rightarrow> bool \<times> (nat \<rightharpoonup> u32)" where
  "ctl_run [] I = (True, I)"
| "ctl_run (c # cs) I =
     (case ctl_run cs (epoll_apply c I) of (ok, J) \<Rightarrow> (admissible c I \<and> ok, J))"

definition interest :: "ctl list \<Rightarrow> (nat \<rightharpoonup> u32)" where
  "interest log = snd (ctl_run log Map.empty)"

definition accepted :: "ctl list \<Rightarrow> bool" where
  "accepted log = fst (ctl_run log Map.empty)"

lemma ctl_run_append:
  "ctl_run (cs @ ds) I = (fst (ctl_run cs I) \<and> fst (ctl_run ds (snd (ctl_run cs I))),
     snd (ctl_run ds (snd (ctl_run cs I))))"
  by (induction cs arbitrary: I) (auto split: prod.splits)

lemma interest_snoc [simp]: "interest (log @ [c]) = epoll_apply c (interest log)"
  by (simp add: interest_def ctl_run_append)

lemma accepted_snoc [simp]: "accepted (log @ [c]) \<longleftrightarrow> accepted log \<and> admissible c (interest log)"
  by (simp add: interest_def accepted_def ctl_run_append)

lemma interest_Nil [simp]: "interest [] = Map.empty" "accepted []"
  by (simp_all add: interest_def accepted_def)

section \<open>Contexts\<close>

definition has :: "'cb fd_context \<Rightarrow> u32 \<Rightarrow> bool" where
  "has fc e \<longleftrightarrow> fc_events fc AND e \<noteq> 0"

definition ectx :: "'cb fd_context \<Rightarrow> u32 \<Rightarrow> 'cb event_context" where
  "ectx fc e = (if e = READ then fc_read fc else fc_write fc)"

text \<open>A waiter: a scheduler and exactly one of a fiber and a callback.\<close>

definition waiting :: "'cb event_context \<Rightarrow> bool" where
  "waiting ec \<longleftrightarrow> ec_scheduler ec \<noteq> None \<and> (ec_fiber ec = None) = (ec_cb ec \<noteq> None)"

definition waiter_task :: "'cb event_context \<Rightarrow> 'cb timer_fn task" where
  "waiter_task ec = (if ec_cb ec \<noteq> None then cb_task (ec_cb ec) (-1) else fiber_task (ec_fiber ec) (-1))"

text \<open>A context is well formed when it has only the two event bits, a registered event has a
  waiter and an unregistered one an empty context.\<close>

definition fc_inv :: "'cb fd_context \<Rightarrow> bool" where
  "fc_inv fc \<longleftrightarrow> fc_events fc \<in> {0, 1, 4, 5}
     \<and> (if has fc READ then waiting (fc_read fc) else fc_read fc = empty_ectx)
     \<and> (if has fc WRITE then waiting (fc_write fc) else fc_write fc = empty_ectx)"

definition regs :: "'cb fd_context \<Rightarrow> nat" where
  "regs fc = of_bool (has fc READ) + of_bool (has fc WRITE)"

definition cleared :: "u32 \<Rightarrow> 'cb fd_context \<Rightarrow> 'cb fd_context" where
  "cleared e fc = setContext e empty_ectx (fc\<lparr>fc_events := fc_events fc AND NOT e\<rparr>)"

lemma fc_cases:
  assumes "fc_inv fc"
  obtains "fc_events fc = 0" | "fc_events fc = 1" | "fc_events fc = 4" | "fc_events fc = 5"
  using assms by (auto simp: fc_inv_def)

lemma cleared_simps [simp]:
  "fc_fd (cleared e fc) = fc_fd fc" "fc_events (cleared e fc) = fc_events fc AND NOT e"
  by (simp_all add: cleared_def setContext_def)

lemma fc_inv_cleared:
  assumes "fc_inv fc" and "e = READ \<or> e = WRITE"
  shows "fc_inv (cleared e fc)"
  using assms by (elim fc_cases; elim disjE)
    (simp_all add: fc_inv_def has_def cleared_def setContext_def ev_defs)

lemma regs_cleared:
  assumes "fc_inv fc" and "e = READ \<or> e = WRITE" and "has fc e"
  shows "regs fc = Suc (regs (cleared e fc))"
  using assms by (elim fc_cases; elim disjE)
    (simp_all add: has_def regs_def cleared_def setContext_def ev_defs)

lemma fc_inv_has:
  assumes "fc_inv fc" and "e = READ \<or> e = WRITE"
  shows "has fc e \<Longrightarrow> waiting (ectx fc e)" "\<not> has fc e \<Longrightarrow> ectx fc e = empty_ectx"
  using assms by (auto simp: fc_inv_def ectx_def ev_defs split: if_splits)

lemma getContext_ok: "e = READ \<or> e = WRITE \<Longrightarrow> getContext fc e = Inr (ectx fc e)"
  by (auto simp: getContext_def ectx_def ev_defs)

lemma getContext_Inr: "getContext fc e = Inr ec \<Longrightarrow> (e = READ \<or> e = WRITE) \<and> ec = ectx fc e"
  by (auto simp: getContext_def ectx_def split: if_splits)

lemma ectx_events [simp]: "ectx (fc\<lparr>fc_events := x\<rparr>) e = ectx fc e"
  by (simp add: ectx_def)

lemma resetContext_empty: "resetContext ec = empty_ectx"
  by (simp add: resetContext_def empty_ectx_def)

text \<open>Triggering a registered event hands its waiter over and leaves the event unregistered.\<close>

lemma triggerEvent_ok:
  assumes "fc_inv fc" and "e = READ \<or> e = WRITE" and "has fc e"
  shows "triggerEvent e fc = Inr (cleared e fc, the (ec_scheduler (ectx fc e)), waiter_task (ectx fc e))"
proof -
  obtain sc fb cb where ec: "ectx fc e = \<lparr>ec_scheduler = sc, ec_fiber = fb, ec_cb = cb\<rparr>"
    by (cases "ectx fc e")
  from fc_inv_has(1) [OF assms] obtain s where s: "sc = Some s" "(fb = None) = (cb \<noteq> None)"
    by (auto simp: ec waiting_def)
  have "fc_events fc AND e \<noteq> 0" using assms(3) by (simp add: has_def)
  then show ?thesis using s
    by (cases cb) (simp_all add: triggerEvent_def getContext_ok [OF assms(2)] ec cleared_def
        waiter_task_def empty_ectx_def)
qed

lemma triggerEvent_not: "\<not> has fc e \<Longrightarrow> triggerEvent e fc = Inl (Abort ''events & event'')"
  by (simp add: triggerEvent_def has_def)

section \<open>The state the operations leave alone\<close>

text \<open>Waking and scheduling change neither the table nor the counters.\<close>

definition same_table :: "'cb io_manager \<Rightarrow> 'cb io_manager \<Rightarrow> bool" where
  "same_table io io' \<longleftrightarrow>
     m_fdContexts io' = m_fdContexts io \<and> io_ctx io' = io_ctx io \<and> io_next io' = io_next io
     \<and> io_ctl io' = io_ctl io \<and> m_pendingEventCount io' = m_pendingEventCount io"

lemma same_table_refl [simp]: "same_table io io"
  by (simp add: same_table_def)

lemma tickle_same_table [simp]: "same_table io ((io_tickle ^^ n) (io\<lparr>io_sched := s\<rparr>))"
  by (induction n) (auto simp: same_table_def io_tickle_def)

lemma on_sched_same_table [simp]: "same_table io (on_sched f io)"
  by (simp add: on_sched_def Let_def)

lemma post_same_table [simp]: "same_table io (post sc t io)"
  by (simp add: post_def) (simp add: same_table_def)

lemma trigger_ok:
  assumes "fc_inv (io_ctx io p)" and "e = READ \<or> e = WRITE" and "has (io_ctx io p) e"
  shows "trigger p e io = Inr (post (the (ec_scheduler (ectx (io_ctx io p) e)))
           (waiter_task (ectx (io_ctx io p) e)) (set_ctx p (cleared e (io_ctx io p)) io))"
  by (simp add: trigger_def triggerEvent_ok [OF assms])

lemma trigger_result:
  assumes "fc_inv (io_ctx io p)" and "e = READ \<or> e = WRITE" and "trigger p e io = Inr io'"
  shows "has (io_ctx io p) e" "m_fdContexts io' = m_fdContexts io" "io_next io' = io_next io"
    "io_ctl io' = io_ctl io" "m_pendingEventCount io' = m_pendingEventCount io"
    "io_ctx io' = (io_ctx io)(p := cleared e (io_ctx io p))"
proof -
  show h: "has (io_ctx io p) e"
    using assms(3) triggerEvent_not [of "io_ctx io p" e] by (cases "has (io_ctx io p) e") (auto simp: trigger_def)
  let ?io1 = "set_ctx p (cleared e (io_ctx io p)) io"
  have "same_table ?io1 io'"
    using assms(3) trigger_ok [OF assms(1,2) h] by auto
  then show "m_fdContexts io' = m_fdContexts io" "io_next io' = io_next io"
    "io_ctl io' = io_ctl io" "m_pendingEventCount io' = m_pendingEventCount io"
    "io_ctx io' = (io_ctx io)(p := cleared e (io_ctx io p))"
    by (simp_all add: same_table_def set_ctx_def)
qed

section \<open>The invariant\<close>

definition io_inv :: "'cb io_manager \<Rightarrow> bool" where
  "io_inv io \<longleftrightarrow>
     32 \<le> length (m_fdContexts io) \<and> distinct (m_fdContexts io)
     \<and> (\<forall>p\<in>set (m_fdContexts io). p < io_next io \<and> fc_inv (io_ctx io p))
     \<and> (\<forall>i<length (m_fdContexts io). fc_fd (io_ctx io (m_fdContexts io ! i)) = i)
     \<and> m_pendingEventCount io = of_nat (\<Sum>p\<in>set (m_fdContexts io). regs (io_ctx io p))
     \<and> accepted (io_ctl io)
     \<and> (\<forall>i. interest (io_ctl io) i =
          (if i < length (m_fdContexts io) \<and> fc_events (io_ctx io (m_fdContexts io ! i)) \<noteq> 0
           then Some (EPOLLET OR fc_events (io_ctx io (m_fdContexts io ! i))) else None))"

text \<open>The \<open>epoll_ctl\<close> operation that takes a descriptor from one event mask to another.\<close>

definition ctl_for :: "u32 \<Rightarrow> u32 \<Rightarrow> ctl_op" where
  "ctl_for old new = (if old = 0 then CTL_ADD else if new = 0 then CTL_DEL else CTL_MOD)"

lemma sum_update:
  fixes f :: "addr \<Rightarrow> nat"
  assumes "p \<in> set ps"
  shows "(\<Sum>q\<in>set ps. (f(p := n)) q) + f p = (\<Sum>q\<in>set ps. f q) + n"
proof -
  have "(\<Sum>q\<in>set ps - {p}. (f(p := n)) q) = (\<Sum>q\<in>set ps - {p}. f q)"
    by (rule sum.cong) auto
  then show ?thesis using assms by (simp add: sum.remove [of "set ps" p])
qed

text \<open>The pending count when one context changes.\<close>

lemma pending_update:
  assumes p: "p \<in> set ps" and ctx: "io_ctx io' = (io_ctx io)(p := fc)"
    and pend: "m_pendingEventCount io' + of_nat (regs (io_ctx io p))
      = m_pendingEventCount io + of_nat (regs fc)"
    and old: "m_pendingEventCount io = of_nat (\<Sum>q\<in>set ps. regs (io_ctx io q))"
  shows "m_pendingEventCount io' = of_nat (\<Sum>q\<in>set ps. regs (io_ctx io' q))"
proof -
  have eq: "(\<lambda>q. regs (io_ctx io' q)) = (\<lambda>q. regs (io_ctx io q))(p := regs fc)"
    by (auto simp: ctx)
  have "(\<Sum>q\<in>set ps. regs (io_ctx io' q)) + regs (io_ctx io p)
      = (\<Sum>q\<in>set ps. regs (io_ctx io q)) + regs fc"
    using sum_update [OF p, of "\<lambda>q. regs (io_ctx io q)" "regs fc"]
    by (simp only: eq [symmetric])
  then have "(of_nat ((\<Sum>q\<in>set ps. regs (io_ctx io' q)) + regs (io_ctx io p)) :: u64)
      = of_nat ((\<Sum>q\<in>set ps. regs (io_ctx io q)) + regs fc)" by (rule arg_cong)
  then have "of_nat (\<Sum>q\<in>set ps. regs (io_ctx io' q)) + of_nat (regs (io_ctx io p))
      = m_pendingEventCount io' + of_nat (regs (io_ctx io p))"
    using old pend by (simp only: of_nat_add)
  then show ?thesis by (metis add_right_cancel)
qed

text \<open>One context changes along with its registration.\<close>

lemma io_inv_update:
  assumes inv: "io_inv io" and i: "i < length (m_fdContexts io)" and p: "p = m_fdContexts io ! i"
    and same: "m_fdContexts io' = m_fdContexts io" "io_next io' = io_next io"
      "io_ctx io' = (io_ctx io)(p := fc)"
    and fc: "fc_inv fc" "fc_fd fc = i"
    and pend: "m_pendingEventCount io' + of_nat (regs (io_ctx io p))
      = m_pendingEventCount io + of_nat (regs fc)"
    and op: "fc_events (io_ctx io p) \<noteq> 0 \<or> fc_events fc \<noteq> 0"
    and log: "io_ctl io' = io_ctl io @ [\<lparr>ctl_op = ctl_for (fc_events (io_ctx io p)) (fc_events fc),
         ctl_fd = i, ctl_events = evs, ctl_rt = 0\<rparr>]"
    and evs: "fc_events fc \<noteq> 0 \<Longrightarrow> evs = EPOLLET OR fc_events fc"
  shows "io_inv io'"
proof -
  let ?ps = "m_fdContexts io"
  have pin: "p \<in> set ?ps" using i p by simp
  have ne: "j \<noteq> i \<Longrightarrow> j < length ?ps \<Longrightarrow> ?ps ! j \<noteq> p" for j
    using inv i p by (simp add: io_inv_def nth_eq_iff_index_eq)
  have P: "m_pendingEventCount io' = of_nat (\<Sum>q\<in>set ?ps. regs (io_ctx io' q))"
    using inv by (intro pending_update [OF pin same(3) pend]) (simp add: io_inv_def)
  have I: "interest (io_ctl io) i = (if fc_events (io_ctx io p) \<noteq> 0
      then Some (EPOLLET OR fc_events (io_ctx io p)) else None)"
    using inv i p by (simp add: io_inv_def)
  have A: "accepted (io_ctl io')"
  proof -
    have "accepted (io_ctl io)" using inv by (simp add: io_inv_def)
    with op show ?thesis by (simp add: log admissible_def ctl_for_def I)
  qed
  have J: "interest (io_ctl io') j =
      (if j < length ?ps \<and> fc_events (io_ctx io' (?ps ! j)) \<noteq> 0
       then Some (EPOLLET OR fc_events (io_ctx io' (?ps ! j))) else None)" for j
  proof (cases "j = i")
    case True
    then show ?thesis using i p op evs
      by (auto simp: log epoll_apply_def ctl_for_def same)
  next
    case False
    then have "interest (io_ctl io') j = interest (io_ctl io) j"
      by (simp add: log epoll_apply_def)
    moreover have "j < length ?ps \<Longrightarrow> io_ctx io' (?ps ! j) = io_ctx io (?ps ! j)"
      using ne [OF False] by (simp add: same)
    ultimately show ?thesis using inv by (simp add: io_inv_def)
  qed
  have F: "fc_fd (io_ctx io' (?ps ! j)) = j" if "j < length ?ps" for j
    using inv fc(2) ne [of j] that by (cases "j = i") (simp_all add: same p io_inv_def)
  have "\<forall>q\<in>set ?ps. q < io_next io' \<and> fc_inv (io_ctx io' q)"
    using inv fc(1) by (simp add: same io_inv_def)
  with inv P A J F show ?thesis by (simp add: io_inv_def same(1))
qed

text \<open>A failed call leaves everything but the log.\<close>

lemma io_inv_failed:
  assumes "io_inv io" and "rt \<noteq> 0"
  shows "io_inv (epoll_ctl op n evs rt io)"
  using assms by (simp add: io_inv_def epoll_ctl_def epoll_apply_def admissible_def)

lemma io_inv_same_table: "io_inv io \<Longrightarrow> same_table io io' \<Longrightarrow> io_inv io'"
  by (simp add: io_inv_def same_table_def)

lemma io_inv_ctx:
  assumes "io_inv io" and "i < length (m_fdContexts io)"
  shows "fc_inv (io_ctx io (m_fdContexts io ! i))" "fc_fd (io_ctx io (m_fdContexts io ! i)) = i"
  using assms by (simp_all add: io_inv_def)


section \<open>The operations keep the invariant\<close>

lemma fill_Some:
  "fill_contexts i (map Some ps @ qs) io =
     (case fill_contexts (i + length ps) qs io of (rs, io') \<Rightarrow> (ps @ rs, io'))"
  by (induction ps arbitrary: i) (simp_all split: prod.splits)

definition with_new :: "nat \<Rightarrow> nat \<Rightarrow> 'cb io_manager \<Rightarrow> 'cb io_manager" where
  "with_new i k io =
     io\<lparr>io_ctx := (\<lambda>p. if io_next io \<le> p \<and> p < io_next io + k then new_fd_context (i + (p - io_next io))
                      else io_ctx io p),
        io_next := io_next io + k\<rparr>"

lemma fill_None:
  "fill_contexts i (replicate k None) io = ([io_next io..<io_next io + k], with_new i k io)"
proof (induction k arbitrary: i io)
  case 0
  have "(\<lambda>p. if io_next io \<le> p \<and> p < io_next io + 0 then new_fd_context (i + (p - io_next io))
              else io_ctx io p) = io_ctx io" by (rule ext) auto
  then show ?case unfolding with_new_def by simp
next
  case (Suc k)
  let ?n = "io_next io"
  let ?io1 = "io\<lparr>io_ctx := (io_ctx io)(?n := new_fd_context i), io_next := Suc ?n\<rparr>"
  have "(\<lambda>p. if Suc ?n \<le> p \<and> p < Suc ?n + k then new_fd_context (Suc i + (p - Suc ?n))
             else ((io_ctx io)(?n := new_fd_context i)) p)
      = (\<lambda>p. if ?n \<le> p \<and> p < ?n + Suc k then new_fd_context (i + (p - ?n)) else io_ctx io p)"
    (is "?f = ?g")
  proof (rule ext)
    fix p
    show "?f p = ?g p" by (cases "p = ?n") (auto simp: Suc_diff_Suc [symmetric] not_le)
  qed
  then have "with_new (Suc i) k ?io1 = with_new i (Suc k) io"
    by (simp add: with_new_def del: fun_upd_apply cong: if_cong)
  moreover have "[?n..<?n + Suc k] = ?n # [Suc ?n..<Suc ?n + k]"
    by (simp add: upt_rec)
  ultimately show ?case using Suc [of "Suc i" ?io1] by (simp add: Let_def)
qed

lemma contextResize_grow:
  assumes "length (m_fdContexts io) \<le> n"
  defines "k \<equiv> n - length (m_fdContexts io)"
  shows "contextResize n io = (with_new (length (m_fdContexts io)) k io)
     \<lparr>m_fdContexts := m_fdContexts io @ [io_next io..<io_next io + k]\<rparr>"
proof -
  have "vec_resize n None (map Some (m_fdContexts io)) = map Some (m_fdContexts io) @ replicate k None"
    using assms by (simp add: vec_resize_extend)
  then show ?thesis by (simp add: contextResize_def fill_Some fill_None)
qed

lemma fc_inv_new: "fc_inv (new_fd_context i)" "regs (new_fd_context i) = 0"
  "fc_events (new_fd_context i) = 0" "fc_fd (new_fd_context i) = i"
  by (simp_all add: fc_inv_def regs_def has_def new_fd_context_def NONE_def)

lemma grown_contexts:
  assumes inv: "io_inv io" and n: "length (m_fdContexts io) \<le> n"
  obtains new k where
    "m_fdContexts (contextResize n io) = m_fdContexts io @ new" "length (m_fdContexts io @ new) = n"
    "new = [io_next io..<io_next io + k]" "io_next (contextResize n io) = io_next io + k"
    "m_pendingEventCount (contextResize n io) = m_pendingEventCount io" "io_ctl (contextResize n io) = io_ctl io"
    "\<And>q. q \<in> set (m_fdContexts io) \<Longrightarrow> io_ctx (contextResize n io) q = io_ctx io q"
    "\<And>q. q \<in> set new \<Longrightarrow>
       io_ctx (contextResize n io) q = new_fd_context (length (m_fdContexts io) + (q - io_next io))"
proof -
  let ?k = "n - length (m_fdContexts io)"
  have r: "contextResize n io = (with_new (length (m_fdContexts io)) ?k io)
      \<lparr>m_fdContexts := m_fdContexts io @ [io_next io..<io_next io + ?k]\<rparr>"
    using contextResize_grow [OF n] .
  have "io_ctx (contextResize n io) q = io_ctx io q" if "q \<in> set (m_fdContexts io)" for q
    using inv that by (auto simp: r with_new_def io_inv_def)
  then show thesis
    using n by (intro that [of "[io_next io..<io_next io + ?k]" ?k]) (simp_all add: r with_new_def)
qed

lemma io_inv_grow:
  assumes inv: "io_inv io" and n: "length (m_fdContexts io) \<le> n"
  shows "io_inv (contextResize n io)" "length (m_fdContexts (contextResize n io)) = n"
proof -
  define ps where "ps = m_fdContexts io"
  let ?io = "contextResize n io"
  obtain new k where g: "m_fdContexts ?io = ps @ new" "length (ps @ new) = n"
    "new = [io_next io..<io_next io + k]" "io_next ?io = io_next io + k"
    "m_pendingEventCount ?io = m_pendingEventCount io" "io_ctl ?io = io_ctl io"
    and old: "\<And>q. q \<in> set ps \<Longrightarrow> io_ctx ?io q = io_ctx io q"
    and newc: "\<And>q. q \<in> set new \<Longrightarrow> io_ctx ?io q = new_fd_context (length ps + (q - io_next io))"
    using grown_contexts [OF inv n] unfolding ps_def by blast
  show "length (m_fdContexts ?io) = n" by (simp only: g(1,2))
  have ctx: "fc_fd (io_ctx ?io ((ps @ new) ! i)) = i \<and> (i \<ge> length ps \<longrightarrow> fc_events (io_ctx ?io ((ps @ new) ! i)) = 0)
      \<and> (i < length ps \<longrightarrow> io_ctx ?io ((ps @ new) ! i) = io_ctx io (ps ! i))" if "i < n" for i
  proof (cases "i < length ps")
    case True
    then show ?thesis using old [of "ps ! i"] inv by (simp add: nth_append ps_def io_inv_def)
  next
    case False
    then have "(ps @ new) ! i = io_next io + (i - length ps)" "(ps @ new) ! i \<in> set new"
      using that g(2) by (auto simp: nth_append g(3))
    then show ?thesis using newc [of "(ps @ new) ! i"] False by (simp add: fc_inv_new)
  qed
  have disj: "set ps \<inter> set new = {}" using inv by (auto simp: g(3) ps_def io_inv_def)
  have sum: "(\<Sum>q\<in>set (ps @ new). regs (io_ctx ?io q)) = (\<Sum>q\<in>set ps. regs (io_ctx io q))"
    using disj by (simp add: sum.union_disjoint old newc fc_inv_new)
  have J: "interest (io_ctl ?io) i =
      (if i < length (ps @ new) \<and> fc_events (io_ctx ?io ((ps @ new) ! i)) \<noteq> 0
       then Some (EPOLLET OR fc_events (io_ctx ?io ((ps @ new) ! i))) else None)" for i
    using inv ctx [of i] n unfolding g(2,6)
    by (cases "i < length ps") (auto simp: io_inv_def ps_def)
  have W: "\<forall>q\<in>set (ps @ new). q < io_next ?io \<and> fc_inv (io_ctx ?io q)"
    using inv old newc by (auto simp: g(3,4) fc_inv_new io_inv_def ps_def)
  have D: "distinct (ps @ new)" using disj inv by (simp add: g(3) ps_def io_inv_def)
  have P: "m_pendingEventCount ?io = of_nat (\<Sum>q\<in>set (ps @ new). regs (io_ctx ?io q))"
    unfolding sum g(5) using inv by (simp add: io_inv_def ps_def)
  have F: "\<forall>i<length (ps @ new). fc_fd (io_ctx ?io ((ps @ new) ! i)) = i"
    using ctx unfolding g(2) by blast
  have "32 \<le> length (ps @ new)" "accepted (io_ctl ?io)" using inv n unfolding g(2,6) by (simp_all add: io_inv_def)
  then show "io_inv ?io" using D W F P J unfolding io_inv_def g(1) by blast
qed

lemma addEvent_grow_result:
  assumes inv: "io_inv io" and "\<not> fd < int (length (m_fdContexts io))"
  obtains io1 where "addEvent_grow fd io = Inr (m_fdContexts io1 ! nat fd, io1)" "io_inv io1"
    "nat fd < length (m_fdContexts io1)" "io1 = contextResize (nat (3 * fd div 2)) io"
proof -
  let ?n = "nat (3 * fd div 2)"
  have l: "32 \<le> length (m_fdContexts io)" using inv by (simp add: io_inv_def)
  then have n: "length (m_fdContexts io) \<le> ?n" and f: "nat fd < ?n" "0 \<le> fd" "fd < int ?n"
    using assms(2) by auto
  from io_inv_grow [OF inv n] f that show thesis
    by (simp add: addEvent_grow_def context_at_def Let_def)
qed

lemma epoll_ctl_fields [simp]:
  "m_fdContexts (epoll_ctl op n e rt io) = m_fdContexts io" "io_ctx (epoll_ctl op n e rt io) = io_ctx io"
  "io_next (epoll_ctl op n e rt io) = io_next io"
  "m_pendingEventCount (epoll_ctl op n e rt io) = m_pendingEventCount io"
  "io_ctl (epoll_ctl op n e rt io)
     = io_ctl io @ [\<lparr>ctl_op = op, ctl_fd = n, ctl_events = e, ctl_rt = rt\<rparr>]"
  by (simp_all add: epoll_ctl_def)

lemma set_ctx_fields [simp]:
  "m_fdContexts (set_ctx p fc io) = m_fdContexts io" "io_ctx (set_ctx p fc io) = (io_ctx io)(p := fc)"
  "io_next (set_ctx p fc io) = io_next io"
  "m_pendingEventCount (set_ctx p fc io) = m_pendingEventCount io"
  "io_ctl (set_ctx p fc io) = io_ctl io"
  by (simp_all add: set_ctx_def)

text \<open>The context after a successful registration of \<open>e\<close> for waiter \<open>ec\<close>.\<close>

definition registered :: "u32 \<Rightarrow> 'cb event_context \<Rightarrow> 'cb fd_context \<Rightarrow> 'cb fd_context" where
  "registered e ec fc = setContext e ec (fc\<lparr>fc_events := fc_events fc OR e\<rparr>)"

lemma registered_inv:
  assumes "fc_inv fc" and "e = READ \<or> e = WRITE" and "\<not> has fc e" and "waiting ec"
  shows "fc_inv (registered e ec fc)" "regs (registered e ec fc) = Suc (regs fc)"
    "fc_fd (registered e ec fc) = fc_fd fc" "fc_events (registered e ec fc) = fc_events fc OR e"
    "fc_events fc OR e \<noteq> 0"
  using assms by (elim fc_cases; elim disjE; simp add: fc_inv_def has_def registered_def setContext_def
      regs_def ev_defs)+

text \<open>The waiter \<open>addEvent\<close> registers.\<close>

definition new_waiter :: "'cb timer_fn option \<Rightarrow> addr option \<Rightarrow> addr \<Rightarrow> 'cb event_context" where
  "new_waiter cb sched cur =
     \<lparr>ec_scheduler = sched, ec_fiber = (if cb = None then Some cur else None), ec_cb = cb\<rparr>"

lemma waiting_new: "sched \<noteq> None \<Longrightarrow> waiting (new_waiter cb sched cur)"
  by (auto simp: waiting_def new_waiter_def)

text \<open>What \<open>addEvent\<close> does under the context's lock.\<close>

lemma addEvent_on_ok:
  fixes fd :: fd and rt :: int
  assumes "fc_inv (io_ctx io p)" and e: "e = READ \<or> e = WRITE" and "\<not> has (io_ctx io p) e"
    and cur: "cb = None \<Longrightarrow> snd cur = EXEC"
  defines "fc \<equiv> io_ctx io p"
  defines "io1 \<equiv> epoll_ctl (ctl_for (fc_events fc) (fc_events fc OR e)) (nat fd)
             (EPOLLET OR (fc_events fc OR e)) rt io"
  shows "addEvent_on p fd e cb sched cur rt io =
     (if rt \<noteq> 0 then Inr (-1, io1)
      else Inr (0, set_ctx p (registered e (new_waiter cb sched (fst cur)) fc)
                     (io1\<lparr>m_pendingEventCount := m_pendingEventCount io1 + 1\<rparr>)))"
proof -
  have op: "ctl_for (fc_events fc) (fc_events fc OR e) = (if fc_events fc \<noteq> 0 then CTL_MOD else CTL_ADD)"
    using assms(1) e unfolding fc_def
    by (elim fc_cases; elim disjE) (simp_all add: ctl_for_def ev_defs)
  have h: "fc_events fc AND e = 0" using assms(3) by (simp add: has_def fc_def)
  have ec: "ectx fc e = empty_ectx" using fc_inv_has(2) [OF assms(1) e assms(3)] by (simp add: fc_def)
  show ?thesis
    using h cur ec
    by (auto simp: addEvent_on_def Let_def fc_def [symmetric] op io1_def registered_def new_waiter_def
        getContext_ok [OF e] empty_ectx_def)
qed

lemma addEvent_on_Inr:
  assumes "fc_inv (io_ctx io p)" and "addEvent_on p fd e cb sched cur rt io = Inr (r, io')"
  shows "\<not> has (io_ctx io p) e" "rt = 0 \<Longrightarrow> (e = READ \<or> e = WRITE) \<and> (cb = None \<longrightarrow> snd cur = EXEC)"
    "rt \<noteq> 0 \<Longrightarrow> \<exists>op evs. io' = epoll_ctl op (nat fd) evs rt io"
  using assms(2)
  by (auto simp: addEvent_on_def has_def Let_def split: if_splits dest: getContext_Inr)

lemma addEvent_on_inv:
  assumes inv: "io_inv io" and i: "nat fd < length (m_fdContexts io)"
    and p: "p = m_fdContexts io ! nat fd" and sc: "sched \<noteq> None"
    and r: "addEvent_on p fd e cb sched cur rt io = Inr (r, io')"
  shows "io_inv io'"
proof -
  have fc: "fc_inv (io_ctx io p)" "fc_fd (io_ctx io p) = nat fd" using io_inv_ctx [OF inv i] p by simp_all
  note R = addEvent_on_Inr [OF fc(1) r]
  show ?thesis
  proof (cases "rt = 0")
    case True
    have e: "e = READ \<or> e = WRITE" and c: "cb = None \<Longrightarrow> snd cur = EXEC" using R(2) True by auto
    let ?w = "new_waiter cb sched (fst cur)"
    note g = registered_inv [OF fc(1) e R(1) waiting_new [OF sc, of cb "fst cur"]]
    have io': "io' = set_ctx p (registered e ?w (io_ctx io p))
        ((epoll_ctl (ctl_for (fc_events (io_ctx io p)) (fc_events (io_ctx io p) OR e)) (nat fd)
             (EPOLLET OR (fc_events (io_ctx io p) OR e)) 0 io)\<lparr>m_pendingEventCount := m_pendingEventCount io + 1\<rparr>)"
      using r addEvent_on_ok [OF fc(1) e R(1) c, where fd = fd and sched = sched and rt = rt] True by simp
    show ?thesis
      by (rule io_inv_update [OF inv i p, of _ "registered e ?w (io_ctx io p)"
            "EPOLLET OR (fc_events (io_ctx io p) OR e)"])
        (simp_all add: io' g fc)
  next
    case False
    then obtain op evs where "io' = epoll_ctl op (nat fd) evs rt io" using R(3) by blast
    then show ?thesis using io_inv_failed [OF inv False] by simp
  qed
qed

lemma context_at_ok:
  assumes "fd < int (length (m_fdContexts io))" and "context_at fd io = Inr p"
  shows "nat fd < length (m_fdContexts io)" "p = m_fdContexts io ! nat fd" "0 \<le> fd"
  using assms by (auto simp: context_at_def split: if_splits)

lemma addEvent_inv:
  assumes inv: "io_inv io" and sc: "sched \<noteq> None" and r: "addEvent fd e cb sched cur rt io = Inr (x, io')"
  shows "io_inv io'"
proof (cases "fd < int (length (m_fdContexts io))")
  case True
  then obtain p where p: "context_at fd io = Inr p" and a: "addEvent_on p fd e cb sched cur rt io = Inr (x, io')"
    using r by (auto simp: addEvent_def addEvent_lookup_def)
  from addEvent_on_inv [OF inv context_at_ok(1,2) [OF True p] sc a] show ?thesis .
next
  case False
  from addEvent_grow_result [OF inv False] obtain io1 where
    g: "addEvent_grow fd io = Inr (m_fdContexts io1 ! nat fd, io1)" "io_inv io1"
      "nat fd < length (m_fdContexts io1)" by blast
  with False r have "addEvent_on (m_fdContexts io1 ! nat fd) fd e cb sched cur rt io1 = Inr (x, io')"
    by (auto simp: addEvent_def addEvent_lookup_def)
  from addEvent_on_inv [OF g(2,3) refl sc this] show ?thesis .
qed


text \<open>Removing one event.\<close>

lemma io_inv_clear:
  assumes inv: "io_inv io" and i: "i < length (m_fdContexts io)" and p: "p = m_fdContexts io ! i"
    and e: "e = READ \<or> e = WRITE" "has (io_ctx io p) e"
    and io': "m_fdContexts io' = m_fdContexts io" "io_next io' = io_next io"
      "io_ctx io' = (io_ctx io)(p := cleared e (io_ctx io p))"
      "m_pendingEventCount io' = m_pendingEventCount io - 1"
      "io_ctl io' = io_ctl io @ [\<lparr>ctl_op = ctl_for (fc_events (io_ctx io p)) (fc_events (io_ctx io p) AND NOT e),
         ctl_fd = i, ctl_events = EPOLLET OR fc_events (io_ctx io p) AND NOT e, ctl_rt = 0\<rparr>]"
  shows "io_inv io'"
proof -
  have fc: "fc_inv (io_ctx io p)" "fc_fd (io_ctx io p) = i" using io_inv_ctx [OF inv i] p by simp_all
  have ev: "fc_events (io_ctx io p) \<noteq> 0" using e(2) by (auto simp: has_def)
  note rc = regs_cleared [OF fc(1) e]
  show ?thesis
    by (rule io_inv_update [OF inv i p io'(1-3) fc_inv_cleared [OF fc(1) e(1)] _ _ _ _,
          where evs = "EPOLLET OR fc_events (io_ctx io p) AND NOT e"])
      (simp_all add: fc io'(4,5) rc ev)
qed

definition del_call :: "addr \<Rightarrow> fd \<Rightarrow> u32 \<Rightarrow> int \<Rightarrow> 'cb io_manager \<Rightarrow> 'cb io_manager" where
  "del_call p fd e rt io =
     epoll_ctl (ctl_for (fc_events (io_ctx io p)) (fc_events (io_ctx io p) AND NOT e)) (nat fd)
       (EPOLLET OR fc_events (io_ctx io p) AND NOT e) rt io"

lemma has_op: "has fc e \<Longrightarrow>
    ctl_for (fc_events fc) (fc_events fc AND NOT e)
      = (if fc_events fc AND NOT e \<noteq> 0 then CTL_MOD else CTL_DEL)"
  by (auto simp: has_def ctl_for_def)

lemma delEvent_on_ok:
  assumes "e = READ \<or> e = WRITE"
  shows "delEvent_on p fd e rt io =
     (if \<not> has (io_ctx io p) e then Inr (False, io)
      else if rt \<noteq> 0 then Inr (False, del_call p fd e rt io)
      else Inr (True, set_ctx p (cleared e (io_ctx io p))
             ((del_call p fd e rt io)\<lparr>m_pendingEventCount := m_pendingEventCount io - 1\<rparr>)))"
  using has_op [of "io_ctx io p" e]
  by (auto simp: delEvent_on_def del_call_def has_def Let_def getContext_ok [OF assms]
      resetContext_empty cleared_def)

lemma cancelEvent_on_ok:
  assumes "fc_inv (io_ctx io p)" and e: "e = READ \<or> e = WRITE"
  shows "cancelEvent_on p fd e rt io =
     (if \<not> has (io_ctx io p) e then Inr (False, io)
      else if rt \<noteq> 0 then Inr (False, del_call p fd e rt io)
      else Inr (True, post (the (ec_scheduler (ectx (io_ctx io p) e))) (waiter_task (ectx (io_ctx io p) e))
             (set_ctx p (cleared e (io_ctx io p))
               ((del_call p fd e rt io)\<lparr>m_pendingEventCount := m_pendingEventCount io - 1\<rparr>))))"
proof (cases "has (io_ctx io p) e \<and> rt = 0")
  case True
  let ?io2 = "(del_call p fd e rt io)\<lparr>m_pendingEventCount := m_pendingEventCount io - 1\<rparr>"
  have c: "io_ctx (del_call p fd e r io) = io_ctx io" for r by (simp add: del_call_def)
  have "trigger p e ?io2 = Inr (post (the (ec_scheduler (ectx (io_ctx io p) e)))
      (waiter_task (ectx (io_ctx io p) e)) (set_ctx p (cleared e (io_ctx io p)) ?io2))"
    using trigger_ok [of ?io2 p e] assms True by (simp add: c)
  then show ?thesis using True has_op [of "io_ctx io p" e]
    by (simp add: cancelEvent_on_def del_call_def has_def Let_def)
next
  case False
  then show ?thesis using has_op [of "io_ctx io p" e]
    by (auto simp: cancelEvent_on_def del_call_def has_def Let_def)
qed

lemma not_event_Inl:
  assumes "\<not> (e = READ \<or> e = WRITE)"
  shows "getContext fc e \<noteq> Inr ec" "trigger p e io \<noteq> Inr io'"
proof -
  show g: "getContext fc e \<noteq> Inr ec" for fc :: "'z fd_context" and ec
    using assms by (auto simp: getContext_def)
  show "trigger p e io \<noteq> Inr io'"
    using g by (auto simp: trigger_def triggerEvent_def Let_def split: if_splits)
qed

lemma delEvent_on_inv:
  assumes inv: "io_inv io" and i: "nat fd < length (m_fdContexts io)"
    and p: "p = m_fdContexts io ! nat fd" and r: "delEvent_on p fd e rt io = Inr (x, io')"
  shows "io_inv io'"
proof (cases "(e = READ \<or> e = WRITE) \<and> has (io_ctx io p) e \<and> rt = 0")
  case True
  then have "io' = set_ctx p (cleared e (io_ctx io p))
      ((del_call p fd e rt io)\<lparr>m_pendingEventCount := m_pendingEventCount io - 1\<rparr>)"
    using r delEvent_on_ok [of e p fd rt io] by auto
  then show ?thesis using True by (intro io_inv_clear [OF inv i p, of e]) (simp_all add: del_call_def)
next
  case False
  have "io' = io \<or> (rt \<noteq> 0 \<and> (\<exists>op evs. io' = epoll_ctl op (nat fd) evs rt io))"
    using r False
    by (auto simp: delEvent_on_def has_def Let_def not_event_Inl split: if_splits)
  then show ?thesis using inv io_inv_failed [OF inv] by blast
qed

lemma cancelEvent_on_inv:
  assumes inv: "io_inv io" and i: "nat fd < length (m_fdContexts io)"
    and p: "p = m_fdContexts io ! nat fd" and r: "cancelEvent_on p fd e rt io = Inr (x, io')"
  shows "io_inv io'"
proof (cases "(e = READ \<or> e = WRITE) \<and> has (io_ctx io p) e \<and> rt = 0")
  case True
  have fc: "fc_inv (io_ctx io p)" using io_inv_ctx [OF inv i] p by simp
  let ?io1 = "set_ctx p (cleared e (io_ctx io p))
      ((del_call p fd e rt io)\<lparr>m_pendingEventCount := m_pendingEventCount io - 1\<rparr>)"
  obtain sc t where "io' = post sc t ?io1"
    using r True cancelEvent_on_ok [OF fc, of e fd rt] by auto
  moreover have "io_inv ?io1"
    using True by (intro io_inv_clear [OF inv i p, of e]) (simp_all add: del_call_def)
  ultimately show ?thesis using io_inv_same_table [OF _ post_same_table] by blast
next
  case False
  have "io' = io \<or> (rt \<noteq> 0 \<and> (\<exists>op evs. io' = epoll_ctl op (nat fd) evs rt io))"
    using r False
    by (auto simp: cancelEvent_on_def has_def Let_def not_event_Inl split: if_splits)
  then show ?thesis using inv io_inv_failed [OF inv] by blast
qed

lemma trigger_if_result:
  assumes "fc_inv (io_ctx io p)" and "e = READ \<or> e = WRITE" and "trigger_if c p e io = Inr io'"
  shows "c \<Longrightarrow> has (io_ctx io p) e" "m_fdContexts io' = m_fdContexts io" "io_next io' = io_next io"
    "io_ctl io' = io_ctl io" "m_pendingEventCount io' = m_pendingEventCount io - of_bool c"
    "io_ctx io' = (if c then (io_ctx io)(p := cleared e (io_ctx io p)) else io_ctx io)"
proof -
  consider (no) "\<not> c" "io' = io"
    | (yes) io1 where "c" "trigger p e io = Inr io1"
        "io' = io1\<lparr>m_pendingEventCount := m_pendingEventCount io1 - 1\<rparr>"
    using assms(3) by (auto simp: trigger_if_def split: if_splits)
  then have "(c \<longrightarrow> has (io_ctx io p) e) \<and> m_fdContexts io' = m_fdContexts io \<and> io_next io' = io_next io
      \<and> io_ctl io' = io_ctl io \<and> m_pendingEventCount io' = m_pendingEventCount io - of_bool c
      \<and> io_ctx io' = (if c then (io_ctx io)(p := cleared e (io_ctx io p)) else io_ctx io)"
  proof cases
    case yes
    note t = trigger_result [OF assms(1,2) yes(2)]
    show ?thesis using yes(1,3) t by simp
  qed simp
  then show "c \<Longrightarrow> has (io_ctx io p) e" "m_fdContexts io' = m_fdContexts io" "io_next io' = io_next io"
    "io_ctl io' = io_ctl io" "m_pendingEventCount io' = m_pendingEventCount io - of_bool c"
    "io_ctx io' = (if c then (io_ctx io)(p := cleared e (io_ctx io p)) else io_ctx io)"
    by blast+
qed

text \<open>Triggering both events, as \<open>cancelAll\<close> and the idle loop do.\<close>

lemma trigger_both:
  assumes fc: "fc_inv (io_ctx io p)"
    and 1: "trigger_if cr p READ io = Inr io1" and 2: "trigger_if cw p WRITE io1 = Inr io2"
  defines "fc' \<equiv> (if cw then cleared WRITE else (\<lambda>x. x)) ((if cr then cleared READ else (\<lambda>x. x)) (io_ctx io p))"
  shows "cr \<Longrightarrow> has (io_ctx io p) READ" "cw \<Longrightarrow> has (io_ctx io p) WRITE"
    "m_fdContexts io2 = m_fdContexts io" "io_next io2 = io_next io" "io_ctl io2 = io_ctl io"
    "io_ctx io2 = (io_ctx io)(p := fc')" "fc_inv fc'" "fc_fd fc' = fc_fd (io_ctx io p)"
    "fc_events fc' = fc_events (io_ctx io p) AND NOT ((if cr then READ else 0) OR (if cw then WRITE else 0))"
    "m_pendingEventCount io2 + of_nat (regs (io_ctx io p)) = m_pendingEventCount io + of_nat (regs fc')"
proof -
  note r1 = trigger_if_result [OF fc _ 1, simplified]
  have fc1: "fc_inv (io_ctx io1 p)" using r1(6) fc fc_inv_cleared [OF fc] by auto
  note r2 = trigger_if_result [OF fc1 _ 2, simplified]
  have h: "has (io_ctx io1 p) WRITE \<Longrightarrow> has (io_ctx io p) WRITE"
    using fc by (elim fc_cases) (auto simp: r1(6) has_def ev_defs split: if_splits)
  show "cr \<Longrightarrow> has (io_ctx io p) READ" by (rule r1(1))
  show "cw \<Longrightarrow> has (io_ctx io p) WRITE" using r2(1) h by blast
  show "m_fdContexts io2 = m_fdContexts io" "io_next io2 = io_next io" "io_ctl io2 = io_ctl io"
    using r1 r2 by simp_all
  show "io_ctx io2 = (io_ctx io)(p := fc')" using r1(6) r2(6) by (auto simp: fc'_def)
  show "fc_inv fc'" using fc by (auto simp: fc'_def intro!: fc_inv_cleared)
  show "fc_fd fc' = fc_fd (io_ctx io p)" by (simp add: fc'_def)
  show "fc_events fc' = fc_events (io_ctx io p) AND NOT ((if cr then READ else 0) OR (if cw then WRITE else 0))"
    by (auto simp: fc'_def and.assoc)
  have a: "regs (io_ctx io p) = regs (io_ctx io1 p) + of_bool cr"
    using regs_cleared [OF fc, of READ] r1(1,6) by auto
  have b: "regs (io_ctx io1 p) = regs fc' + of_bool cw"
    using regs_cleared [OF fc1, of WRITE] r2(1) r1(6) by (auto simp: fc'_def)
  show "m_pendingEventCount io2 + of_nat (regs (io_ctx io p)) = m_pendingEventCount io + of_nat (regs fc')"
    using r1(5) r2(5) by (simp add: a b)
qed


text \<open>The bits an epoll report stands for, errors and hang-ups counting as both.\<close>

definition reported :: "u32 \<Rightarrow> u32 \<Rightarrow> bool" where
  "reported evs e \<longleftrightarrow> evs AND (EPOLLERR OR EPOLLHUP) \<noteq> 0 \<or> evs AND e \<noteq> 0"

definition report_mask :: "u32 \<Rightarrow> u32" where
  "report_mask evs = (if reported evs EPOLLIN then READ else 0) OR (if reported evs EPOLLOUT then WRITE else 0)"

lemma reported_iff:
  "(if evs AND (EPOLLERR OR EPOLLHUP) \<noteq> 0 then evs OR EPOLLIN OR EPOLLOUT else evs) AND EPOLLIN \<noteq> 0
     \<longleftrightarrow> reported evs EPOLLIN"
  "(if evs AND (EPOLLERR OR EPOLLHUP) \<noteq> 0 then evs OR EPOLLIN OR EPOLLOUT else evs) AND EPOLLOUT \<noteq> 0
     \<longleftrightarrow> reported evs EPOLLOUT"
  by (auto simp: reported_def EPOLLIN_def EPOLLOUT_def word_ao_dist bit.conj_disj_distrib2)

lemma mask_bits:
  "((if a then READ else 0) OR (if b then WRITE else 0)) AND READ \<noteq> 0 \<longleftrightarrow> a"
  "((if a then READ else 0) OR (if b then WRITE else 0)) AND WRITE \<noteq> 0 \<longleftrightarrow> b"
  by (simp_all add: ev_defs)

lemma process_event_Ctx:
  "process_event (Ctx p, evs, rt) io =
     (let fc = io_ctx io p; left = fc_events fc AND NOT (report_mask evs);
          io1 = epoll_ctl (if left \<noteq> 0 then CTL_MOD else CTL_DEL) (fc_fd fc) (EPOLLET OR left) rt io
      in if fc_events fc AND report_mask evs = 0 then Inr io
         else if rt \<noteq> 0 then Inr io1
         else res_bind (trigger_if (reported evs EPOLLIN) p READ io1)
                (trigger_if (reported evs EPOLLOUT) p WRITE))"
proof -
  have real: "(if evs' AND EPOLLOUT \<noteq> 0 then (if evs' AND EPOLLIN \<noteq> 0 then NONE OR READ else NONE) OR WRITE
       else if evs' AND EPOLLIN \<noteq> 0 then NONE OR READ else NONE) = report_mask evs"
    if "evs' = (if evs AND (EPOLLERR OR EPOLLHUP) \<noteq> 0 then evs OR EPOLLIN OR EPOLLOUT else evs)" for evs'
    unfolding that reported_iff by (simp add: report_mask_def NONE_def)
  have bits: "report_mask evs AND READ \<noteq> 0 \<longleftrightarrow> reported evs EPOLLIN"
    "report_mask evs AND WRITE \<noteq> 0 \<longleftrightarrow> reported evs EPOLLOUT"
    unfolding report_mask_def mask_bits by simp_all
  have N: "NONE = 0" by (simp add: NONE_def)
  show ?thesis
    unfolding process_event_def Let_def prod.case ev_source.case real [OF refl] unfolding bits N by (rule refl)
qed

lemma process_event_inv:
  assumes inv: "io_inv io" and p: "p \<in> set (m_fdContexts io)"
    and r: "process_event (Ctx p, evs, rt) io = Inr io'"
  shows "io_inv io'"
proof -
  obtain i where i: "i < length (m_fdContexts io)" "p = m_fdContexts io ! i"
    using p by (auto simp: in_set_conv_nth)
  have fc: "fc_inv (io_ctx io p)" "fc_fd (io_ctx io p) = i" using io_inv_ctx [OF inv i(1)] i(2) by simp_all
  define left where "left = fc_events (io_ctx io p) AND NOT (report_mask evs)"
  define io1 where "io1 = epoll_ctl (if left \<noteq> 0 then CTL_MOD else CTL_DEL) i (EPOLLET OR left) rt io"
  consider (skip) "io' = io" | (fail) "rt \<noteq> 0" "io' = io1"
    | (go) io2 where "fc_events (io_ctx io p) AND report_mask evs \<noteq> 0" "rt = 0"
        "trigger_if (reported evs EPOLLIN) p READ io1 = Inr io2"
        "trigger_if (reported evs EPOLLOUT) p WRITE io2 = Inr io'"
    using r unfolding process_event_Ctx Let_def fc(2) left_def [symmetric] io1_def [symmetric]
    by (auto split: if_splits)
  then show ?thesis
  proof cases
    case skip
    then show ?thesis using inv by simp
  next
    case fail
    then show ?thesis using io_inv_failed [OF inv fail(1)] by (simp add: io1_def)
  next
    case go
    have c1: "io_ctx io1 p = io_ctx io p" by (simp add: io1_def)
    note t = trigger_both [OF _ go(3,4), unfolded c1, OF fc(1)]
    have ev: "fc_events (io_ctx io p) \<noteq> 0" using go(1) by auto
    have op: "ctl_for (fc_events (io_ctx io p)) left = (if left \<noteq> 0 then CTL_MOD else CTL_DEL)"
      using ev by (simp add: ctl_for_def)
    have l: "fc_events (io_ctx io p) AND NOT ((if reported evs EPOLLIN then READ else 0)
        OR (if reported evs EPOLLOUT then WRITE else 0)) = left"
      by (simp add: left_def report_mask_def)
    note t' = t(9) [unfolded l]
    show ?thesis
      by (rule io_inv_update [OF inv i _ _ _ t(7), where evs = "EPOLLET OR left"])
        (simp_all only: t(3,4,5,6,8,10) t' op io1_def epoll_ctl_fields fc(2) go(2) ev simp_thms not_True_eq_False)
  qed
qed

lemma cancelAll_on_inv:
  assumes inv: "io_inv io" and i: "nat fd < length (m_fdContexts io)"
    and p: "p = m_fdContexts io ! nat fd" and r: "cancelAll_on p fd rt io = Inr (x, io')"
  shows "io_inv io'"
proof -
  define io1 where "io1 = epoll_ctl CTL_DEL (nat fd) 0 rt io"
  have fc: "fc_inv (io_ctx io p)" "fc_fd (io_ctx io p) = nat fd" using io_inv_ctx [OF inv i] p by simp_all
  consider (skip) "io' = io" | (fail) "rt \<noteq> 0" "io' = io1"
    | (go) io2 where "fc_events (io_ctx io p) \<noteq> 0" "rt = 0"
        "trigger_if (fc_events (io_ctx io p) AND READ \<noteq> 0) p READ io1 = Inr io2"
        "trigger_if (fc_events (io_ctx io2 p) AND WRITE \<noteq> 0) p WRITE io2 = Inr io'"
        "fc_events (io_ctx io' p) = 0"
    using r unfolding cancelAll_on_def Let_def io1_def [symmetric]
    by (auto simp: io1_def split: if_splits)
  then show ?thesis
  proof cases
    case skip
    then show ?thesis using inv by simp
  next
    case fail
    then show ?thesis using io_inv_failed [OF inv fail(1)] by (simp add: io1_def)
  next
    case go
    have c1: "io_ctx io1 p = io_ctx io p" by (simp add: io1_def)
    note t = trigger_both [OF _ go(3,4), unfolded c1, OF fc(1)]
    have z: "fc_events (io_ctx io' p) = 0" by (rule go(5))
    show ?thesis
      by (rule io_inv_update [OF inv i p _ _ _ t(7), where evs = 0])
        (use go(1,2) z t(3,4,5,6,8,10) in \<open>simp_all add: io1_def fc(2) ctl_for_def\<close>)
  qed
qed

section \<open>Runs\<close>

text \<open>Any sequence of calls, by threads that run under a scheduler, and of idle rounds; in between
  the scheduler and the timers may change in any way.\<close>

inductive io_step :: "'cb io_manager \<Rightarrow> 'cb io_manager \<Rightarrow> bool" where
  io_add: "sched \<noteq> None \<Longrightarrow> addEvent fd e cb sched cur rt io = Inr (r, io') \<Longrightarrow> io_step io io'"
| io_del: "delEvent fd e rt io = Inr (b, io') \<Longrightarrow> io_step io io'"
| io_cancel: "cancelEvent fd e rt io = Inr (b, io') \<Longrightarrow> io_step io io'"
| io_cancel_all: "cancelAll fd rt io = Inr (b, io') \<Longrightarrow> io_step io io'"
| io_idle: "\<forall>e\<in>set es. \<forall>p. fst e = Ctx p \<longrightarrow> p \<in> set (m_fdContexts io) \<Longrightarrow>
     idle_end now probe es io = Inr io' \<Longrightarrow> io_step io io'"
| io_other: "io_step io (io\<lparr>io_sched := s, io_timers := tm, io_pipe := n\<rparr>)"

lemma post_table: "m_fdContexts (post sc t io) = m_fdContexts io"
  using post_same_table [of io sc t] by (simp add: same_table_def)

lemma process_event_table:
  assumes "io_inv io" and "\<forall>p. fst e = Ctx p \<longrightarrow> p \<in> set (m_fdContexts io)" and "process_event e io = Inr io'"
  shows "io_inv io'" "m_fdContexts io' = m_fdContexts io"
proof -
  obtain src evs rt where e: "e = (src, evs, rt)" by (cases e)
  show "io_inv io'"
  proof (cases src)
    case Tickle_pipe
    then have "same_table io io'" using assms(3) by (auto simp: e process_event_def same_table_def)
    then show ?thesis by (rule io_inv_same_table [OF assms(1)])
  next
    case (Ctx p)
    then show ?thesis using assms process_event_inv [OF assms(1)] by (auto simp: e)
  qed
  have m: "trigger_if c p w a = Inr b \<Longrightarrow> m_fdContexts b = m_fdContexts a" for c p w and a b :: "'a io_manager"
    by (auto simp: trigger_if_def trigger_def post_table split: if_splits prod.splits)
  show "m_fdContexts io' = m_fdContexts io"
    using assms(3)
    by (cases src) (auto simp: e process_event_def Let_def split: if_splits dest!: m)
qed

lemma process_events_inv:
  "io_inv io \<Longrightarrow> \<forall>e\<in>set es. \<forall>p. fst e = Ctx p \<longrightarrow> p \<in> set (m_fdContexts io) \<Longrightarrow>
     process_events es io = Inr io' \<Longrightarrow> io_inv io'"
proof (induction es arbitrary: io)
  case (Cons e es)
  then obtain io1 where 1: "process_event e io = Inr io1" "process_events es io1 = Inr io'" by auto
  have pe: "\<forall>p. fst e = Ctx p \<longrightarrow> p \<in> set (m_fdContexts io)" using Cons.prems(2) by simp
  note t = process_event_table [OF Cons.prems(1) pe 1(1)]
  show ?case by (rule Cons.IH [OF t(1) _ 1(2)]) (use Cons.prems(2) t(2) in simp)
qed simp

lemma idle_end_inv:
  assumes "io_inv io" and "\<forall>e\<in>set es. \<forall>p. fst e = Ctx p \<longrightarrow> p \<in> set (m_fdContexts io)"
    and "idle_end now probe es io = Inr io'"
  shows "io_inv io'"
proof -
  have o: "same_table io (if cbs \<noteq> [] then on_sched f (io\<lparr>io_timers := tm\<rparr>) else io\<lparr>io_timers := tm\<rparr>)"
    for cbs :: "'a timer_fn option list" and f tm
    using on_sched_same_table [of "io\<lparr>io_timers := tm\<rparr>" f] by (simp add: same_table_def)
  from assms(3) obtain cbs tm where "process_events es
      (if cbs \<noteq> [] then on_sched (\<lambda>s. snd (schedule_range cb_task cbs s)) (io\<lparr>io_timers := tm\<rparr>)
       else io\<lparr>io_timers := tm\<rparr>) = Inr io'"
    unfolding idle_end_def Let_def res_bind_Inr_iff by (elim exE conjE) (simp split: prod.splits)
  then obtain io2 where r: "process_events es io2 = Inr io'" and s: "same_table io io2"
    using o by blast
  show ?thesis
    by (rule process_events_inv [OF io_inv_same_table [OF assms(1) s] _ r])
      (use assms(2) s in \<open>simp add: same_table_def\<close>)
qed

lemma delEvent_inv:
  assumes inv: "io_inv io" and r: "delEvent fd e rt io = Inr (b, io')"
  shows "io_inv io'"
proof (cases "int (length (m_fdContexts io)) \<le> fd")
  case True
  then show ?thesis using inv r by (simp add: delEvent_def)
next
  case False
  then obtain p where p: "context_at fd io = Inr p" "delEvent_on p fd e rt io = Inr (b, io')"
    using r by (auto simp: delEvent_def)
  have "fd < int (length (m_fdContexts io))" using False by simp
  from delEvent_on_inv [OF inv context_at_ok(1,2) [OF this p(1)] p(2)] show ?thesis .
qed

lemma cancelEvent_inv:
  assumes inv: "io_inv io" and r: "cancelEvent fd e rt io = Inr (b, io')"
  shows "io_inv io'"
proof (cases "int (length (m_fdContexts io)) \<le> fd")
  case True
  then show ?thesis using inv r by (simp add: cancelEvent_def)
next
  case False
  then obtain p where p: "context_at fd io = Inr p" "cancelEvent_on p fd e rt io = Inr (b, io')"
    using r by (auto simp: cancelEvent_def)
  have "fd < int (length (m_fdContexts io))" using False by simp
  from cancelEvent_on_inv [OF inv context_at_ok(1,2) [OF this p(1)] p(2)] show ?thesis .
qed

lemma cancelAll_inv:
  assumes inv: "io_inv io" and r: "cancelAll fd rt io = Inr (b, io')"
  shows "io_inv io'"
proof (cases "int (length (m_fdContexts io)) \<le> fd")
  case True
  then show ?thesis using inv r by (simp add: cancelAll_def)
next
  case False
  then obtain p where p: "context_at fd io = Inr p" "cancelAll_on p fd rt io = Inr (b, io')"
    using r by (auto simp: cancelAll_def)
  have "fd < int (length (m_fdContexts io))" using False by simp
  from cancelAll_on_inv [OF inv context_at_ok(1,2) [OF this p(1)] p(2)] show ?thesis .
qed

lemma io_step_inv: "io_step io io' \<Longrightarrow> io_inv io \<Longrightarrow> io_inv io'"
proof (induction rule: io_step.induct)
  case (io_idle es io now probe io')
  show ?case by (rule idle_end_inv [OF io_idle(3,1,2)])
next
  case (io_other io s tm n)
  then show ?case by (simp add: io_inv_def)
qed (blast intro: addEvent_inv delEvent_inv cancelEvent_inv cancelAll_inv)+

lemma io_steps_inv: "io_step\<^sup>*\<^sup>* io io' \<Longrightarrow> io_inv io \<Longrightarrow> io_inv io'"
  by (induction rule: rtranclp_induct) (auto intro: io_step_inv)

text \<open>A new manager.\<close>

lemma ctor_fields:
  assumes "IOManager_ctor this s tm epfd rp fds rf rc ids = Inr io"
  shows "m_fdContexts io = [0..<32]" "io_ctl io = []" "m_pendingEventCount io = 0" "io_next io = 32"
    "io_ctx io p = (if p < 32 then new_fd_context p else new_fd_context 0)"
    "io_this io = this" "io_timers io = tm" "io_posted io = []"
proof -
  let ?io0 = "\<lparr>io_this = this, io_sched = s, io_timers = tm, m_epfd = epfd, m_tickleFds = fds,
               m_pendingEventCount = 0, m_fdContexts = [], io_ctx = (\<lambda>_. new_fd_context 0),
               io_next = 0, io_ctl = [], io_pipe = 0, io_posted = []\<rparr> :: 'a io_manager"
  obtain s1 where io: "io = (contextResize 32 ?io0)\<lparr>io_sched := s1\<rparr>"
    using assms by (auto simp: IOManager_ctor_def Let_def split: if_splits)
  have r: "contextResize 32 ?io0 = (with_new 0 32 ?io0)\<lparr>m_fdContexts := [0..<32]\<rparr>"
    using contextResize_grow [of ?io0 32] by simp
  show "m_fdContexts io = [0..<32]" "io_ctl io = []" "m_pendingEventCount io = 0" "io_next io = 32"
    "io_ctx io p = (if p < 32 then new_fd_context p else new_fd_context 0)"
    "io_this io = this" "io_timers io = tm" "io_posted io = []"
    by (simp_all add: io r with_new_def)
qed

lemma ctor_inv:
  assumes "IOManager_ctor this s tm epfd rp fds rf rc ids = Inr io"
  shows "io_inv io"
proof -
  have n: "i < 32 \<Longrightarrow> [0..<32] ! i = i" for i by (subst nth_upt) auto
  show ?thesis
    unfolding io_inv_def ctor_fields(1-4) [OF assms]
    by (simp add: ctor_fields(5) [OF assms] fc_inv_new n)
qed

end
