(* ===== verification/IO_Properties.thy ===== *)
theory IO_Properties
  imports IO_Invariant Scheduler_System
begin

text \<open>
  What the invariant of the IO manager gives for all runs, what each call does to the waiter,
  how the idle loop ends and waits, and the states in which the code aborts or loses a
  registration.
\<close>

section \<open>All runs\<close>

text \<open>C13: after any sequence of calls and idle rounds on a new manager, the kernel's interest list is
  exactly what the contexts say: descriptor \<open>i\<close> is registered, edge triggered, for the events of
  its context, and not at all if it has none; and every \<open>epoll_ctl\<close> call the manager made was of
  the kind the kernel accepts at that point (\<open>ADD\<close> for a descriptor that was not registered,
  \<open>MOD\<close> or \<open>DEL\<close> for one that was).\<close>

theorem interest_list_tracks_contexts:
  assumes "IOManager_ctor this s tm epfd rp fds rf rc ids = Inr io0" and "io_step\<^sup>*\<^sup>* io0 io"
  shows "accepted (io_ctl io)
    \<and> interest (io_ctl io) i =
        (if i < length (m_fdContexts io) \<and> fc_events (io_ctx io (m_fdContexts io ! i)) \<noteq> 0
         then Some (EPOLLET OR fc_events (io_ctx io (m_fdContexts io ! i))) else None)"
  using io_steps_inv [OF assms(2) ctor_inv [OF assms(1)]] unfolding io_inv_def by blast

text \<open>In every such state the pending counter is the number of registered events (mod \<open>2^64\<close>),
  every registered event has a scheduler and exactly one of a fiber and a callback to resume, and
  an event that is not registered has an empty context.\<close>

theorem pending_counts_waiters:
  assumes "IOManager_ctor this s tm epfd rp fds rf rc ids = Inr io0" and "io_step\<^sup>*\<^sup>* io0 io"
  shows "m_pendingEventCount io = of_nat (\<Sum>p\<in>set (m_fdContexts io). regs (io_ctx io p))
    \<and> (\<forall>p\<in>set (m_fdContexts io). \<forall>e\<in>{READ, WRITE}.
         if has (io_ctx io p) e then waiting (ectx (io_ctx io p) e)
         else ectx (io_ctx io p) e = empty_ectx)"
proof -
  have inv: "io_inv io" by (rule io_steps_inv [OF assms(2) ctor_inv [OF assms(1)]])
  then have "\<forall>p\<in>set (m_fdContexts io). fc_inv (io_ctx io p)" by (simp add: io_inv_def)
  moreover have "m_pendingEventCount io = of_nat (\<Sum>p\<in>set (m_fdContexts io). regs (io_ctx io p))"
    using inv unfolding io_inv_def by blast
  ultimately show ?thesis by (auto simp: fc_inv_has)
qed

text \<open>The destructor deletes every context of the table once; it aborts if \<open>stop()\<close> has not been called.\<close>

lemma dtor_deletes_once:
  assumes "IOManager_ctor this s tm epfd rp fds rf rc ids = Inr io0" and "io_step\<^sup>*\<^sup>* io0 io"
  shows "IOManager_dtor ts io = (if m_stopping (io_sched io)
      then Inr ([m_epfd io, fst (m_tickleFds io), snd (m_tickleFds io)], m_fdContexts io,
                if ts = Some (io_this io) then None else ts)
      else Inl (Abort ''m_stopping''))
    \<and> distinct (m_fdContexts io)"
  using io_steps_inv [OF assms(2) ctor_inv [OF assms(1)]]
  by (simp add: IOManager_dtor_def Scheduler_dtor_def io_inv_def)

section \<open>What the calls do to a waiter\<close>

lemma context_at_in: "0 \<le> fd \<Longrightarrow> fd < int (length (m_fdContexts io)) \<Longrightarrow>
    context_at fd io = Inr (m_fdContexts io ! nat fd)"
  by (simp add: context_at_def)

text \<open>Once a manager's table covers a descriptor, \<open>addEvent\<close> (for an event that is not
  registered, from a running fiber), \<open>delEvent\<close>, \<open>cancelEvent\<close> and \<open>cancelAll\<close> on it always
  return, whatever \<open>epoll_ctl\<close> answers: none of their assertions fails.\<close>

theorem io_calls_return:
  assumes "io_inv io" and "0 \<le> fd" and "fd < int (length (m_fdContexts io))" and "e \<in> {READ, WRITE}"
  shows "(\<not> has (io_ctx io (m_fdContexts io ! nat fd)) e \<and> (cb = None \<longrightarrow> snd cur = EXEC)
            \<longrightarrow> (\<exists>r io'. addEvent fd e cb sched cur rt io = Inr (r, io') \<and> (r = 0 \<longleftrightarrow> rt = 0)))
    \<and> (\<exists>b io'. delEvent fd e rt io = Inr (b, io'))
    \<and> (\<exists>b io'. cancelEvent fd e rt io = Inr (b, io'))
    \<and> (\<exists>b io'. cancelAll fd rt io = Inr (b, io'))"
proof -
  define p where "p = m_fdContexts io ! nat fd"
  have i: "nat fd < length (m_fdContexts io)" using assms(2,3) by simp
  have fc: "fc_inv (io_ctx io p)" using io_inv_ctx(1) [OF assms(1) i] by (simp add: p_def)
  have e: "e = READ \<or> e = WRITE" using assms(4) by simp
  note c = context_at_in [OF assms(2,3), folded p_def]
  have add: "\<exists>r io'. addEvent fd e cb sched cur rt io = Inr (r, io') \<and> (r = 0 \<longleftrightarrow> rt = 0)"
    if "\<not> has (io_ctx io p) e" "cb = None \<longrightarrow> snd cur = EXEC"
    using addEvent_on_ok [OF fc e that(1), of cb cur fd sched rt] that(2) assms(3) c
    by (simp add: addEvent_def addEvent_lookup_def)
  have "\<exists>b io'. delEvent fd e rt io = Inr (b, io')"
    using c assms(3) by (auto simp: delEvent_def delEvent_on_ok [OF e])
  moreover have "\<exists>b io'. cancelEvent fd e rt io = Inr (b, io')"
    using c assms(3) by (auto simp: cancelEvent_def cancelEvent_on_ok [OF fc e])
  moreover have "\<exists>b io'. cancelAll fd rt io = Inr (b, io')"
  proof -
    define io1 where "io1 = epoll_ctl CTL_DEL (nat fd) 0 0 io"
    have c1: "io_ctx io1 = io_ctx io" by (simp add: io1_def)
    have ok: "\<exists>io'. trigger_if (fc_events (io_ctx a p) AND w \<noteq> 0) p w a = Inr io'"
      if "fc_inv (io_ctx a p)" "w = READ \<or> w = WRITE" for a :: "'a io_manager" and w
      using trigger_ok [OF that] by (auto simp: trigger_if_def has_def)
    obtain io2 where 2: "trigger_if (fc_events (io_ctx io1 p) AND READ \<noteq> 0) p READ io1 = Inr io2"
      using ok [of io1 READ] fc c1 by auto
    note t2 = trigger_if_result [OF _ _ 2, unfolded c1, OF fc, simplified]
    have fc2: "fc_inv (io_ctx io2 p)" using t2(6) fc fc_inv_cleared [OF fc, of READ] by (auto split: if_splits)
    obtain io3 where 3: "trigger_if (fc_events (io_ctx io2 p) AND WRITE \<noteq> 0) p WRITE io2 = Inr io3"
      using ok [of io2 WRITE] fc2 by auto
    note t3 = trigger_if_result [OF fc2 _ 3, simplified]
    have "fc_events (io_ctx io3 p) = 0"
      using fc by (elim fc_cases) (simp_all add: t3(6) t2(6) ev_defs)
    then show ?thesis using c 2 3 assms(3)
      by (cases "rt = 0") (auto simp: cancelAll_def cancelAll_on_def io1_def [symmetric] Let_def c1)
  qed
  ultimately show ?thesis using add by (simp add: p_def)
qed

lemma cleared_registered:
  assumes "fc_inv fc" and "e = READ \<or> e = WRITE" and "\<not> has fc e"
  shows "cleared e (registered e w fc) = fc" "ectx (registered e w fc) e = w" "has (registered e w fc) e"
proof -
  have "ectx fc e = empty_ectx" by (rule fc_inv_has(2) [OF assms])
  then show "cleared e (registered e w fc) = fc" using assms
    by (elim fc_cases; elim disjE; cases fc)
      (simp_all add: cleared_def registered_def setContext_def ectx_def has_def ev_defs)
  show "ectx (registered e w fc) e = w" "has (registered e w fc) e" using assms
    by (elim fc_cases; elim disjE; simp add: registered_def setContext_def ectx_def has_def ev_defs)+
qed

definition same_registrations :: "'cb io_manager \<Rightarrow> 'cb io_manager \<Rightarrow> bool" where
  "same_registrations io io' \<longleftrightarrow>
     m_fdContexts io' = m_fdContexts io \<and> io_ctx io' = io_ctx io
     \<and> m_pendingEventCount io' = m_pendingEventCount io \<and> interest (io_ctl io') = interest (io_ctl io)"

lemma same_registrationsI:
  assumes "io_inv io" and "io_inv io'" and "m_fdContexts io' = m_fdContexts io" and "io_ctx io' = io_ctx io"
  shows "same_registrations io io'"
proof -
  have "m_pendingEventCount io' = m_pendingEventCount io"
    using assms unfolding io_inv_def by metis
  moreover have "interest (io_ctl io') = interest (io_ctl io)"
  proof (rule ext)
    show "interest (io_ctl io') i = interest (io_ctl io) i" for i
      using assms(1,2) unfolding io_inv_def assms(3,4) by metis
  qed
  ultimately show ?thesis using assms(3,4) by (simp add: same_registrations_def)
qed

text \<open>The task \<open>addEvent\<close> leaves to be scheduled when the event occurs.\<close>

definition resumption :: "'cb timer_fn option \<Rightarrow> addr \<Rightarrow> 'cb timer_fn task" where
  "resumption cb cur = (if cb = None then fiber_task (Some cur) (-1) else cb_task cb (-1))"

lemma add_cancel_result:
  assumes inv: "io_inv io" and fd: "0 \<le> fd" "fd < int (length (m_fdContexts io))"
    and e: "e \<in> {READ, WRITE}"
    and add: "addEvent fd e cb (Some sc) cur 0 io = Inr (0, io1)"
  shows "(\<exists>io2. cancelEvent fd e 0 io1 = Inr (True, post sc (resumption cb (fst cur)) io2)
            \<and> same_registrations io io2)
    \<and> (\<exists>io2. delEvent fd e 0 io1 = Inr (True, io2) \<and> same_registrations io io2
            \<and> io_sched io2 = io_sched io1 \<and> io_posted io2 = io_posted io1)"
proof -
  define p where "p = m_fdContexts io ! nat fd"
  define w where "w = new_waiter cb (Some sc) (fst cur)"
  have e': "e = READ \<or> e = WRITE" using e by simp
  have i: "nat fd < length (m_fdContexts io)" using fd by simp
  have fc: "fc_inv (io_ctx io p)" using io_inv_ctx(1) [OF inv i] by (simp add: p_def)
  note c = context_at_in [OF fd, folded p_def]
  have on: "addEvent_on p fd e cb (Some sc) cur 0 io = Inr (0, io1)"
    using add c fd(2) by (simp add: addEvent_def addEvent_lookup_def)
  note h = addEvent_on_Inr(1) [OF fc on] and cu = addEvent_on_Inr(2) [OF fc on refl]
  have io1: "m_fdContexts io1 = m_fdContexts io" "io_ctx io1 = (io_ctx io)(p := registered e w (io_ctx io p))"
    using on addEvent_on_ok [OF fc e' h, of cb cur fd "Some sc" 0] cu
    by (auto simp: w_def)
  have inv1: "io_inv io1" using addEvent_inv [OF inv _ add] by simp
  have p1: "p = m_fdContexts io1 ! nat fd" "nat fd < length (m_fdContexts io1)" using i by (simp_all add: io1 p_def)
  have fc1: "fc_inv (io_ctx io1 p)" using io_inv_ctx(1) [OF inv1 p1(2)] p1(1) by simp
  note cr = cleared_registered [OF fc e' h, of w]
  have h1: "has (io_ctx io1 p) e" using cr(3) by (simp add: io1)
  have c1: "context_at fd io1 = Inr p" using fd by (simp add: context_at_def io1 p_def)
  let ?io2 = "set_ctx p (cleared e (io_ctx io1 p))
      ((del_call p fd e 0 io1)\<lparr>m_pendingEventCount := m_pendingEventCount io1 - 1\<rparr>)"
  have inv2: "io_inv ?io2"
    by (rule io_inv_clear [OF inv1 p1(2,1) e' h1]) (simp_all add: del_call_def)
  have same: "same_registrations io ?io2"
    by (rule same_registrationsI [OF inv inv2]) (simp_all add: del_call_def io1 cr(1))
  have wt: "the (ec_scheduler w) = sc" "waiter_task w = resumption cb (fst cur)"
    by (simp_all add: w_def new_waiter_def waiter_task_def resumption_def)
  have "cancelEvent fd e 0 io1 = Inr (True, post sc (resumption cb (fst cur)) ?io2)"
    using c1 h1 fd(2) cancelEvent_on_ok [OF fc1 e', of fd 0]
    by (simp add: cancelEvent_def io1 cr(2) wt)
  moreover have "delEvent fd e 0 io1 = Inr (True, ?io2)"
    using c1 h1 fd(2) by (simp add: delEvent_def delEvent_on_ok [OF e'] io1)
  moreover have "io_sched ?io2 = io_sched io1" "io_posted ?io2 = io_posted io1"
    by (simp_all add: set_ctx_def del_call_def epoll_ctl_def)
  ultimately show ?thesis using same by blast
qed

text \<open>Cancelling a registered event hands exactly the waiter that \<open>addEvent\<close> registered to its
  scheduler, once; deleting it hands over nothing; and both leave the context, the interest list
  and the pending counter as they were before \<open>addEvent\<close>.\<close>

theorem add_then_cancel:
  assumes inv: "io_inv io" and fd: "0 \<le> fd" "fd < int (length (m_fdContexts io))"
    and e: "e \<in> {READ, WRITE}"
    and add: "addEvent fd e cb (Some sc) cur 0 io = Inr (0, io1)"
  shows "(\<exists>io2. cancelEvent fd e 0 io1 = Inr (True, post sc (resumption cb (fst cur)) io2)
            \<and> same_registrations io io2)
    \<and> (\<exists>io2. delEvent fd e 0 io1 = Inr (True, io2) \<and> same_registrations io io2
            \<and> io_sched io2 = io_sched io1 \<and> io_posted io2 = io_posted io1)"
  by (rule add_cancel_result [OF assms])

section \<open>What the idle loop does\<close>

lemma process_event_aborts:
  assumes "io_inv io" and "p \<in> set (m_fdContexts io)"
  shows "(\<exists>f. process_event (Ctx p, evs, 0) io = Inl f) \<longleftrightarrow>
     fc_events (io_ctx io p) AND report_mask evs \<noteq> 0
     \<and> report_mask evs AND NOT (fc_events (io_ctx io p)) \<noteq> 0"
proof -
  have fc: "fc_inv (io_ctx io p)" using assms by (simp add: io_inv_def)
  define io1 where "io1 = epoll_ctl (if fc_events (io_ctx io p) AND NOT (report_mask evs) \<noteq> 0 then CTL_MOD else CTL_DEL)
      (fc_fd (io_ctx io p)) (EPOLLET OR fc_events (io_ctx io p) AND NOT (report_mask evs)) 0 io"
  have c1: "io_ctx io1 = io_ctx io" by (simp add: io1_def)
  have tr: "(\<exists>f. trigger_if c p w a = Inl f) \<longleftrightarrow> c \<and> \<not> has (io_ctx a p) w"
    if "fc_inv (io_ctx a p)" "w = READ \<or> w = WRITE" for a :: "'a io_manager" and w c
    using trigger_ok [OF that] triggerEvent_not [of "io_ctx a p" w]
    by (cases "has (io_ctx a p) w") (auto simp: trigger_if_def trigger_def)
  let ?r = "reported evs EPOLLIN" and ?w = "reported evs EPOLLOUT"
  have "(\<exists>f. res_bind (trigger_if ?r p READ io1) (trigger_if ?w p WRITE) = Inl f) \<longleftrightarrow>
      ?r \<and> \<not> has (io_ctx io p) READ \<or> ?w \<and> \<not> has (io_ctx io p) WRITE"
  proof (cases "trigger_if ?r p READ io1")
    case (Inl f)
    then show ?thesis using tr [of io1 READ ?r] fc by (auto simp: c1)
  next
    case (Inr io2)
    have nr: "\<not> (?r \<and> \<not> has (io_ctx io p) READ)"
      using Inr tr [of io1 READ ?r] fc by (auto simp: c1)
    have c2: "io_ctx io2 p = (if ?r then cleared READ (io_ctx io p) else io_ctx io p)"
      using trigger_if_result(6) [OF _ _ Inr] fc c1 by simp
    have fc2: "fc_inv (io_ctx io2 p)" using fc fc_inv_cleared [OF fc, of READ] by (simp add: c2)
    have "has (io_ctx io2 p) WRITE \<longleftrightarrow> has (io_ctx io p) WRITE"
      using fc by (elim fc_cases) (auto simp: c2 has_def ev_defs)
    then show ?thesis using Inr nr tr [OF fc2, of WRITE ?w] by auto
  qed
  moreover have "?r \<and> \<not> has (io_ctx io p) READ \<or> ?w \<and> \<not> has (io_ctx io p) WRITE
      \<longleftrightarrow> report_mask evs AND NOT (fc_events (io_ctx io p)) \<noteq> 0"
    using fc by (elim fc_cases) (simp_all add: report_mask_def has_def ev_defs)
  ultimately show ?thesis
    by (simp add: process_event_Ctx Let_def io1_def [symmetric])
qed

text \<open>The waiters of the registered events a report names, each with its scheduler, in the order the
  code triggers them.\<close>

definition reported_waiters :: "u32 \<Rightarrow> 'cb fd_context \<Rightarrow> (addr \<times> 'cb timer_fn task) list" where
  "reported_waiters evs fc =
     map (\<lambda>e. (the (ec_scheduler (ectx fc e)), waiter_task (ectx fc e)))
       (filter (\<lambda>e. has fc e \<and> report_mask evs AND e \<noteq> 0) [READ, WRITE])"

text \<open>Handing tasks to their schedulers: those of the manager itself are queued there.\<close>

definition queue_own :: "addr \<Rightarrow> (addr \<times> 'f task) list \<Rightarrow> 'f scheduler \<Rightarrow> 'f scheduler" where
  "queue_own this ws s = fold (\<lambda>w s. if fst w = this then schedule (snd w) s else s) ws s"

lemma post_fields:
  "io_sched (post sc t io) = (if sc = io_this io then schedule t (io_sched io) else io_sched io)"
  "io_posted (post sc t io) = (if sc = io_this io then io_posted io else io_posted io @ [(sc, t)])"
  "io_this (post sc t io) = io_this io"
proof -
  have "io_sched ((io_tickle ^^ n) a) = io_sched a \<and> io_posted ((io_tickle ^^ n) a) = io_posted a
      \<and> io_this ((io_tickle ^^ n) a) = io_this a" for n and a :: "'a io_manager"
    by (induction n) (simp_all add: io_tickle_def)
  then show "io_sched (post sc t io) = (if sc = io_this io then schedule t (io_sched io) else io_sched io)"
    "io_posted (post sc t io) = (if sc = io_this io then io_posted io else io_posted io @ [(sc, t)])"
    "io_this (post sc t io) = io_this io"
    by (simp_all add: post_def on_sched_def Let_def)
qed

lemma trigger_if_hands_over:
  assumes "fc_inv (io_ctx io p)" and "e = READ \<or> e = WRITE" and "trigger_if c p e io = Inr io'"
  defines "ws \<equiv> (if c then [(the (ec_scheduler (ectx (io_ctx io p) e)), waiter_task (ectx (io_ctx io p) e))] else [])"
  shows "io_sched io' = queue_own (io_this io) ws (io_sched io)"
    "io_posted io' = io_posted io @ filter (\<lambda>w. fst w \<noteq> io_this io) ws"
    "io_this io' = io_this io"
proof -
  have h: "has (io_ctx io p) e" if c using trigger_if_result(1) [OF assms(1-3) that] .
  show "io_sched io' = queue_own (io_this io) ws (io_sched io)"
    "io_posted io' = io_posted io @ filter (\<lambda>w. fst w \<noteq> io_this io) ws"
    "io_this io' = io_this io"
    using assms(3) h trigger_ok [OF assms(1,2)]
    by (auto simp: ws_def queue_own_def trigger_if_def post_fields set_ctx_def split: if_splits)
qed

lemma process_event_hands_over:
  assumes "io_inv io" and "p \<in> set (m_fdContexts io)" and r: "process_event (Ctx p, evs, 0) io = Inr io'"
  defines "ws \<equiv> reported_waiters evs (io_ctx io p)"
  shows "io_sched io' = queue_own (io_this io) ws (io_sched io)"
    "io_posted io' = io_posted io @ filter (\<lambda>w. fst w \<noteq> io_this io) ws"
    "fc_events (io_ctx io' p) = fc_events (io_ctx io p) AND NOT (report_mask evs)"
proof -
  let ?fc = "io_ctx io p" and ?m = "report_mask evs"
  let ?r = "reported evs EPOLLIN" and ?w = "reported evs EPOLLOUT"
  have fc: "fc_inv ?fc" using assms by (simp add: io_inv_def)
  have m: "?m AND READ \<noteq> 0 \<longleftrightarrow> ?r" "?m AND WRITE \<noteq> 0 \<longleftrightarrow> ?w"
    by (simp_all add: report_mask_def mask_bits)
  have ws: "ws = (if has ?fc READ \<and> ?r then [(the (ec_scheduler (ectx ?fc READ)), waiter_task (ectx ?fc READ))] else [])
      @ (if has ?fc WRITE \<and> ?w then [(the (ec_scheduler (ectx ?fc WRITE)), waiter_task (ectx ?fc WRITE))] else [])"
    by (simp add: ws_def reported_waiters_def m)
  have "io_sched io' = queue_own (io_this io) ws (io_sched io)
    \<and> io_posted io' = io_posted io @ filter (\<lambda>w. fst w \<noteq> io_this io) ws
    \<and> fc_events (io_ctx io' p) = fc_events ?fc AND NOT ?m"
  proof (cases "fc_events ?fc AND ?m = 0")
    case True
    have "io' = io" using r True by (simp add: process_event_Ctx)
    moreover have "ws = []" and "fc_events ?fc AND NOT ?m = fc_events ?fc" using fc True unfolding ws
      by (elim fc_cases; simp add: report_mask_def has_def ev_defs split: if_splits)+
    ultimately show ?thesis by (simp add: queue_own_def)
  next
    case False
    define io1 where "io1 = epoll_ctl (if fc_events ?fc AND NOT ?m \<noteq> 0 then CTL_MOD else CTL_DEL)
        (fc_fd ?fc) (EPOLLET OR fc_events ?fc AND NOT ?m) 0 io"
    have 1: "io_ctx io1 = io_ctx io" "io_sched io1 = io_sched io" "io_posted io1 = io_posted io"
      "io_this io1 = io_this io"
      by (simp_all add: io1_def epoll_ctl_def)
    obtain io2 where 2: "trigger_if ?r p READ io1 = Inr io2" "trigger_if ?w p WRITE io2 = Inr io'"
      using r False by (auto simp: process_event_Ctx Let_def io1_def)
    have fc1: "fc_inv (io_ctx io1 p)" using fc by (simp add: 1)
    note a = trigger_if_hands_over [OF fc1 _ 2(1), simplified]
    have c2: "io_ctx io2 p = (if ?r then cleared READ ?fc else ?fc)"
      using trigger_if_result(6) [OF fc1 _ 2(1)] by (simp add: 1)
    have fc2: "fc_inv (io_ctx io2 p)" using fc fc_inv_cleared [OF fc, of READ] by (simp add: c2)
    note b = trigger_if_hands_over [OF fc2 _ 2(2), simplified]
    have w2: "ectx (io_ctx io2 p) WRITE = ectx ?fc WRITE"
      using fc by (elim fc_cases) (simp_all add: c2 cleared_def setContext_def ectx_def ev_defs)
    note t = trigger_both [OF fc1 2]
    have h: "?r \<longrightarrow> has ?fc READ" "?w \<longrightarrow> has ?fc WRITE" using t(1,2) by (simp_all add: 1)
    have "fc_events (io_ctx io' p) = fc_events ?fc AND NOT ?m"
      using t(6,9) by (simp add: 1 report_mask_def)
    moreover have "ws = (if ?r then [(the (ec_scheduler (ectx ?fc READ)), waiter_task (ectx ?fc READ))] else [])
      @ (if ?w then [(the (ec_scheduler (ectx ?fc WRITE)), waiter_task (ectx ?fc WRITE))] else [])"
      using h unfolding ws by (cases ?r; cases ?w) simp_all
    ultimately show ?thesis using a b by (simp add: 1 w2 queue_own_def)
  qed
  then show "io_sched io' = queue_own (io_this io) ws (io_sched io)"
    "io_posted io' = io_posted io @ filter (\<lambda>w. fst w \<noteq> io_this io) ws"
    "fc_events (io_ctx io' p) = fc_events ?fc AND NOT ?m" by blast+
qed

text \<open>C17: handling a report of the kernel for a context (with \<open>epoll_ctl\<close> succeeding) aborts exactly
  if the report, with an error or hang-up counted as both events, touches a registered event and
  also one that is not registered: a hang-up on a descriptor that only waits for reading does.
  Otherwise the registered events it names are handed over, reading first: each waiter goes to the
  queue of this manager or, if it has another scheduler, to that one; and exactly the events the
  report names are no longer registered.\<close>

theorem process_event_aborts_iff:
  assumes "io_inv io" and "p \<in> set (m_fdContexts io)"
  shows "((\<exists>f. process_event (Ctx p, evs, 0) io = Inl f) \<longleftrightarrow>
       fc_events (io_ctx io p) AND report_mask evs \<noteq> 0
       \<and> report_mask evs AND NOT (fc_events (io_ctx io p)) \<noteq> 0)
    \<and> (\<forall>io'. process_event (Ctx p, evs, 0) io = Inr io' \<longrightarrow>
         io_sched io' = queue_own (io_this io) (reported_waiters evs (io_ctx io p)) (io_sched io)
         \<and> io_posted io' = io_posted io
              @ filter (\<lambda>w. fst w \<noteq> io_this io) (reported_waiters evs (io_ctx io p))
         \<and> fc_events (io_ctx io' p) = fc_events (io_ctx io p) AND NOT (report_mask evs))"
  using process_event_aborts [OF assms] process_event_hands_over [OF assms] by blast

subsection \<open>When the loop ends, and how long it waits\<close>

interpretation io_stop: stop_policy io_sched "\<lambda>io. fst (stopping_timeout t now io)" for t now
  by unfold_locales (simp add: stopping_timeout_def split: prod.splits)

lemma getNextTimer_none:
  assumes "now \<noteq> 0"
  shows "fst (getNextTimer now tm) = NOT 0 \<longleftrightarrow> m_timers tm = []"
proof (cases "m_timers tm")
  case (Cons a as)
  have "m - now \<noteq> NOT 0" if "\<not> m \<le> now" for m :: u64
  proof
    assume "m - now = NOT 0"
    then have "m = now - 1" by (simp add: diff_eq_eq)
    moreover have "now - 1 < now"
      by (rule word_sub_less_self) (use assms in \<open>simp_all add: word_le_nat_alt unat_gt_0 Suc_leI\<close>)
    ultimately show False using that by simp
  qed
  then show ?thesis using Cons by (auto simp: getNextTimer_def Let_def)
qed (simp add: getNextTimer_def)

text \<open>C18: the idle loop leaves exactly when there is no timer, no pending event and the scheduler
  itself is to stop and quiescent: then the queue is empty, and a worker of the system that still has
  a task is back from running it and has counted it out already (with fewer than \<open>2^64\<close> workers and
  dropped tasks).  Whatever the timers are, if it does not leave, it waits for at most 0 ms: the
  timeout it computes is not passed on to \<open>epoll_wait\<close>.\<close>

theorem idle_loop_exit:
  assumes "now \<noteq> 0" and "io_sched io = y_s y" and "fresh_sys y0" and "sys_step\<^sup>*\<^sup>* y0 y"
    and "y_leaked y + card (y_ids y) < 2 ^ 64"
  shows "fst (idle_begin now io) \<in> {Idle_exit, Idle_wait 0}
    \<and> (fst (idle_begin now io) = Idle_exit \<longleftrightarrow>
         m_timers (io_timers io) = [] \<and> m_pendingEventCount io = 0 \<and> stopping (io_sched io))
    \<and> (fst (idle_begin now io) = Idle_exit \<longrightarrow>
         m_fibers (y_s y) = []
         \<and> (\<forall>t\<in>y_ids y. has_task (w_pc (y_w y t)) \<longrightarrow> (\<exists>k f. w_pc (y_w y t) = Counted k f)))"
proof -
  have s: "fst (stopping_timeout 0 now io) \<longleftrightarrow>
      m_timers (io_timers io) = [] \<and> m_pendingEventCount io = 0 \<and> stopping (io_sched io)"
    using getNextTimer_none [OF assms(1), of "io_timers io"]
    by (auto simp: stopping_timeout_def split: prod.splits)
  have i: "fst (idle_begin now io) = (if fst (stopping_timeout 0 now io) then Idle_exit else Idle_wait 0)"
    by (simp add: idle_begin_def clamp_timeout_def split: prod.splits)
  have "fst (stopping_timeout 0 now io) \<longrightarrow>
      m_fibers (y_s y) = []
      \<and> (\<forall>t\<in>y_ids y. has_task (w_pc (y_w y t)) \<longrightarrow> (\<exists>k f. w_pc (y_w y t) = Counted k f))"
    using io_stop.stop_quiescent [OF _ assms(2) reachable_inv [OF assms(3,4)] assms(5)] has_task_cases by blast
  with s i show ?thesis by simp
qed

section \<open>The window in \<open>addEvent\<close>\<close>

lemma contextResize_shrink:
  assumes "n \<le> length (m_fdContexts io)"
  shows "contextResize n io = io\<lparr>m_fdContexts := take n (m_fdContexts io)\<rparr>"
proof -
  have "vec_resize n None (map Some (m_fdContexts io)) = map Some (take n (m_fdContexts io)) @ []"
    using assms by (simp add: vec_resize_def take_map)
  then show ?thesis unfolding contextResize_def by (simp only: fill_Some) simp
qed

text \<open>C19: between the two locks of \<open>addEvent\<close> the table can change, and the size the second one
  requests may then be smaller than the table.  If two threads add callbacks for descriptors beyond
  the table, the larger at least one and a half times the smaller (so that the size requested for the
  smaller does not cover it), and the one with the larger descriptor resizes first, the other cuts
  its context off: the registration stays with the kernel, but \<open>delEvent\<close>, \<open>cancelEvent\<close> and \<open>cancelAll\<close> no
  longer find it.\<close>

theorem concurrent_resize_loses_context:
  assumes inv: "io_inv io" and big: "int (length (m_fdContexts io)) \<le> fd2" "3 * fd2 div 2 \<le> fd1"
    and e: "e \<in> {READ, WRITE}" and sc: "sched \<noteq> None" and cb: "cb \<noteq> None"
  shows "addEvent_lookup fd1 io = Inr None \<and> addEvent_lookup fd2 io = Inr None
    \<and> (\<exists>p1 io1 io2 p2 io3.
         addEvent_grow fd1 io = Inr (p1, io1)
         \<and> addEvent_on p1 fd1 e cb sched cur 0 io1 = Inr (0, io2)
         \<and> addEvent_grow fd2 io2 = Inr (p2, io3)
         \<and> interest (io_ctl io3) (nat fd1) \<noteq> None
         \<and> delEvent fd1 e rt io3 = Inr (False, io3) \<and> cancelEvent fd1 e rt io3 = Inr (False, io3)
         \<and> cancelAll fd1 rt io3 = Inr (False, io3))"
proof -
  have e': "e = READ \<or> e = WRITE" using e by simp
  have l32: "32 \<le> length (m_fdContexts io)" using inv by (simp add: io_inv_def)
  have nl: "\<not> fd1 < int (length (m_fdContexts io))" "\<not> fd2 < int (length (m_fdContexts io))"
    using big l32 by linarith+
  obtain io1 where g: "addEvent_grow fd1 io = Inr (m_fdContexts io1 ! nat fd1, io1)" "io_inv io1"
    "nat fd1 < length (m_fdContexts io1)" "io1 = contextResize (nat (3 * fd1 div 2)) io"
    using addEvent_grow_result [OF inv nl(1)] by blast
  define p where "p = m_fdContexts io1 ! nat fd1"
  have n1: "length (m_fdContexts io) \<le> nat (3 * fd1 div 2)" using nl(1) l32 by linarith
  have log: "io_ctl io1 = io_ctl io" by (simp add: g(4) contextResize_grow [OF n1] with_new_def)
  have len1: "length (m_fdContexts io1) = nat (3 * fd1 div 2)"
    by (simp add: g(4) io_inv_grow(2) [OF inv n1])
  have "interest (io_ctl io1) (nat fd1) = None"
  proof -
    have "\<not> nat fd1 < length (m_fdContexts io)" using nl(1) by linarith
    then show ?thesis using inv unfolding log io_inv_def by simp
  qed
  then have z: "fc_events (io_ctx io1 p) = 0"
    using g(2,3) by (auto simp: io_inv_def p_def split: if_splits)
  have fc: "fc_inv (io_ctx io1 p)" using io_inv_ctx(1) [OF g(2,3)] by (simp add: p_def)
  have h: "\<not> has (io_ctx io1 p) e" by (simp add: has_def z)
  obtain io2 where a: "addEvent_on p fd1 e cb sched cur 0 io1 = Inr (0, io2)" and
    t2: "m_fdContexts io2 = m_fdContexts io1" and i2: "interest (io_ctl io2) (nat fd1) \<noteq> None"
    using addEvent_on_ok [OF fc e' h, of cb cur fd1 sched 0] cb by (auto simp: epoll_apply_def ctl_for_def z)
  have n2: "nat (3 * fd2 div 2) \<le> length (m_fdContexts io2)"
    using big nl l32 unfolding t2 len1 by linarith
  let ?io3 = "io2\<lparr>m_fdContexts := take (nat (3 * fd2 div 2)) (m_fdContexts io2)\<rparr>"
  have l3: "length (m_fdContexts ?io3) = nat (3 * fd2 div 2)" using n2 by simp
  have "addEvent_grow fd2 io2 = Inr (m_fdContexts ?io3 ! nat fd2, ?io3)"
    unfolding addEvent_grow_def Let_def contextResize_shrink [OF n2] context_at_def l3
    using nl(2) l32 by simp
  moreover have "int (length (m_fdContexts ?io3)) \<le> fd1"
    unfolding l3 using big l32 by linarith
  ultimately show ?thesis using nl a g(1) i2
    by (auto simp: addEvent_lookup_def delEvent_def cancelEvent_def cancelAll_def p_def
        intro!: exI [of _ p] exI [of _ io1] exI [of _ io2] exI [of _ ?io3])
qed

section \<open>A manager for the examples\<close>

definition ex_io_sched :: "unit timer_fn scheduler" where
  "ex_io_sched = \<lparr>m_fibers = [], m_rootFiber = None, m_name = ''io'', m_threads = [], m_threadIds = [],
     m_threadCount = 0, m_activeThreadCount = 0, m_idleThreadCount = 0, m_stopping = True,
     m_autoStop = True, m_rootThread = -1, m_tickles = 0\<rparr>"

definition ex_io :: "unit io_manager" where
  "ex_io = projr (IOManager_ctor 5 ex_io_sched (TimerManager_ctor 0) 3 0 (4, 6) 0 0 [])"

text \<open>Descriptor 7 waits for reading with a callback.\<close>

definition ex_io_read :: "unit io_manager" where
  "ex_io_read = set_ctx 7 (registered READ (new_waiter (Some (Fn ())) (Some 5) 0) (new_fd_context 7))
     ((epoll_ctl CTL_ADD 7 (EPOLLET OR 1) 0 ex_io)\<lparr>m_pendingEventCount := 1\<rparr>)"

lemma ex_io_ctor: "IOManager_ctor 5 ex_io_sched (TimerManager_ctor 0) 3 0 (4, 6) 0 0 [] = Inr ex_io"
  by (simp add: ex_io_def IOManager_ctor_def start_def Let_def ex_io_sched_def contextResize_grow with_new_def)

lemmas ex_io_fields = ctor_fields [OF ex_io_ctor]

lemma ex_io_inv: "io_inv ex_io"
  by (rule ctor_inv [OF ex_io_ctor])

lemma ex_io_7 [simp]: "m_fdContexts ex_io ! 7 = 7" "io_ctx ex_io 7 = new_fd_context 7"
  "length (m_fdContexts ex_io) = 32"
  by (simp_all add: ex_io_fields)

lemma ex_add: "addEvent 7 READ (Some (Fn ())) (Some 5) (0, EXEC) 0 ex_io = Inr (0, ex_io_read)"
proof -
  have 1: "fc_inv (io_ctx ex_io 7)" "\<not> has (io_ctx ex_io 7) READ"
    by (simp_all add: fc_inv_new has_def)
  show ?thesis
    using addEvent_on_ok [OF 1(1) _ 1(2), of "Some (Fn ())" "(0, EXEC)" 7 "Some 5" 0]
    by (simp add: addEvent_def addEvent_lookup_def context_at_def ex_io_read_def fc_inv_new ctl_for_def
        READ_def ex_io_fields)
qed

lemma ex_io_read_reach: "io_step\<^sup>*\<^sup>* ex_io ex_io_read"
  by (rule r_into_rtranclp) (rule io_add [OF _ ex_add], simp)

lemma ex_io_read_fields [simp]:
  "m_fdContexts ex_io_read = [0..<32]"
  "io_ctx ex_io_read 7 = registered READ (new_waiter (Some (Fn ())) (Some 5) 0) (new_fd_context 7)"
  by (simp_all add: ex_io_read_def ex_io_fields)

theorem interest_list_tracks_contexts_witness:
  "accepted (io_ctl ex_io_read) \<and> interest (io_ctl ex_io_read) 7 = Some (EPOLLET OR 1)"
  using interest_list_tracks_contexts [OF ex_io_ctor ex_io_read_reach, of 7]
  by (simp add: registered_def setContext_def new_fd_context_def ev_defs)

theorem pending_counts_waiters_witness:
  "m_pendingEventCount ex_io_read = of_nat (\<Sum>p\<in>{0..<32}. regs (io_ctx ex_io_read p))
     \<and> waiting (ectx (io_ctx ex_io_read 7) READ)"
proof -
  have m: "7 \<in> set (m_fdContexts ex_io_read)" and h: "has (io_ctx ex_io_read 7) READ"
    by (simp_all add: registered_def setContext_def new_fd_context_def has_def ev_defs)
  note t = pending_counts_waiters [OF ex_io_ctor ex_io_read_reach]
  have "READ \<in> {READ, WRITE}" by simp
  from bspec [OF bspec [OF conjunct2 [OF t] m] this] h
  have "waiting (ectx (io_ctx ex_io_read 7) READ)" by (simp only: if_True)
  with t show ?thesis by (simp del: ex_io_read_fields(2))
qed

theorem io_calls_return_witness:
  "\<exists>r io'. addEvent 7 READ None (Some 5) (0, EXEC) 1 ex_io = Inr (r, io') \<and> r \<noteq> 0"
  using io_calls_return [OF ex_io_inv, of 7 READ None "(0, EXEC)" "Some 5" 1]
  by (auto simp: has_def fc_inv_new)

theorem add_then_cancel_witness:
  "\<exists>io2. cancelEvent 7 READ 0 ex_io_read = Inr (True, post 5 (cb_task (Some (Fn ())) (-1)) io2)
     \<and> m_pendingEventCount io2 = 0"
  using add_then_cancel [OF ex_io_inv _ _ _ ex_add]
  by (auto simp: resumption_def same_registrations_def ex_io_fields)

theorem process_event_aborts_iff_witness:
  "(\<exists>f. process_event (Ctx 7, EPOLLHUP, 0) ex_io_read = Inl f)
    \<and> (\<exists>io'. process_event (Ctx 7, EPOLLIN, 0) ex_io_read = Inr io'
         \<and> io_sched io' = schedule (cb_task (Some (Fn ())) (-1)) (io_sched ex_io_read)
         \<and> fc_events (io_ctx io' 7) = 0)"
proof -
  have inv: "io_inv ex_io_read" by (rule io_steps_inv [OF ex_io_read_reach ex_io_inv])
  have p: "7 \<in> set (m_fdContexts ex_io_read)" by simp
  note t = process_event_aborts_iff [OF inv p]
  have m: "report_mask EPOLLIN = 1" "report_mask EPOLLHUP = 5"
    by (simp_all add: report_mask_def reported_def ev_defs)
  have own: "io_this ex_io_read = 5"
    by (simp add: ex_io_read_def ex_io_def IOManager_ctor_def start_def Let_def ex_io_sched_def
        contextResize_grow with_new_def set_ctx_def epoll_ctl_def)
  have fc: "fc_events (io_ctx ex_io_read 7) = 1"
    "reported_waiters EPOLLIN (io_ctx ex_io_read 7) = [(5, cb_task (Some (Fn ())) (-1))]"
    by (simp_all add: registered_def setContext_def new_fd_context_def READ_def WRITE_def NONE_def
        reported_waiters_def has_def m ectx_def new_waiter_def waiter_task_def)
  have "\<exists>f. process_event (Ctx 7, EPOLLHUP, 0) ex_io_read = Inl f"
    unfolding t [of EPOLLHUP, THEN conjunct1] fc(1) m by simp
  moreover have "\<nexists>f. process_event (Ctx 7, EPOLLIN, 0) ex_io_read = Inl f"
    unfolding t [of EPOLLIN, THEN conjunct1] fc(1) m by simp
  then obtain io' where "process_event (Ctx 7, EPOLLIN, 0) ex_io_read = Inr io'"
    by (cases "process_event (Ctx 7, EPOLLIN, 0) ex_io_read") auto
  moreover from this have "io_sched io' = schedule (cb_task (Some (Fn ())) (-1)) (io_sched ex_io_read)
      \<and> fc_events (io_ctx io' 7) = 0"
    using t [of EPOLLIN, THEN conjunct2, unfolded fc(1,2) m own] by (simp add: queue_own_def)
  ultimately show ?thesis by blast
qed

text \<open>A system with the worker 7, its main fiber 0 and its idle fiber 1: it finds no task, runs its idle
  fiber, and \<open>stop\<close> is called.\<close>

definition ex_io_sys :: "unit timer_fn sys" where
  "ex_io_sys =
     \<lparr>y_s = ex_io_sched\<lparr>m_stopping := False\<rparr>,
      y_g = \<lparr>fb = (\<lambda>a. \<lparr>f_id = 0, f_stacksize = 1024, f_state = (if a = 0 then EXEC else INIT),
                         f_ctx = (if a = 0 then Saved Native else Entry MainFunc), f_stack = Some 9,
                         f_cb = None\<rparr>),
             fb_live = {0, 1}, s_fiber_id = 2, s_fiber_count = 2\<rparr>,
      y_w = (\<lambda>_. \<lparr>w_pc = Fetch, w_l = \<lparr>t_fiber = Some 0, t_threadFiber = Some 0,
                    t_scheduler_fiber = Some 0, t_running = Native\<rparr>, w_idle = 1, w_cb = None\<rparr>),
      y_ids = {7}, y_leaked = 0\<rparr>"

definition ex_io_run :: "unit timer_fn sys \<Rightarrow> unit timer_fn sys" where
  "ex_io_run y = projr (run_step 7 8 None 1024 y)"

definition ex_io_idling :: "unit timer_fn sys" where
  "ex_io_idling = ex_io_run (ex_io_run (ex_io_run ex_io_sys))"

definition ex_io_stopped :: "unit timer_fn sys" where
  "ex_io_stopped = ex_io_idling\<lparr>y_s :=
     snd (projr (stop_begin 5 (fiber_states (y_g ex_io_idling)) None (y_s ex_io_idling)))\<rparr>"

lemma ex_io_run_step:
  assumes "\<not> isl (run_step 7 8 None 1024 y)" and "y_ids y = {7}"
  shows "sys_step y (ex_io_run y)" and "y_ids (ex_io_run y) = {7}"
proof -
  have r: "run_step 7 8 None 1024 y = Inr (ex_io_run y)"
    unfolding ex_io_run_def by (rule sum.collapse(2) [OF assms(1), symmetric])
  show "sys_step y (ex_io_run y)" by (rule sy_run [OF _ r]) (simp add: assms(2))
  show "y_ids (ex_io_run y) = {7}" using run_step_leaked(2) [OF r] assms(2) by simp
qed

lemma ex_io_stopped_reach: "sys_step\<^sup>*\<^sup>* ex_io_sys ex_io_stopped" "y_ids ex_io_stopped = {7}"
proof -
  let ?y1 = "ex_io_run ex_io_sys" let ?y2 = "ex_io_run ?y1"
  have i: "y_ids ex_io_sys = {7}" by (simp add: ex_io_sys_def)
  have "\<not> isl (run_step 7 8 None 1024 ex_io_sys)" by code_simp
  note r1 = ex_io_run_step [OF this i]
  have "\<not> isl (run_step 7 8 None 1024 ?y1)" by code_simp
  note r2 = ex_io_run_step [OF this r1(2)]
  have "\<not> isl (run_step 7 8 None 1024 ?y2)" by code_simp
  note r3 = ex_io_run_step [OF this r2(2), folded ex_io_idling_def]
  let ?stop = "stop_begin 5 (fiber_states (y_g ex_io_idling)) None (y_s ex_io_idling)"
  have "\<not> isl ?stop" by code_simp
  from sum.collapse(2) [OF this] have "?stop = Inr (fst (projr ?stop), y_s ex_io_stopped)"
    by (simp add: ex_io_stopped_def)
  from sy_stop [OF this] have "sys_step ex_io_idling ex_io_stopped" by (simp add: ex_io_stopped_def)
  then show "sys_step\<^sup>*\<^sup>* ex_io_sys ex_io_stopped"
    using r1(1) r2(1) r3(1) by (meson rtranclp.rtrancl_into_rtrancl rtranclp.rtrancl_refl)
  show "y_ids ex_io_stopped = {7}" using r3(2) by (simp add: ex_io_stopped_def)
qed

lemma ex_io_stopped_facts: "stopping (y_s ex_io_stopped)" "y_leaked ex_io_stopped = 0"
  "w_pc (y_w ex_io_stopped 7) = Running Idle_fiber 1"
  by code_simp+

text \<open>The worker's idle fiber waits with timeout 0 while a descriptor is registered, and leaves
  when none is.\<close>

theorem idle_loop_exit_witness:
  "fst (idle_begin 1 (ex_io_read\<lparr>io_sched := y_s ex_io_stopped\<rparr>)) = Idle_wait 0
    \<and> fst (idle_begin 1 (ex_io\<lparr>io_sched := y_s ex_io_stopped\<rparr>)) = Idle_exit
    \<and> m_fibers (y_s ex_io_stopped) = [] \<and> w_pc (y_w ex_io_stopped 7) = Running Idle_fiber 1"
proof -
  have f: "fresh_sys ex_io_sys" by (simp add: fresh_sys_def ex_io_sys_def ex_io_sched_def)
  have s: "y_leaked ex_io_stopped + card (y_ids ex_io_stopped) < 2 ^ 64"
    by (simp add: ex_io_stopped_facts ex_io_stopped_reach)
  note t = idle_loop_exit [OF _ _ f ex_io_stopped_reach(1) s]
  have "m_pendingEventCount ex_io_read = 1" by (simp add: ex_io_read_def set_ctx_def)
  then have "fst (idle_begin 1 (ex_io_read\<lparr>io_sched := y_s ex_io_stopped\<rparr>)) = Idle_wait 0"
    using t [of 1 "ex_io_read\<lparr>io_sched := y_s ex_io_stopped\<rparr>"] by auto
  moreover have e: "fst (idle_begin 1 (ex_io\<lparr>io_sched := y_s ex_io_stopped\<rparr>)) = Idle_exit"
    using t [of 1 "ex_io\<lparr>io_sched := y_s ex_io_stopped\<rparr>"] ex_io_stopped_facts(1)
    by (simp add: ex_io_fields TimerManager_ctor_def)
  moreover have "m_fibers (y_s ex_io_stopped) = []"
    using t [of 1 "ex_io\<lparr>io_sched := y_s ex_io_stopped\<rparr>"] e by simp
  ultimately show ?thesis using ex_io_stopped_facts(3) by blast
qed

theorem concurrent_resize_loses_context_witness:
  "\<exists>p1 io1 io2 p2 io3. addEvent_grow 100 ex_io = Inr (p1, io1)
     \<and> addEvent_on p1 100 READ (Some (Fn ())) (Some 5) (0, EXEC) 0 io1 = Inr (0, io2)
     \<and> addEvent_grow 40 io2 = Inr (p2, io3) \<and> delEvent 100 READ 0 io3 = Inr (False, io3)"
  using concurrent_resize_loses_context [OF ex_io_inv, of 40 100 READ "Some 5" "Some (Fn ())" "(0, EXEC)" 0]
  by (auto simp: ex_io_fields)


end
