(* ===== verification/Fd_Manager.thy ===== *)
theory Fd_Manager
  imports Prelude
begin

text \<open>
  Descriptor contexts (\<open>fd_manager.h\<close>, \<open>fd_manager.cc\<close>): what the hooks remember about a
  descriptor, and the table that maps descriptors to contexts.  The results of \<open>fstat\<close> and
  \<open>fcntl\<close> are arguments.  The lemmas state the table's contract as a map, show that the
  growing vector implements it, and give the invariant of the contexts.
\<close>

section \<open>\<open>FdCtx\<close>\<close>

text \<open>The flag \<open>O_NONBLOCK\<close> and the socket options of Linux.\<close>

definition O_NONBLOCK :: i32 where "O_NONBLOCK = 0x800"
definition SO_RCVTIMEO :: int where "SO_RCVTIMEO = 20"
definition SO_SNDTIMEO :: int where "SO_SNDTIMEO = 21"

record fd_ctx =
  m_isInit :: bool
  m_isSocket :: bool
  m_sysNonblock :: bool
  m_userNonblock :: bool
  m_isClosed :: bool
  m_fd :: fd
  m_recvTimeout :: u64
  m_sendTimeout :: u64

text \<open>\<open>FdCtx::init\<close>: \<open>st\<close> is whether the descriptor is a socket according to \<open>fstat\<close>, or
  \<open>None\<close> if that fails; \<open>flags\<close> is what \<open>fcntl(F_GETFL)\<close> returns.  The result carries
  \<open>m_isInit\<close> and the flags given to \<open>fcntl(F_SETFL)\<close>, if it is called.\<close>

definition FdCtx_init :: "bool option \<Rightarrow> i32 \<Rightarrow> fd_ctx \<Rightarrow> bool \<times> i32 option \<times> fd_ctx" where
  "FdCtx_init st flags c =
     (if m_isInit c then (True, None, c)
      else
        let c1 = c\<lparr>m_recvTimeout := -1, m_sendTimeout := -1\<rparr>;
            c2 = (case st of
                    None \<Rightarrow> c1\<lparr>m_isInit := False, m_isSocket := False\<rparr>
                  | Some sock \<Rightarrow> c1\<lparr>m_isInit := True, m_isSocket := sock\<rparr>);
            (call, c3) =
              (if m_isSocket c2 then
                 (if flags AND O_NONBLOCK = 0 then Some (flags OR O_NONBLOCK) else None,
                  c2\<lparr>m_sysNonblock := True\<rparr>)
               else (None, c2\<lparr>m_sysNonblock := False\<rparr>));
            c4 = c3\<lparr>m_userNonblock := False, m_isClosed := False\<rparr>
        in (m_isInit c4, call, c4))"

definition FdCtx_ctor :: "fd \<Rightarrow> bool option \<Rightarrow> i32 \<Rightarrow> i32 option \<times> fd_ctx" where
  "FdCtx_ctor fd st flags =
     snd (FdCtx_init st flags
       \<lparr>m_isInit = False, m_isSocket = False, m_sysNonblock = False, m_userNonblock = False,
        m_isClosed = False, m_fd = fd, m_recvTimeout = -1, m_sendTimeout = -1\<rparr>)"

definition setUserNonblock :: "bool \<Rightarrow> fd_ctx \<Rightarrow> fd_ctx" where
  "setUserNonblock v c = c\<lparr>m_userNonblock := v\<rparr>"

definition setSysNonblock :: "bool \<Rightarrow> fd_ctx \<Rightarrow> fd_ctx" where
  "setSysNonblock v c = c\<lparr>m_sysNonblock := v\<rparr>"

definition setTimeout :: "int \<Rightarrow> u64 \<Rightarrow> fd_ctx \<Rightarrow> fd_ctx" where
  "setTimeout type v c =
     (if type = SO_RCVTIMEO then c\<lparr>m_recvTimeout := v\<rparr> else c\<lparr>m_sendTimeout := v\<rparr>)"

definition getTimeout :: "int \<Rightarrow> fd_ctx \<Rightarrow> u64" where
  "getTimeout type c = (if type = SO_RCVTIMEO then m_recvTimeout c else m_sendTimeout c)"

section \<open>\<open>FdManager\<close>\<close>

record fd_manager =
  m_datas :: "fd_ctx option list"

definition FdManager_ctor :: fd_manager where
  "FdManager_ctor = \<lparr>m_datas = vec_resize 64 None []\<rparr>"

text \<open>\<open>m_datas[fd]\<close> for reading and for writing.\<close>

definition data_at :: "fd \<Rightarrow> fd_manager \<Rightarrow> fd_ctx option res" where
  "data_at fd m =
     (if fd < 0 \<or> int (length (m_datas m)) \<le> fd then Inl (Undefined ''m_datas[fd]'')
      else Inr (m_datas m ! nat fd))"

definition set_data :: "fd \<Rightarrow> fd_ctx option \<Rightarrow> fd_manager \<Rightarrow> fd_manager res" where
  "set_data fd d m =
     (if fd < 0 \<or> int (length (m_datas m)) \<le> fd then Inl (Undefined ''m_datas[fd]'')
      else Inr (m\<lparr>m_datas := (m_datas m)[nat fd := d]\<rparr>))"

text \<open>\<open>get\<close> under the read lock, and its second part under the write lock.\<close>

definition get_lookup :: "fd \<Rightarrow> fd_manager \<Rightarrow> fd_ctx option res" where
  "get_lookup fd m =
     (if fd < int (length (m_datas m)) then data_at fd m else Inr None)"

definition get_create :: "fd \<Rightarrow> fd_ctx \<Rightarrow> fd_manager \<Rightarrow> fd_manager res" where
  "get_create fd ctx m =
     (let m1 = (if int (length (m_datas m)) \<le> fd
                then m\<lparr>m_datas := vec_resize (nat (3 * fd div 2)) None (m_datas m)\<rparr> else m)
      in set_data fd (Some ctx) m1)"

text \<open>\<open>FdManager::get\<close> without interference: the context, the flags set on a new socket, and
  the manager.\<close>

definition get ::
  "fd \<Rightarrow> bool \<Rightarrow> bool option \<Rightarrow> i32 \<Rightarrow> fd_manager \<Rightarrow> (fd_ctx option \<times> i32 option \<times> fd_manager) res" where
  "get fd auto_create st flags m =
     res_bind (get_lookup fd m)
       (\<lambda>d. if d \<noteq> None then Inr (d, None, m)
            else if auto_create then
              (case FdCtx_ctor fd st flags of
                 (call, ctx) \<Rightarrow> res_bind (get_create fd ctx m) (\<lambda>m1. Inr (Some ctx, call, m1)))
            else Inr (None, None, m))"

definition del :: "fd \<Rightarrow> fd_manager \<Rightarrow> fd_manager res" where
  "del fd m = (if fd < int (length (m_datas m)) then set_data fd None m else Inr m)"

text \<open>A mutation of the context \<open>get(fd)\<close> returned, through the shared pointer.\<close>

definition update_ctx :: "fd \<Rightarrow> (fd_ctx \<Rightarrow> fd_ctx) \<Rightarrow> fd_manager \<Rightarrow> fd_manager" where
  "update_ctx fd f m =
     (case data_at fd m of
        Inr (Some c) \<Rightarrow> m\<lparr>m_datas := (m_datas m)[nat fd := Some (f c)]\<rparr>
      | _ \<Rightarrow> m)"

section \<open>The table as a map\<close>

text \<open>
  The contract of a table of descriptors: an assignment is seen at its own key only.
\<close>

locale fd_map =
  fixes inv :: "'t \<Rightarrow> bool"
    and look :: "'t \<Rightarrow> nat \<Rightarrow> 'v option"
    and put :: "nat \<Rightarrow> 'v \<Rightarrow> 't \<Rightarrow> 't"
    and drop_key :: "nat \<Rightarrow> 't \<Rightarrow> 't"
  assumes look_put: "inv t \<Longrightarrow> look (put k v t) = (look t)(k \<mapsto> v)"
    and look_drop: "inv t \<Longrightarrow> look (drop_key k t) = (look t)(k := None)"
    and inv_put: "inv t \<Longrightarrow> inv (put k v t)"
    and inv_drop: "inv t \<Longrightarrow> inv (drop_key k t)"
begin

text \<open>A sequence of assignments (\<open>Some\<close>) and removals.\<close>

fun exec :: "(nat \<times> 'v option) list \<Rightarrow> 't \<Rightarrow> 't" where
  "exec [] t = t"
| "exec ((k, Some v) # xs) t = exec xs (put k v t)"
| "exec ((k, None) # xs) t = exec xs (drop_key k t)"

lemma inv_exec: "inv t \<Longrightarrow> inv (exec xs t)"
  by (induction xs t rule: exec.induct) (simp_all add: inv_put inv_drop)

lemma look_exec: "inv t \<Longrightarrow> look (exec xs t) = foldl (\<lambda>f (k, v). f(k := v)) (look t) xs"
  by (induction xs t rule: exec.induct) (simp_all add: look_put look_drop inv_put inv_drop)

lemma foldl_other: "k \<notin> fst ` set ys \<Longrightarrow> foldl (\<lambda>f (k, v). f(k := v)) f ys k = f k"
  by (induction ys arbitrary: f) auto

text \<open>A key holds what the last operation on it left.\<close>

lemma look_last:
  assumes "inv t" and "k \<notin> fst ` set ys"
  shows "look (exec (xs @ (k, v) # ys) t) k = v"
  by (simp add: look_exec [OF assms(1)] foldl_other [OF assms(2)])

end

definition fd_look :: "fd_manager \<Rightarrow> nat \<Rightarrow> fd_ctx option" where
  "fd_look m n = (if n < length (m_datas m) then m_datas m ! n else None)"

definition fd_put :: "nat \<Rightarrow> fd_ctx \<Rightarrow> fd_manager \<Rightarrow> fd_manager" where
  "fd_put n c m = (case get_create (int n) c m of Inr m1 \<Rightarrow> m1 | Inl _ \<Rightarrow> m)"

definition fd_drop :: "nat \<Rightarrow> fd_manager \<Rightarrow> fd_manager" where
  "fd_drop n m = (case del (int n) m of Inr m1 \<Rightarrow> m1 | Inl _ \<Rightarrow> m)"

text \<open>The table of a manager never gets shorter than it starts.\<close>

abbreviation fd_ok :: "fd_manager \<Rightarrow> bool" where
  "fd_ok m \<equiv> 64 \<le> length (m_datas m)"

lemma get_create_result:
  assumes "fd_ok m" and "0 \<le> fd"
  obtains m1 where "get_create fd c m = Inr m1" "fd_ok m1"
    "fd_look m1 = (fd_look m)(nat fd \<mapsto> c)"
proof -
  let ?n = "if int (length (m_datas m)) \<le> fd then nat (3 * fd div 2) else length (m_datas m)"
  let ?ds = "vec_resize ?n None (m_datas m)"
  have n: "length (m_datas m) \<le> ?n" "nat fd < ?n" "\<not> int ?n \<le> fd" using assms by auto
  have ds: "(if int (length (m_datas m)) \<le> fd
                then m\<lparr>m_datas := vec_resize (nat (3 * fd div 2)) None (m_datas m)\<rparr> else m)
      = m\<lparr>m_datas := ?ds\<rparr>"
    by (cases m) (simp add: vec_resize_def)
  have g: "get_create fd c m = Inr (m\<lparr>m_datas := ?ds[nat fd := Some c]\<rparr>)"
    unfolding get_create_def Let_def ds set_data_def using n assms(2) by simp
  have "fd_look (m\<lparr>m_datas := ?ds[nat fd := Some c]\<rparr>) k = ((fd_look m)(nat fd \<mapsto> c)) k" for k
    using n(1,2) by (auto simp: fd_look_def nth_vec_resize nth_list_update)
  then have "fd_look (m\<lparr>m_datas := ?ds[nat fd := Some c]\<rparr>) = (fd_look m)(nat fd \<mapsto> c)" by (rule ext)
  with g n(1) assms(1) that show thesis by simp
qed

lemma del_result:
  assumes "fd_ok m" and "0 \<le> fd"
  obtains m1 where "del fd m = Inr m1" "fd_ok m1" "fd_look m1 = (fd_look m)(nat fd := None)"
proof (cases "fd < int (length (m_datas m))")
  case True
  then have d: "del fd m = Inr (m\<lparr>m_datas := (m_datas m)[nat fd := None]\<rparr>)"
    using assms(2) by (simp add: del_def set_data_def)
  have "fd_look (m\<lparr>m_datas := (m_datas m)[nat fd := None]\<rparr>) k = ((fd_look m)(nat fd := None)) k" for k
    using True assms(2) by (auto simp: fd_look_def nth_list_update)
  then have "fd_look (m\<lparr>m_datas := (m_datas m)[nat fd := None]\<rparr>) = (fd_look m)(nat fd := None)"
    by (rule ext)
  with d assms(1) that show thesis by simp
next
  case False
  then have "\<not> nat fd < length (m_datas m)" by linarith
  then have "fd_look m (nat fd) = None" unfolding fd_look_def by (rule if_not_P)
  then show thesis using that [of m] False assms(1) by (simp add: del_def fun_upd_idem)
qed

lemma fd_put_ok: "fd_ok m \<Longrightarrow> fd_ok (fd_put n c m) \<and> fd_look (fd_put n c m) = (fd_look m)(n \<mapsto> c)"
  by (rule get_create_result [of m "int n" c]) (simp_all add: fd_put_def)

lemma fd_drop_ok: "fd_ok m \<Longrightarrow> fd_ok (fd_drop n m) \<and> fd_look (fd_drop n m) = (fd_look m)(n := None)"
  by (rule del_result [of m "int n"]) (simp_all add: fd_drop_def)

interpretation fdm: fd_map fd_ok fd_look fd_put fd_drop
  by unfold_locales (use fd_put_ok fd_drop_ok in blast)+

lemma get_lookup_ok: "0 \<le> fd \<Longrightarrow> get_lookup fd m = Inr (fd_look m (nat fd))"
  by (auto simp: get_lookup_def data_at_def fd_look_def)

text \<open>C29: the manager implements a map from descriptors to contexts: \<open>get\<close> returns the entry, and
  with \<open>auto_create\<close> fills a missing one with a new context; \<open>del\<close> removes it; no other
  descriptor is affected, and the table growing on demand is not observable.\<close>

theorem fd_manager_refines_map:
  assumes "fd_ok m" and "0 \<le> fd"
  shows "(\<exists>call m1. get fd auto_create st flags m =
            Inr (if fd_look m (nat fd) = None \<and> auto_create then Some (snd (FdCtx_ctor fd st flags))
                 else fd_look m (nat fd), call, m1) \<and> fd_ok m1
          \<and> fd_look m1 = (if fd_look m (nat fd) = None \<and> auto_create
                          then (fd_look m)(nat fd \<mapsto> snd (FdCtx_ctor fd st flags)) else fd_look m))
    \<and> (\<exists>m1. del fd m = Inr m1 \<and> fd_ok m1 \<and> fd_look m1 = (fd_look m)(nat fd := None))"
proof -
  obtain m1 where m1: "get_create fd (snd (FdCtx_ctor fd st flags)) m = Inr m1" "fd_ok m1"
    "fd_look m1 = (fd_look m)(nat fd \<mapsto> snd (FdCtx_ctor fd st flags))"
    using get_create_result [OF assms] by blast
  obtain m2 where m2: "del fd m = Inr m2" "fd_ok m2" "fd_look m2 = (fd_look m)(nat fd := None)"
    using del_result [OF assms] by blast
  show ?thesis using m1 m2 assms
    by (cases "FdCtx_ctor fd st flags"; cases "fd_look m (nat fd)")
      (simp_all add: get_def get_lookup_ok)
qed

theorem fd_manager_refines_map_witness:
  "\<exists>call m1. get 100 True (Some True) 2 FdManager_ctor = Inr (Some (snd (FdCtx_ctor 100 (Some True) 2)), call, m1)
     \<and> fd_look m1 99 = None"
proof -
  have ok: "fd_ok FdManager_ctor" by (simp add: FdManager_ctor_def)
  have n: "fd_look FdManager_ctor k = None" for k
    by (simp add: fd_look_def FdManager_ctor_def nth_vec_resize)
  from fd_manager_refines_map [OF ok, of 100 True "Some True" 2] show ?thesis
    by (auto simp: n)
qed

section \<open>The contexts\<close>

definition ctx_inv :: "fd_ctx \<Rightarrow> bool" where
  "ctx_inv c \<longleftrightarrow> (m_isSocket c \<longrightarrow> m_isInit c) \<and> (m_sysNonblock c \<longleftrightarrow> m_isSocket c)
     \<and> (m_userNonblock c \<longrightarrow> m_isSocket c) \<and> \<not> m_isClosed c"

lemma ctor_ctx_inv: "ctx_inv (snd (FdCtx_ctor fd st flags))" "m_fd (snd (FdCtx_ctor fd st flags)) = fd"
  by (auto simp: FdCtx_ctor_def FdCtx_init_def ctx_inv_def Let_def split: option.splits)

lemma set_ctx_inv:
  "ctx_inv c \<Longrightarrow> ctx_inv (setTimeout type v c)"
  "ctx_inv c \<Longrightarrow> m_isSocket c \<Longrightarrow> ctx_inv (setUserNonblock b c)"
  by (simp_all add: ctx_inv_def setTimeout_def setUserNonblock_def)

text \<open>A new context of a socket has left the descriptor non-blocking in the kernel (it sets the
  flag exactly if \<open>fcntl\<close> did not report it), and any other context leaves the kernel alone;
  timeouts start out unlimited, and each direction's timeout is read back as set, independently.\<close>

theorem fd_ctx_initial:
  "(case FdCtx_ctor fd st flags of (call, c) \<Rightarrow>
      ctx_inv c \<and> (m_isSocket c \<longleftrightarrow> st = Some True)
      \<and> (m_isSocket c \<longrightarrow> (case call of Some f \<Rightarrow> f | None \<Rightarrow> flags) AND O_NONBLOCK \<noteq> 0)
      \<and> (\<not> m_isSocket c \<longrightarrow> call = None)
      \<and> getTimeout SO_RCVTIMEO c = NOT 0 \<and> getTimeout SO_SNDTIMEO c = NOT 0
      \<and> getTimeout SO_RCVTIMEO (setTimeout SO_SNDTIMEO b (setTimeout SO_RCVTIMEO a c)) = a
      \<and> getTimeout SO_SNDTIMEO (setTimeout SO_RCVTIMEO a (setTimeout SO_SNDTIMEO b c)) = b)"
proof -
  have or: "(flags OR O_NONBLOCK) AND O_NONBLOCK \<noteq> 0"
    by (simp add: O_NONBLOCK_def word_ao_dist bit.conj_disj_distrib2)
  show ?thesis using or
    by (auto simp: FdCtx_ctor_def FdCtx_init_def ctx_inv_def Let_def getTimeout_def setTimeout_def
        SO_RCVTIMEO_def SO_SNDTIMEO_def split: option.splits)
qed

text \<open>\<open>get\<close> has no defined behaviour for a negative descriptor (it indexes the vector with it),
  and only then, however the table has grown: the size test is signed and has no lower bound.\<close>

theorem get_undefined_iff_negative:
  assumes "fd_ok m"
  shows "(\<exists>f. get fd auto_create st flags m = Inl f) \<longleftrightarrow> fd < 0"
proof (cases "fd < 0")
  case True
  then show ?thesis using assms by (auto simp: get_def get_lookup_def data_at_def)
next
  case False
  then obtain m1 where "get_create fd (snd (FdCtx_ctor fd st flags)) m = Inr m1"
    using get_create_result [OF assms] by (meson not_less)
  then show ?thesis using False
    by (cases "FdCtx_ctor fd st flags") (auto simp: get_def get_lookup_ok)
qed

theorem get_undefined_iff_negative_witness:
  "\<exists>f. get (-1) False None 0 FdManager_ctor = Inl f"
  using get_undefined_iff_negative [of FdManager_ctor "-1" False None 0]
  by (simp add: FdManager_ctor_def)

text \<open>Between the two locks of \<open>get\<close> another thread can create the same descriptor's context: both
  calls have found none, and the second one to take the write lock replaces the context the
  first one has already returned.  Only the descriptor's entry is touched.\<close>

theorem overlapping_get_replaces:
  assumes "fd_ok m" and "0 \<le> fd" and "get_lookup fd m = Inr None"
  shows "\<exists>m1 m2. get_create fd c1 m = Inr m1 \<and> fd_look m1 (nat fd) = Some c1
      \<and> get_create fd c2 m1 = Inr m2 \<and> fd_look m2 = (fd_look m)(nat fd \<mapsto> c2)"
proof -
  obtain m1 where m1: "get_create fd c1 m = Inr m1" "fd_ok m1" "fd_look m1 = (fd_look m)(nat fd \<mapsto> c1)"
    using get_create_result [OF assms(1,2)] by blast
  moreover obtain m2 where "get_create fd c2 m1 = Inr m2" "fd_look m2 = (fd_look m1)(nat fd \<mapsto> c2)"
    using get_create_result [OF m1(2) assms(2)] by blast
  ultimately show ?thesis by simp
qed

theorem overlapping_get_replaces_witness:
  "\<exists>m1 m2. get_create 5 c1 FdManager_ctor = Inr m1 \<and> get_create 5 c2 m1 = Inr m2
     \<and> fd_look m2 5 = Some c2"
proof -
  have "fd_ok FdManager_ctor" "get_lookup 5 FdManager_ctor = Inr None"
    by (simp_all add: FdManager_ctor_def get_lookup_def data_at_def vec_resize_def)
  then obtain m1 m2 where "get_create 5 c1 FdManager_ctor = Inr m1" "get_create 5 c2 m1 = Inr m2"
    "fd_look m2 = (fd_look FdManager_ctor)(nat 5 \<mapsto> c2)"
    using overlapping_get_replaces [of FdManager_ctor 5 c1 c2] by auto
  then show ?thesis by auto
qed

end
