(* ===== verification/Hook.thy ===== *)
theory Hook
  imports IO_Properties Fd_Manager
begin

text \<open>
  The hooked system calls (\<open>hook.h\<close>, \<open>hook.cc\<close>) of one thread.  The C library's functions
  are parameters: a result of \<open>read\<close>, \<open>connect\<close> or \<open>socket\<close> is an argument, \<open>fcntl\<close> and \<open>ioctl\<close>
  are functions on a kernel state.  A call that gives up the processor is cut at the
  switch: \<open>do_io\<close> is a step function whose program counter says whether it is about to try
  the operation, waiting, or done, and between two steps the rest of the program may run.
  The lemmas show when a call is passed through unchanged, what a call that would block
  registers and how it ends, what the user sees of the non-blocking flag, and how long the
  sleeping functions sleep.
\<close>

section \<open>Data\<close>

definition EINTR :: int where "EINTR = 4"
definition EBADF :: int where "EBADF = 9"
definition EAGAIN :: int where "EAGAIN = 11"
definition ETIMEDOUT :: int where "ETIMEDOUT = 110"
definition EINPROGRESS :: int where "EINPROGRESS = 115"
definition SOL_SOCKET :: int where "SOL_SOCKET = 1"

lemmas errno_defs = EINTR_def EBADF_def EAGAIN_def ETIMEDOUT_def EINPROGRESS_def

text \<open>The callbacks of this file: a bound \<open>schedule(fiber, -1)\<close>, the timeout lambda with its
  captured \<open>timer_info\<close>, descriptor and event, and everything else.\<close>

datatype 'u hcb = ScheduleFiber addr | Timeout addr fd u32 | User 'u

text \<open>The state a hooked call sees: \<open>t_hook_enable\<close>, the descriptor table, \<open>IOManager::GetThis()\<close>
  (\<open>None\<close> if null), \<open>errno\<close>, \<open>s_connect_timeout\<close>, the \<open>timer_info\<close> objects (their field
  \<open>cancelled\<close>, and which of them still exist) and the descriptors given to \<open>close_f\<close>.\<close>

record 'u hook_state =
  h_enable :: bool
  h_fdm :: fd_manager
  h_iom :: "'u hcb io_manager option"
  h_errno :: int
  h_connect_timeout :: u64
  h_cancelled :: "addr \<Rightarrow> int"
  h_tinfo_alive :: "addr \<Rightarrow> bool"
  h_closed :: "fd list"

definition is_hook_enable :: "'u hook_state \<Rightarrow> bool" where
  "is_hook_enable h = h_enable h"

definition set_hook_enable :: "bool \<Rightarrow> 'u hook_state \<Rightarrow> 'u hook_state" where
  "set_hook_enable flag h = h\<lparr>h_enable := flag\<rparr>"

text \<open>The listener of \<open>tcp.connect.timeout\<close>: an \<open>int\<close> is converted to \<open>uint64_t\<close>.\<close>

definition on_connect_timeout_changed :: "int \<Rightarrow> 'u hook_state \<Rightarrow> 'u hook_state" where
  "on_connect_timeout_changed new_value h = h\<lparr>h_connect_timeout := word_of_int new_value\<rparr>"

text \<open>\<open>FdMgr::GetInstance()->get(fd)\<close>, which creates nothing.\<close>

definition lookup_ctx :: "fd \<Rightarrow> 'u hook_state \<Rightarrow> fd_ctx option res" where
  "lookup_ctx fd h = res_bind (get fd False None 0 (h_fdm h)) (\<lambda>(d, _, _). Inr d)"

text \<open>\<open>FdMgr::GetInstance()->get(fd, true)\<close>; \<open>st\<close> and \<open>flags\<close> are what \<open>fstat\<close> and \<open>fcntl\<close> say.\<close>

definition create_ctx :: "fd \<Rightarrow> bool option \<Rightarrow> i32 \<Rightarrow> 'u hook_state \<Rightarrow> 'u hook_state res" where
  "create_ctx fd st flags h =
     res_bind (get fd True st flags (h_fdm h)) (\<lambda>(_, _, m). Inr (h\<lparr>h_fdm := m\<rparr>))"

section \<open>Timers and waiting\<close>

text \<open>\<open>iom->addTimer\<close> with its call of \<open>onTimerInsertedAtFront\<close>; \<open>ta\<close> is the new timer.\<close>

definition io_add_timer ::
  "u64 \<Rightarrow> 'cb timer_fn option \<Rightarrow> u64 \<Rightarrow> addr \<Rightarrow> 'cb io_manager \<Rightarrow> 'cb io_manager" where
  "io_add_timer ms cb now ta io =
     (case addTimer ms cb False now ta (io_timers io) of
        (at_front, tm) \<Rightarrow>
          let io1 = io\<lparr>io_timers := tm\<rparr> in if at_front then onTimerInsertedAtFront io1 else io1)"

definition io_add_condition_timer ::
  "u64 \<Rightarrow> 'cb \<Rightarrow> addr \<Rightarrow> u64 \<Rightarrow> addr \<Rightarrow> 'cb io_manager \<Rightarrow> 'cb io_manager" where
  "io_add_condition_timer ms cb w now ta io =
     (case addConditionTimer ms cb w False now ta (io_timers io) of
        (at_front, tm) \<Rightarrow>
          let io1 = io\<lparr>io_timers := tm\<rparr> in if at_front then onTimerInsertedAtFront io1 else io1)"

text \<open>\<open>if(timer) { timer->cancel(); }\<close>\<close>

definition cancel_timer :: "addr option \<Rightarrow> 'cb io_manager \<Rightarrow> 'cb io_manager res" where
  "cancel_timer timer io =
     (case timer of
        None \<Rightarrow> Inr io
      | Some a \<Rightarrow> res_bind (cancel a (io_timers io)) (\<lambda>(_, tm). Inr (io\<lparr>io_timers := tm\<rparr>)))"

text \<open>The lambda of the timeout timer of \<open>do_io\<close> and of \<open>connect_with_timeout\<close>; \<open>rt\<close> is the
  result of the \<open>epoll_ctl\<close> call that \<open>cancelEvent\<close> makes.\<close>

definition on_timeout :: "addr \<Rightarrow> fd \<Rightarrow> u32 \<Rightarrow> int \<Rightarrow> 'u hook_state \<Rightarrow> 'u hook_state res" where
  "on_timeout w fd event rt h =
     (if \<not> h_tinfo_alive h w \<or> h_cancelled h w \<noteq> 0 then Inr h
      else
        let h1 = h\<lparr>h_cancelled := (h_cancelled h)(w := ETIMEDOUT)\<rparr>
        in case h_iom h1 of
             None \<Rightarrow> Inl (Undefined ''iom is null'')
           | Some io \<Rightarrow> res_bind (cancelEvent fd event rt io) (\<lambda>(_, io1). Inr (h1\<lparr>h_iom := Some io1\<rparr>)))"

section \<open>\<open>do_io\<close>\<close>

text \<open>Up to the label \<open>retry\<close>: the original function is called and its result returned, the
  call fails, or the loop starts with the timeout \<open>to\<close>.\<close>

datatype io_start = Direct | Fail | Loop u64

definition do_io_start :: "fd \<Rightarrow> int \<Rightarrow> 'u hook_state \<Rightarrow> (io_start \<times> 'u hook_state) res" where
  "do_io_start fd timeout_so h =
     (if \<not> h_enable h then Inr (Direct, h)
      else res_bind (lookup_ctx fd h)
        (\<lambda>d. case d of
               None \<Rightarrow> Inr (Direct, h)
             | Some ctx \<Rightarrow>
                 if m_isClosed ctx then Inr (Fail, h\<lparr>h_errno := EBADF\<rparr>)
                 else if \<not> m_isSocket ctx \<and> m_userNonblock ctx then Inr (Direct, h)
                 else Inr (Loop (getTimeout timeout_so ctx), h)))"

text \<open>The calls of the original function from \<open>retry\<close> on: \<open>tries\<close> are the results \<open>(n, errno)\<close>
  it gives, call by call; the first that is not an interrupted call counts.\<close>

fun skip_eintr :: "(int \<times> int) list \<Rightarrow> (int \<times> int) option" where
  "skip_eintr [] = None"
| "skip_eintr ((n, e) # rs) = (if n = -1 \<and> e = EINTR then skip_eintr rs else Some (n, e))"

datatype io_pc = Attempt | Blocked "addr option" | Returned int

text \<open>The branch for \<open>EAGAIN\<close> up to \<open>YieldToHold\<close>: \<open>cur\<close> is the running fiber with its state,
  \<open>w\<close> the \<open>timer_info\<close>, \<open>now\<close> and \<open>ta\<close> the clock and address of the timer, \<open>rt\<close> the result of
  \<open>epoll_ctl\<close>.\<close>

definition do_io_wait ::
  "fd \<Rightarrow> u32 \<Rightarrow> u64 \<Rightarrow> addr \<Rightarrow> addr \<times> fiber_state \<Rightarrow> u64 \<Rightarrow> addr \<Rightarrow> int
    \<Rightarrow> 'u hook_state \<Rightarrow> (io_pc \<times> 'u hook_state) res" where
  "do_io_wait fd event to w cur now ta rt h =
     (case h_iom h of
        None \<Rightarrow> Inl (Undefined ''iom is null'')
      | Some io \<Rightarrow>
          let (timer, io1) =
                (if to \<noteq> -1
                 then (Some ta, io_add_condition_timer to (Timeout w fd event) w now ta io)
                 else (None, io))
          in res_bind (addEvent fd event None (Some (io_this io1)) cur rt io1)
               (\<lambda>(r, io2).
                  if r \<noteq> 0 then
                    res_bind (cancel_timer timer io2)
                      (\<lambda>io3. Inr (Returned (-1), h\<lparr>h_iom := Some io3\<rparr>))
                  else Inr (Blocked timer, h\<lparr>h_iom := Some io2\<rparr>)))"

text \<open>From \<open>retry\<close> to the switch or the return.\<close>

definition do_io_attempt ::
  "fd \<Rightarrow> u32 \<Rightarrow> u64 \<Rightarrow> addr \<Rightarrow> (int \<times> int) list \<Rightarrow> addr \<times> fiber_state \<Rightarrow> u64 \<Rightarrow> addr \<Rightarrow> int
    \<Rightarrow> 'u hook_state \<Rightarrow> (io_pc \<times> 'u hook_state) res" where
  "do_io_attempt fd event to w tries cur now ta rt h =
     (case skip_eintr tries of
        None \<Rightarrow> Inr (Attempt, h)
      | Some (n, e) \<Rightarrow>
          let h1 = (if n = -1 then h\<lparr>h_errno := e\<rparr> else h)
          in if n = -1 \<and> e = EAGAIN then do_io_wait fd event to w cur now ta rt h1
             else Inr (Returned n, h1))"

text \<open>After the switch back: the timer is cancelled; a timeout ends the call, anything else
  starts over at \<open>retry\<close>.\<close>

definition do_io_resume ::
  "addr \<Rightarrow> addr option \<Rightarrow> 'u hook_state \<Rightarrow> (io_pc \<times> 'u hook_state) res" where
  "do_io_resume w timer h =
     (case h_iom h of
        None \<Rightarrow> Inl (Undefined ''iom is null'')
      | Some io \<Rightarrow> res_bind (cancel_timer timer io)
          (\<lambda>io1. let h1 = h\<lparr>h_iom := Some io1\<rparr>
                 in if h_cancelled h1 w \<noteq> 0
                    then Inr (Returned (-1), h1\<lparr>h_errno := h_cancelled h1 w\<rparr>)
                    else Inr (Attempt, h1)))"

text \<open>The functions that are \<open>do_io\<close> with the original function, and their event and timeout.\<close>

datatype io_fun = F_accept | F_read | F_readv | F_recv | F_recvfrom | F_recvmsg
  | F_write | F_writev | F_send | F_sendto | F_sendmsg

definition io_event :: "io_fun \<Rightarrow> u32" where
  "io_event f =
     (case f of F_accept \<Rightarrow> READ | F_read \<Rightarrow> READ | F_readv \<Rightarrow> READ | F_recv \<Rightarrow> READ
      | F_recvfrom \<Rightarrow> READ | F_recvmsg \<Rightarrow> READ | F_write \<Rightarrow> WRITE | F_writev \<Rightarrow> WRITE
      | F_send \<Rightarrow> WRITE | F_sendto \<Rightarrow> WRITE | F_sendmsg \<Rightarrow> WRITE)"

definition io_timeout_so :: "io_fun \<Rightarrow> int" where
  "io_timeout_so f =
     (case f of F_accept \<Rightarrow> SO_RCVTIMEO | F_read \<Rightarrow> SO_RCVTIMEO | F_readv \<Rightarrow> SO_RCVTIMEO
      | F_recv \<Rightarrow> SO_RCVTIMEO | F_recvfrom \<Rightarrow> SO_RCVTIMEO | F_recvmsg \<Rightarrow> SO_RCVTIMEO
      | F_write \<Rightarrow> SO_SNDTIMEO | F_writev \<Rightarrow> SO_SNDTIMEO | F_send \<Rightarrow> SO_SNDTIMEO
      | F_sendto \<Rightarrow> SO_SNDTIMEO | F_sendmsg \<Rightarrow> SO_SNDTIMEO)"

text \<open>The end of \<open>accept\<close>: a new descriptor gets a context.\<close>

definition accept_end :: "int \<Rightarrow> bool option \<Rightarrow> i32 \<Rightarrow> 'u hook_state \<Rightarrow> (int \<times> 'u hook_state) res" where
  "accept_end fd st flags h =
     (if fd \<ge> 0 then res_bind (create_ctx fd st flags h) (\<lambda>h1. Inr (fd, h1)) else Inr (fd, h))"

section \<open>Sleeping\<close>

text \<open>How a call that may sleep goes on: with the original function, or switched out until the
  scheduler resumes it.\<close>

datatype sleep_next = Sleep_direct | Sleep_switch

definition sleep_for ::
  "u64 \<Rightarrow> addr \<Rightarrow> u64 \<Rightarrow> addr \<Rightarrow> 'u hook_state \<Rightarrow> (sleep_next \<times> 'u hook_state) res" where
  "sleep_for ms fiber now ta h =
     (if \<not> h_enable h then Inr (Sleep_direct, h)
      else case h_iom h of
             None \<Rightarrow> Inl (Undefined ''iom is null'')
           | Some io \<Rightarrow>
               Inr (Sleep_switch, h\<lparr>h_iom := Some (io_add_timer ms (Some (Fn (ScheduleFiber fiber))) now ta io)\<rparr>))"

text \<open>Division of C, which truncates.\<close>

definition c_div :: "int \<Rightarrow> int \<Rightarrow> int" where
  "c_div a b = sgn a * sgn b * (\<bar>a\<bar> div \<bar>b\<bar>)"

definition sleep_ms :: "u32 \<Rightarrow> u64" where
  "sleep_ms seconds = ucast (seconds * 1000)"

definition usleep_ms :: "u32 \<Rightarrow> u64" where
  "usleep_ms usec = ucast (usec div 1000)"

definition nanosleep_ms :: "int \<Rightarrow> int \<Rightarrow> u64" where
  "nanosleep_ms tv_sec tv_nsec = word_of_int (tv_sec * 1000 + c_div tv_nsec 1000000)"

definition sleep ::
  "u32 \<Rightarrow> addr \<Rightarrow> u64 \<Rightarrow> addr \<Rightarrow> 'u hook_state \<Rightarrow> (sleep_next \<times> 'u hook_state) res" where
  "sleep seconds = sleep_for (sleep_ms seconds)"

definition usleep ::
  "u32 \<Rightarrow> addr \<Rightarrow> u64 \<Rightarrow> addr \<Rightarrow> 'u hook_state \<Rightarrow> (sleep_next \<times> 'u hook_state) res" where
  "usleep usec = sleep_for (usleep_ms usec)"

definition nanosleep ::
  "int \<Rightarrow> int \<Rightarrow> addr \<Rightarrow> u64 \<Rightarrow> addr \<Rightarrow> 'u hook_state \<Rightarrow> (sleep_next \<times> 'u hook_state) res" where
  "nanosleep tv_sec tv_nsec = sleep_for (nanosleep_ms tv_sec tv_nsec)"

section \<open>Sockets\<close>

text \<open>\<open>socket\<close>: \<open>fd\<close> is what \<open>socket_f\<close> returns.\<close>

definition socket :: "int \<Rightarrow> bool option \<Rightarrow> i32 \<Rightarrow> 'u hook_state \<Rightarrow> (int \<times> 'u hook_state) res" where
  "socket fd st flags h =
     (if \<not> h_enable h then Inr (fd, h)
      else if fd = -1 then Inr (fd, h)
      else res_bind (create_ctx fd st flags h) (\<lambda>h1. Inr (fd, h1)))"

text \<open>\<open>connect_with_timeout\<close> up to its first call of \<open>connect_f\<close> as a blocking call: \<open>Direct\<close>
  stands for \<open>return connect_f(...)\<close>.\<close>

datatype connect_start = Connect_direct | Connect_fail | Connect_try

definition connect_start_of :: "fd \<Rightarrow> 'u hook_state \<Rightarrow> (connect_start \<times> 'u hook_state) res" where
  "connect_start_of fd h =
     (if \<not> h_enable h then Inr (Connect_direct, h)
      else res_bind (lookup_ctx fd h)
        (\<lambda>d. case d of
               None \<Rightarrow> Inr (Connect_fail, h\<lparr>h_errno := EBADF\<rparr>)
             | Some ctx \<Rightarrow>
                 if m_isClosed ctx then Inr (Connect_fail, h\<lparr>h_errno := EBADF\<rparr>)
                 else if \<not> m_isSocket ctx then Inr (Connect_direct, h)
                 else if m_userNonblock ctx then Inr (Connect_direct, h)
                 else Inr (Connect_try, h)))"

datatype connect_pc = Connect_returned int | Connect_blocked "addr option" | Connect_check

text \<open>From \<open>connect_f\<close>, which returned \<open>n\<close> with \<open>e\<close> in \<open>errno\<close>, to the switch.\<close>

definition connect_wait ::
  "fd \<Rightarrow> u64 \<Rightarrow> int \<Rightarrow> int \<Rightarrow> addr \<Rightarrow> addr \<times> fiber_state \<Rightarrow> u64 \<Rightarrow> addr \<Rightarrow> int
    \<Rightarrow> 'u hook_state \<Rightarrow> (connect_pc \<times> 'u hook_state) res" where
  "connect_wait fd timeout_ms n e w cur now ta rt h =
     (let h1 = (if n = -1 then h\<lparr>h_errno := e\<rparr> else h)
      in if n = 0 then Inr (Connect_returned 0, h1)
         else if n \<noteq> -1 \<or> h_errno h1 \<noteq> EINPROGRESS then Inr (Connect_returned n, h1)
         else case h_iom h1 of
                None \<Rightarrow> Inl (Undefined ''iom is null'')
              | Some io \<Rightarrow>
                  let (timer, io1) =
                        (if timeout_ms \<noteq> -1
                         then (Some ta, io_add_condition_timer timeout_ms (Timeout w fd WRITE) w now ta io)
                         else (None, io))
                  in res_bind (addEvent fd WRITE None (Some (io_this io1)) cur rt io1)
                       (\<lambda>(r, io2).
                          if r = 0 then Inr (Connect_blocked timer, h1\<lparr>h_iom := Some io2\<rparr>)
                          else res_bind (cancel_timer timer io2)
                                 (\<lambda>io3. Inr (Connect_check, h1\<lparr>h_iom := Some io3\<rparr>))))"

definition connect_resume ::
  "addr \<Rightarrow> addr option \<Rightarrow> 'u hook_state \<Rightarrow> (connect_pc \<times> 'u hook_state) res" where
  "connect_resume w timer h =
     (case h_iom h of
        None \<Rightarrow> Inl (Undefined ''iom is null'')
      | Some io \<Rightarrow> res_bind (cancel_timer timer io)
          (\<lambda>io1. let h1 = h\<lparr>h_iom := Some io1\<rparr>
                 in if h_cancelled h1 w \<noteq> 0
                    then Inr (Connect_returned (-1), h1\<lparr>h_errno := h_cancelled h1 w\<rparr>)
                    else Inr (Connect_check, h1)))"

text \<open>The end: \<open>getsockopt(SO_ERROR)\<close> returned \<open>g\<close>, with \<open>ge\<close> in \<open>errno\<close> if it failed, and
  stored \<open>error\<close>.\<close>

definition connect_check :: "int \<Rightarrow> int \<Rightarrow> int \<Rightarrow> 'u hook_state \<Rightarrow> int \<times> 'u hook_state" where
  "connect_check g ge error h =
     (if g = -1 then (-1, h\<lparr>h_errno := ge\<rparr>)
      else if error = 0 then (0, h) else (-1, h\<lparr>h_errno := error\<rparr>))"

text \<open>\<open>connect_with_timeout\<close> from its start to the switch or its return, when \<open>connect_f\<close> returns
  \<open>n\<close> with \<open>e\<close> in \<open>errno\<close>; \<open>connect\<close> takes the configured timeout.\<close>

definition connect_with_timeout ::
  "fd \<Rightarrow> u64 \<Rightarrow> int \<Rightarrow> int \<Rightarrow> addr \<Rightarrow> addr \<times> fiber_state \<Rightarrow> u64 \<Rightarrow> addr \<Rightarrow> int
    \<Rightarrow> 'u hook_state \<Rightarrow> (connect_pc \<times> 'u hook_state) res" where
  "connect_with_timeout fd timeout_ms n e w cur now ta rt h =
     res_bind (connect_start_of fd h)
       (\<lambda>(st, h1). case st of
          Connect_direct \<Rightarrow> Inr (Connect_returned n, if n = -1 then h1\<lparr>h_errno := e\<rparr> else h1)
        | Connect_fail \<Rightarrow> Inr (Connect_returned (-1), h1)
        | Connect_try \<Rightarrow> connect_wait fd timeout_ms n e w cur now ta rt h1)"

definition connect ::
  "fd \<Rightarrow> int \<Rightarrow> int \<Rightarrow> addr \<Rightarrow> addr \<times> fiber_state \<Rightarrow> u64 \<Rightarrow> addr \<Rightarrow> int
    \<Rightarrow> 'u hook_state \<Rightarrow> (connect_pc \<times> 'u hook_state) res" where
  "connect sockfd n e w cur now ta rt h =
     connect_with_timeout sockfd (h_connect_timeout h) n e w cur now ta rt h"

text \<open>\<open>close\<close>; \<open>rt\<close> is the result of the \<open>epoll_ctl\<close> call of \<open>cancelAll\<close>.\<close>

definition close_hook :: "fd \<Rightarrow> int \<Rightarrow> 'u hook_state \<Rightarrow> 'u hook_state res" where
  "close_hook fd rt h =
     (let close_f = (\<lambda>h. Inr (h\<lparr>h_closed := h_closed h @ [fd]\<rparr>))
      in if \<not> h_enable h then close_f h
         else res_bind (lookup_ctx fd h)
           (\<lambda>d. if d \<noteq> None then
                  res_bind
                    (case h_iom h of
                       None \<Rightarrow> Inr h
                     | Some io \<Rightarrow> res_bind (cancelAll fd rt io) (\<lambda>(_, io1). Inr (h\<lparr>h_iom := Some io1\<rparr>)))
                    (\<lambda>h1. res_bind (del fd (h_fdm h1)) (\<lambda>m. close_f (h1\<lparr>h_fdm := m\<rparr>)))
                else close_f h))"

section \<open>Flags and options\<close>

text \<open>The commands \<open>fcntl\<close> distinguishes; every other command is \<open>F_other\<close>.\<close>

datatype fcntl_cmd = F_SETFL | F_GETFL
  | F_DUPFD | F_DUPFD_CLOEXEC | F_SETFD | F_SETOWN | F_SETSIG | F_SETLEASE | F_NOTIFY | F_SETPIPE_SZ
  | F_GETFD | F_GETOWN | F_GETSIG | F_GETLEASE | F_GETPIPE_SZ
  | F_SETLK | F_SETLKW | F_GETLK | F_GETOWN_EX | F_SETOWN_EX
  | F_other int

text \<open>The optional argument as the caller passed it and as \<open>fcntl_f\<close> gets it.\<close>

datatype fcntl_arg = No_arg | Int_arg i32 | Ptr_arg addr

definition hidden :: "fd_ctx option \<Rightarrow> bool" where
  "hidden d = (case d of None \<Rightarrow> True | Some ctx \<Rightarrow> m_isClosed ctx \<or> \<not> m_isSocket ctx)"

definition fcntl_hook ::
  "(fd \<Rightarrow> fcntl_cmd \<Rightarrow> fcntl_arg \<Rightarrow> 'k \<Rightarrow> i32 \<times> 'k) \<Rightarrow> fd \<Rightarrow> fcntl_cmd \<Rightarrow> fcntl_arg
    \<Rightarrow> 'u hook_state \<times> 'k \<Rightarrow> (i32 \<times> 'u hook_state \<times> 'k) res" where
  "fcntl_hook fcntl_f fd cmd arg s =
     (case s of (h, k) \<Rightarrow>
        let through = (\<lambda>a h. case fcntl_f fd cmd a k of (r, k1) \<Rightarrow> Inr (r, h, k1)) in
        case cmd of
          F_SETFL \<Rightarrow>
            (case arg of
               Int_arg a \<Rightarrow>
                 res_bind (lookup_ctx fd h)
                   (\<lambda>d. if hidden d then through (Int_arg a) h
                        else
                          let h1 = h\<lparr>h_fdm := update_ctx fd (setUserNonblock (a AND O_NONBLOCK \<noteq> 0)) (h_fdm h)\<rparr>;
                              a1 = (if m_sysNonblock (the d) then a OR O_NONBLOCK else a AND NOT O_NONBLOCK)
                          in through (Int_arg a1) h1)
             | _ \<Rightarrow> Inl (Undefined ''va_arg''))
        | F_GETFL \<Rightarrow>
            (case fcntl_f fd cmd No_arg k of
               (a, k1) \<Rightarrow>
                 res_bind (lookup_ctx fd h)
                   (\<lambda>d. if hidden d then Inr (a, h, k1)
                        else if m_userNonblock (the d) then Inr (a OR O_NONBLOCK, h, k1)
                        else Inr (a AND NOT O_NONBLOCK, h, k1)))
        | F_GETFD \<Rightarrow> through No_arg h | F_GETOWN \<Rightarrow> through No_arg h | F_GETSIG \<Rightarrow> through No_arg h
        | F_GETLEASE \<Rightarrow> through No_arg h | F_GETPIPE_SZ \<Rightarrow> through No_arg h
        | F_other _ \<Rightarrow> through No_arg h
        | _ \<Rightarrow> through arg h)"

text \<open>\<open>ioctl\<close> with \<open>FIONBIO\<close> and the \<open>int\<close> its argument points to, or any other request.\<close>

datatype ioctl_req = FIONBIO int | Other_req

definition ioctl_hook ::
  "(fd \<Rightarrow> ioctl_req \<Rightarrow> 'k \<Rightarrow> i32 \<times> 'k) \<Rightarrow> fd \<Rightarrow> ioctl_req
    \<Rightarrow> 'u hook_state \<times> 'k \<Rightarrow> (i32 \<times> 'u hook_state \<times> 'k) res" where
  "ioctl_hook ioctl_f fd req s =
     (case s of (h, k) \<Rightarrow>
        let through = (\<lambda>h. case ioctl_f fd req k of (r, k1) \<Rightarrow> Inr (r, h, k1)) in
        case req of
          FIONBIO v \<Rightarrow>
            res_bind (lookup_ctx fd h)
              (\<lambda>d. if hidden d then through h
                   else through (h\<lparr>h_fdm := update_ctx fd (setUserNonblock (v \<noteq> 0)) (h_fdm h)\<rparr>))
        | Other_req \<Rightarrow> through h)"

text \<open>\<open>getsockopt\<close> and the effect of \<open>setsockopt\<close> before the original function: the timeouts
  of \<open>struct timeval\<close> are kept in ms.\<close>

definition getsockopt_hook :: "int \<Rightarrow> 'u hook_state \<Rightarrow> int \<times> 'u hook_state" where
  "getsockopt_hook rt h = (rt, h)"

definition timeval_ms :: "int \<Rightarrow> int \<Rightarrow> u64" where
  "timeval_ms tv_sec tv_usec = word_of_int (tv_sec * 1000 + c_div tv_usec 1000)"

definition setsockopt_hook ::
  "fd \<Rightarrow> int \<Rightarrow> int \<Rightarrow> int \<times> int \<Rightarrow> int \<Rightarrow> 'u hook_state \<Rightarrow> (int \<times> 'u hook_state) res" where
  "setsockopt_hook sockfd level optname v rt h =
     (if \<not> h_enable h then Inr (rt, h)
      else if level = SOL_SOCKET \<and> (optname = SO_RCVTIMEO \<or> optname = SO_SNDTIMEO) then
        res_bind (lookup_ctx sockfd h)
          (\<lambda>d. Inr (rt, if d \<noteq> None
                        then h\<lparr>h_fdm := update_ctx sockfd (setTimeout optname (timeval_ms (fst v) (snd v))) (h_fdm h)\<rparr>
                        else h))
      else Inr (rt, h))"

section \<open>The descriptors the hooks know\<close>

definition fdm_inv :: "fd_manager \<Rightarrow> bool" where
  "fdm_inv m \<longleftrightarrow> fd_ok m \<and> (\<forall>n c. fd_look m n = Some c \<longrightarrow> ctx_inv c)"

lemma get_lookup_None: "fd_ok m \<Longrightarrow> fd < 0 \<Longrightarrow> \<exists>f. get fd ac st fl m = Inl f"
  by (auto simp: get_def get_lookup_def data_at_def)

lemma lookup_ctx_eq: "0 \<le> fd \<Longrightarrow> lookup_ctx fd h = Inr (fd_look (h_fdm h) (nat fd))"
  by (auto simp: lookup_ctx_def get_def get_lookup_ok split: option.splits)

lemma lookup_ctx_Inr: "fd_ok (h_fdm h) \<Longrightarrow> lookup_ctx fd h = Inr d \<Longrightarrow> 0 \<le> fd \<and> d = fd_look (h_fdm h) (nat fd)"
  using get_lookup_None [of "h_fdm h" fd False None 0] lookup_ctx_eq [of fd h]
  by (cases "fd < 0") (auto simp: lookup_ctx_def)

lemma update_ctx_look:
  assumes "0 \<le> fd"
  shows "fd_look (update_ctx fd f m) = (fd_look m)(nat fd := map_option f (fd_look m (nat fd)))"
    "fd_ok (update_ctx fd f m) = fd_ok m"
proof -
  have "fd_look (update_ctx fd f m) k = ((fd_look m)(nat fd := map_option f (fd_look m (nat fd)))) k" for k
    using assms by (auto simp: update_ctx_def data_at_def fd_look_def nth_list_update split: option.splits)
  then show "fd_look (update_ctx fd f m) = (fd_look m)(nat fd := map_option f (fd_look m (nat fd)))"
    by (rule ext)
  show "fd_ok (update_ctx fd f m) = fd_ok m"
    by (auto simp: update_ctx_def split: sum.splits option.splits)
qed

lemma update_ctx_inv:
  assumes "fdm_inv m" and "0 \<le> fd" and "\<And>c. fd_look m (nat fd) = Some c \<Longrightarrow> ctx_inv (f c)"
  shows "fdm_inv (update_ctx fd f m)"
  using assms by (auto simp: fdm_inv_def update_ctx_look split: if_splits)

lemma create_ctx_inv:
  assumes "fdm_inv (h_fdm h)" and "create_ctx fd st fl h = Inr h'"
  shows "fdm_inv (h_fdm h')" "h_fdm h' = h_fdm h \<or> (\<exists>c. h_fdm h' = h_fdm h \<or> fd_look (h_fdm h') = (fd_look (h_fdm h))(nat fd \<mapsto> c))"
    "h_iom h' = h_iom h"
proof -
  have ok: "fd_ok (h_fdm h)" using assms(1) by (simp add: fdm_inv_def)
  have fd: "0 \<le> fd"
  proof (rule ccontr)
    assume "\<not> 0 \<le> fd"
    then obtain f where "get fd True st fl (h_fdm h) = Inl f" using get_lookup_None [OF ok] by fastforce
    then show False using assms(2) by (simp add: create_ctx_def)
  qed
  obtain m1 where m1: "get_create fd (snd (FdCtx_ctor fd st fl)) (h_fdm h) = Inr m1" "fd_ok m1"
    "fd_look m1 = (fd_look (h_fdm h))(nat fd \<mapsto> snd (FdCtx_ctor fd st fl))"
    using get_create_result [OF ok fd] by blast
  have "h' = h \<and> fd_look (h_fdm h) (nat fd) \<noteq> None \<or> h' = h\<lparr>h_fdm := m1\<rparr>"
    using assms(2) m1(1) by (cases "FdCtx_ctor fd st fl"; cases "fd_look (h_fdm h) (nat fd)")
      (auto simp: create_ctx_def get_def get_lookup_ok fd)
  then show "fdm_inv (h_fdm h')" "h_fdm h' = h_fdm h \<or> (\<exists>c. h_fdm h' = h_fdm h \<or> fd_look (h_fdm h') = (fd_look (h_fdm h))(nat fd \<mapsto> c))"
    "h_iom h' = h_iom h"
    using assms(1) m1(2,3) ctor_ctx_inv(1) [of fd st fl] by (auto simp: fdm_inv_def split: if_splits)
qed

lemma hidden_False: "\<not> hidden d \<Longrightarrow> \<exists>c. d = Some c \<and> m_isSocket c \<and> \<not> m_isClosed c"
  by (auto simp: hidden_def split: option.splits)

lemma fcntl_hook_inv:
  assumes inv: "fdm_inv (h_fdm h)" and r: "fcntl_hook f fd cmd arg (h, k) = Inr (x, h', k')"
  shows "fdm_inv (h_fdm h')"
proof (cases "cmd = F_SETFL")
  case True
  have ok: "fd_ok (h_fdm h)" using inv by (simp add: fdm_inv_def)
  obtain a where a: "arg = Int_arg a"
    using r True by (cases arg) (simp_all add: fcntl_hook_def Let_def)
  obtain d where l: "lookup_ctx fd h = Inr d"
    using r True a by (cases "lookup_ctx fd h") (simp_all add: fcntl_hook_def Let_def)
  have e: "h_fdm h' = (if hidden d then h_fdm h
      else update_ctx fd (setUserNonblock (a AND O_NONBLOCK \<noteq> 0)) (h_fdm h))"
    using r True a l by (cases "hidden d") (auto simp: fcntl_hook_def Let_def split: prod.splits)
  note d = lookup_ctx_Inr [OF ok l]
  show ?thesis
  proof (cases "hidden d")
    case False
    obtain c where c: "d = Some c" "m_isSocket c" using hidden_False [OF False] by blast
    have "fdm_inv (update_ctx fd (setUserNonblock (a AND O_NONBLOCK \<noteq> 0)) (h_fdm h))"
      by (rule update_ctx_inv [OF inv])
        (use d c inv set_ctx_inv(2) in \<open>auto simp: fdm_inv_def\<close>)
    with e False show ?thesis by simp
  qed (use e inv in simp)
next
  case False
  then have "h' = h" using r
    by (cases cmd) (auto simp: fcntl_hook_def Let_def split: prod.splits if_splits)
  then show ?thesis using inv by simp
qed

lemma ioctl_hook_inv:
  assumes inv: "fdm_inv (h_fdm h)" and r: "ioctl_hook f fd req (h, k) = Inr (x, h', k')"
  shows "fdm_inv (h_fdm h')"
proof (cases req)
  case (FIONBIO v)
  have ok: "fd_ok (h_fdm h)" using inv by (simp add: fdm_inv_def)
  obtain d where l: "lookup_ctx fd h = Inr d"
    using r FIONBIO by (cases "lookup_ctx fd h") (simp_all add: ioctl_hook_def Let_def)
  have e: "h_fdm h' = (if hidden d then h_fdm h else update_ctx fd (setUserNonblock (v \<noteq> 0)) (h_fdm h))"
    using r FIONBIO l by (cases "hidden d") (auto simp: ioctl_hook_def Let_def split: prod.splits)
  note d = lookup_ctx_Inr [OF ok l]
  show ?thesis
  proof (cases "hidden d")
    case False
    obtain c where c: "d = Some c" "m_isSocket c" using hidden_False [OF False] by blast
    have "fdm_inv (update_ctx fd (setUserNonblock (v \<noteq> 0)) (h_fdm h))"
      by (rule update_ctx_inv [OF inv])
        (use d c inv set_ctx_inv(2) in \<open>auto simp: fdm_inv_def\<close>)
    with e False show ?thesis by simp
  qed (use e inv in simp)
qed (use r inv in \<open>auto simp: ioctl_hook_def Let_def split: prod.splits\<close>)

lemma setsockopt_hook_inv:
  assumes inv: "fdm_inv (h_fdm h)" and r: "setsockopt_hook fd level optname v rt h = Inr (x, h')"
  shows "fdm_inv (h_fdm h')"
proof -
  have ok: "fd_ok (h_fdm h)" using inv by (simp add: fdm_inv_def)
  consider "h' = h" | d where "lookup_ctx fd h = Inr d"
      "h_fdm h' = update_ctx fd (setTimeout optname (timeval_ms (fst v) (snd v))) (h_fdm h)"
    using r by (auto simp: setsockopt_hook_def split: if_splits)
  then show ?thesis
  proof cases
    case 2
    note d = lookup_ctx_Inr [OF ok 2(1)]
    show ?thesis unfolding 2(2)
      by (rule update_ctx_inv [OF inv]) (use d inv set_ctx_inv(1) in \<open>auto simp: fdm_inv_def\<close>)
  qed (use inv in simp)
qed

lemma close_hook_inv:
  assumes inv: "fdm_inv (h_fdm h)" and r: "close_hook fd rt h = Inr h'"
  shows "fdm_inv (h_fdm h')"
proof -
  have ok: "fd_ok (h_fdm h)" using inv by (simp add: fdm_inv_def)
  have cases: "h_fdm h' = h_fdm h \<or> (\<exists>d m. lookup_ctx fd h = Inr d \<and> del fd (h_fdm h) = Inr m \<and> h_fdm h' = m)"
  proof (cases "h_enable h")
    case True
    then obtain d where l: "lookup_ctx fd h = Inr d"
      using r by (cases "lookup_ctx fd h") (simp_all add: close_hook_def Let_def)
    show ?thesis
    proof (cases "d = None")
      case False
      then have "\<exists>m. del fd (h_fdm h) = Inr m \<and> h_fdm h' = m"
        using r True l
        by (cases "h_iom h") (auto simp: close_hook_def Let_def)
      then show ?thesis using l by auto
    qed (use r True l in \<open>auto simp: close_hook_def Let_def\<close>)
  qed (use r in \<open>auto simp: close_hook_def Let_def\<close>)
  then consider "h_fdm h' = h_fdm h" | d m where "lookup_ctx fd h = Inr d" "del fd (h_fdm h) = Inr m" "h_fdm h' = m"
    by blast
  then show ?thesis
  proof cases
    case 2
    then have fd: "0 \<le> fd" using lookup_ctx_Inr [OF ok] by blast
    obtain m1 where "del fd (h_fdm h) = Inr m1" "fd_ok m1" "fd_look m1 = (fd_look (h_fdm h))(nat fd := None)"
      using del_result [OF ok fd] by blast
    then show ?thesis using 2 inv by (auto simp: fdm_inv_def split: if_splits)
  qed (use inv in simp)
qed

text \<open>What can happen to the table: any of the hooked calls that touch it, by any thread; the
  kernel's state may change in any way.\<close>

inductive hook_step :: "'u hook_state \<times> 'k \<Rightarrow> 'u hook_state \<times> 'k \<Rightarrow> bool" where
  hk_socket: "socket fd st fl h = Inr (r, h') \<Longrightarrow> hook_step (h, k) (h', k')"
| hk_accept: "accept_end fd st fl h = Inr (r, h') \<Longrightarrow> hook_step (h, k) (h', k')"
| hk_close: "close_hook fd rt h = Inr h' \<Longrightarrow> hook_step (h, k) (h', k')"
| hk_fcntl: "fcntl_hook f fd cmd arg (h, k) = Inr (x, h', k') \<Longrightarrow> hook_step (h, k) (h', k')"
| hk_ioctl: "ioctl_hook g fd req (h, k) = Inr (x, h', k') \<Longrightarrow> hook_step (h, k) (h', k')"
| hk_setsockopt: "setsockopt_hook fd level optname v rt h = Inr (r, h') \<Longrightarrow> hook_step (h, k) (h', k')"
| hk_other: "h_fdm h' = h_fdm h \<Longrightarrow> hook_step (h, k) (h', k')"

lemma hook_step_inv: "hook_step s s' \<Longrightarrow> fdm_inv (h_fdm (fst s)) \<Longrightarrow> fdm_inv (h_fdm (fst s'))"
proof (induction rule: hook_step.induct)
  case (hk_socket fd st fl h r h' k k')
  then show ?case by (auto simp: socket_def split: if_splits intro: create_ctx_inv(1))
next
  case (hk_accept fd st fl h r h' k k')
  then show ?case by (auto simp: accept_end_def split: if_splits intro: create_ctx_inv(1))
next
  case (hk_close fd rt h h' k k')
  then show ?case using close_hook_inv [of h fd rt h'] by simp
next
  case (hk_fcntl f fd cmd arg h k x h' k')
  then show ?case using fcntl_hook_inv [of h f fd cmd arg k x h' k'] by simp
next
  case (hk_ioctl g fd req h k x h' k')
  then show ?case using ioctl_hook_inv [of h g fd req k x h' k'] by simp
next
  case (hk_setsockopt fd level optname v rt h r h' k k')
  then show ?case using setsockopt_hook_inv [of h fd level optname v rt r h'] by simp
qed simp

lemma hook_steps_inv: "hook_step\<^sup>*\<^sup>* s s' \<Longrightarrow> fdm_inv (h_fdm (fst s)) \<Longrightarrow> fdm_inv (h_fdm (fst s'))"
  by (induction rule: rtranclp_induct) (auto dest: hook_step_inv)

lemma new_table_inv: "fdm_inv FdManager_ctor"
  by (auto simp: fdm_inv_def FdManager_ctor_def fd_look_def nth_vec_resize split: if_splits)

section \<open>Blocking calls\<close>

text \<open>C24: on a thread with hooks enabled, a read or write on any descriptor the table knows always
  takes the waiting path, with the timeout of its direction, in every state the hooked calls can
  reach: no context is ever marked closed, and one the user made non-blocking is always a socket,
  so the two early exits of \<open>do_io\<close> are dead.  In particular a socket the user made non-blocking
  still waits instead of returning \<open>EAGAIN\<close>.\<close>

theorem known_descriptor_always_waits:
  assumes "hook_step\<^sup>*\<^sup>* (h0, k0) (h, k)" and "h_fdm h0 = FdManager_ctor" and "h_enable h" and "0 \<le> fd"
    and "fd_look (h_fdm h) (nat fd) = Some ctx"
  shows "do_io_start fd (io_timeout_so f) h = Inr (Loop (getTimeout (io_timeout_so f) ctx), h)"
proof -
  have "fdm_inv (h_fdm h)" using hook_steps_inv [OF assms(1)] new_table_inv assms(2) by simp
  then have "ctx_inv ctx" using assms(5) by (simp add: fdm_inv_def)
  then show ?thesis using assms(3,5)
    by (auto simp: do_io_start_def lookup_ctx_eq [OF assms(4)] ctx_inv_def)
qed

text \<open>A timeout set with \<open>setsockopt\<close> is the timeout of every later call in its direction, in
  ms, and leaves the other direction alone; a zero timeout, which asks for no timeout, becomes one
  of 0 ms.\<close>

theorem setsockopt_sets_call_timeout:
  assumes "h_enable h" and "0 \<le> fd" and "fd_look (h_fdm h) (nat fd) = Some ctx" and "ctx_inv ctx"
    and "optname \<in> {SO_RCVTIMEO, SO_SNDTIMEO}"
    and "setsockopt_hook fd SOL_SOCKET optname (sec, usec) rt h = Inr (r, h')"
  shows "do_io_start fd (io_timeout_so f) h' =
      Inr (Loop (if io_timeout_so f = optname then timeval_ms sec usec
                 else getTimeout (io_timeout_so f) ctx), h')
    \<and> timeval_ms 0 0 = 0"
proof -
  have so: "io_timeout_so f \<in> {SO_RCVTIMEO, SO_SNDTIMEO}" by (cases f) (simp_all add: io_timeout_so_def)
  have h': "h' = h\<lparr>h_fdm := update_ctx fd (setTimeout optname (timeval_ms sec usec)) (h_fdm h)\<rparr>"
    using assms(1,3,5,6) by (auto simp: setsockopt_hook_def lookup_ctx_eq [OF assms(2)])
  have l: "fd_look (h_fdm h') (nat fd) = Some (setTimeout optname (timeval_ms sec usec) ctx)"
    using assms(3) by (simp add: h' update_ctx_look [OF assms(2)])
  have i: "ctx_inv (setTimeout optname (timeval_ms sec usec) ctx)" by (rule set_ctx_inv(1) [OF assms(4)])
  have "do_io_start fd (io_timeout_so f) h'
      = Inr (Loop (getTimeout (io_timeout_so f) (setTimeout optname (timeval_ms sec usec) ctx)), h')"
    using i assms(1) by (simp add: do_io_start_def lookup_ctx_eq [OF assms(2)] l ctx_inv_def) (auto simp: h')
  moreover have "getTimeout (io_timeout_so f) (setTimeout optname (timeval_ms sec usec) ctx)
      = (if io_timeout_so f = optname then timeval_ms sec usec else getTimeout (io_timeout_so f) ctx)"
    using so assms(5) by (auto simp: getTimeout_def setTimeout_def SO_RCVTIMEO_def SO_SNDTIMEO_def)
  ultimately show ?thesis by (simp add: timeval_ms_def c_div_def)
qed


text \<open>The state at which a call is about to wait: a descriptor in the manager's table whose event is
  free, and a running fiber.\<close>

definition can_wait :: "fd \<Rightarrow> u32 \<Rightarrow> addr \<times> fiber_state \<Rightarrow> 'cb io_manager \<Rightarrow> bool" where
  "can_wait fd e cur io \<longleftrightarrow> io_inv io \<and> 0 \<le> fd \<and> fd < int (length (m_fdContexts io))
     \<and> e \<in> {READ, WRITE} \<and> \<not> has (io_ctx io (m_fdContexts io ! nat fd)) e \<and> snd cur = EXEC"

lemma tickle_io_inv: "io_inv (io_tickle io) = io_inv io" "m_fdContexts (io_tickle io) = m_fdContexts io"
  "io_ctx (io_tickle io) = io_ctx io" "io_this (io_tickle io) = io_this io"
  by (simp_all add: io_tickle_def io_inv_def)

lemma io_inv_timers [simp]: "io_inv (io\<lparr>io_timers := tm\<rparr>) = io_inv io"
  by (simp add: io_inv_def)

lemma add_condition_timer_same:
  "io_inv (io_add_condition_timer ms cb w now ta io) = io_inv io"
  "m_fdContexts (io_add_condition_timer ms cb w now ta io) = m_fdContexts io"
  "io_ctx (io_add_condition_timer ms cb w now ta io) = io_ctx io"
  "io_this (io_add_condition_timer ms cb w now ta io) = io_this io"
  by (auto simp: io_add_condition_timer_def onTimerInsertedAtFront_def tickle_io_inv Let_def
      split: prod.splits)

lemma add_condition_timer_can_wait:
  "can_wait fd e cur (io_add_condition_timer ms cb w now ta io) = can_wait fd e cur io"
  by (simp add: can_wait_def add_condition_timer_same)

lemma can_wait_addEvent:
  assumes "can_wait fd e cur io"
  obtains io1 where "addEvent fd e None (Some sc) cur 0 io = Inr (0, io1)"
proof -
  define p where "p = m_fdContexts io ! nat fd"
  have fd: "0 \<le> fd" "fd < int (length (m_fdContexts io))" and e: "e = READ \<or> e = WRITE"
    and h: "\<not> has (io_ctx io p) e" and cur: "snd cur = EXEC" and inv: "io_inv io"
    using assms by (auto simp: can_wait_def p_def)
  have i: "nat fd < length (m_fdContexts io)" using fd by simp
  have fc: "fc_inv (io_ctx io p)" using io_inv_ctx(1) [OF inv i] by (simp add: p_def)
  note c = context_at_in [OF fd, folded p_def]
  show thesis
    using that addEvent_on_ok [OF fc e h, of None cur fd "Some sc" 0] cur c fd(2)
    by (simp add: addEvent_def addEvent_lookup_def)
qed

text \<open>\<open>addEvent\<close> leaves the manager's address and its timers alone.\<close>

lemma addEvent_frame:
  assumes "addEvent fd e cb sc cur rt io = Inr (r, io1)"
  shows "io_this io1 = io_this io \<and> io_timers io1 = io_timers io"
proof -
  let ?same = "\<lambda>a b :: 'a io_manager. io_this b = io_this a \<and> io_timers b = io_timers a"
  have on: "addEvent_on p fd e cb sc cur rt a = Inr (r, b) \<Longrightarrow> ?same a b" for p and a b :: "'a io_manager"
    by (auto simp: addEvent_on_def Let_def epoll_ctl_def set_ctx_def split: if_splits)
  have fill: "fill_contexts i ps a = (qs, b) \<Longrightarrow> ?same a b" for i ps qs and a b :: "'a io_manager"
    by (induction i ps a arbitrary: qs b rule: fill_contexts.induct) (fastforce simp: Let_def split: prod.splits)+
  have grow: "addEvent_grow fd a = Inr (p, b) \<Longrightarrow> ?same a b" for p and a b :: "'a io_manager"
    using fill by (auto simp: addEvent_grow_def contextResize_def Let_def split: prod.splits)
  show ?thesis
  proof (cases "fd < int (length (m_fdContexts io))")
    case True
    then show ?thesis using assms on by (auto simp: addEvent_def addEvent_lookup_def)
  next
    case False
    then obtain p a where "addEvent_grow fd io = Inr (p, a)" "addEvent_on p fd e cb sc cur rt a = Inr (r, io1)"
      using assms by (auto simp: addEvent_def addEvent_lookup_def)
    then show ?thesis using on grow by metis
  qed
qed

lemmas addEvent_this = addEvent_frame [THEN conjunct1]
lemmas addEvent_timers = addEvent_frame [THEN conjunct2]

text \<open>The waiting part of \<open>do_io\<close> when nothing fails.\<close>

lemma do_io_wait_ok:
  fixes to now :: u64 and w ta :: addr
  assumes "h_iom h = Some io" and "can_wait fd e cur io"
  defines "io1 \<equiv> (if to \<noteq> -1 then io_add_condition_timer to (Timeout w fd e) w now ta io else io)"
  obtains io2 where "addEvent fd e None (Some (io_this io)) cur 0 io1 = Inr (0, io2)"
    "do_io_wait fd e to w cur now ta 0 h = Inr (Blocked (if to \<noteq> -1 then Some ta else None), h\<lparr>h_iom := Some io2\<rparr>)"
proof -
  have cw: "can_wait fd e cur io1" "io_this io1 = io_this io"
    using assms(2) by (simp_all add: io1_def add_condition_timer_can_wait add_condition_timer_same)
  obtain io2 where a: "addEvent fd e None (Some (io_this io)) cur 0 io1 = Inr (0, io2)"
    using can_wait_addEvent [OF cw(1)] by blast
  then show thesis
    using that assms(1) cw(2) by (cases "to = -1") (simp_all add: do_io_wait_def io1_def)
qed

text \<open>The timeout timer fires while a call waits: the registration is undone and exactly the
  waiting fiber is scheduled.\<close>

lemma timeout_releases:
  assumes wait: "can_wait fd e cur io"
    and add: "addEvent fd e None (Some (io_this io)) cur 0
        (io_add_condition_timer to (Timeout w fd e) w now ta io) = Inr (0, io1)"
    and h: "h_iom h = Some io1" "h_tinfo_alive h w" "h_cancelled h w = 0"
  obtains io2 where "same_registrations io io2"
    "on_timeout w fd e 0 h = Inr (h\<lparr>h_cancelled := (h_cancelled h)(w := ETIMEDOUT),
       h_iom := Some (post (io_this io) (fiber_task (Some (fst cur)) (-1)) io2)\<rparr>)"
proof -
  let ?io0 = "io_add_condition_timer to (Timeout w fd e) w now ta io"
  have cw: "can_wait fd e cur ?io0" using wait by (simp add: add_condition_timer_can_wait)
  obtain io2 where c: "cancelEvent fd e 0 io1
      = Inr (True, post (io_this io) (fiber_task (Some (fst cur)) (-1)) io2)" "same_registrations ?io0 io2"
    using add_cancel_result [OF _ _ _ _ add] cw by (auto simp: can_wait_def resumption_def)
  have "io_ctl ?io0 = io_ctl io" "m_pendingEventCount ?io0 = m_pendingEventCount io"
    by (auto simp: io_add_condition_timer_def onTimerInsertedAtFront_def io_tickle_def Let_def
        split: prod.splits)
  then have "same_registrations io io2"
    using c(2) by (simp add: same_registrations_def add_condition_timer_same)
  then show thesis using that h c(1) by (simp add: on_timeout_def Let_def)
qed

text \<open>C23: a call that would block and has a timeout, and whose timeout timer fires while it waits:
  the timer callback cancels the registration and schedules exactly the waiting fiber, once, on the
  manager; when the fiber resumes, the call returns -1 with \<open>ETIMEDOUT\<close>, and the contexts, the
  interest list and the pending counter are as before the call.\<close>

theorem timeout_ends_call:
  assumes h: "h_iom h = Some io" "h_tinfo_alive h w" "h_cancelled h w = 0"
    and wait: "can_wait fd e cur io" and to: "to \<noteq> -1"
    and eagain: "skip_eintr tries = Some (-1, EAGAIN)"
  shows "\<exists>h1 io2 io3 h2.
      do_io_attempt fd e to w tries cur now ta 0 h = Inr (Blocked (Some ta), h1)
      \<and> on_timeout w fd e 0 h1 = Inr h2 \<and> same_registrations io io2
      \<and> h_iom h2 = Some io3 \<and> io3 = post (io_this io) (fiber_task (Some (fst cur)) (-1)) io2
      \<and> (\<forall>tm b. cancel ta tm = Inr (b, tm) \<longrightarrow>
           (\<exists>h3. do_io_resume w (Some ta) (h2\<lparr>h_iom := Some (io3\<lparr>io_timers := tm\<rparr>)\<rparr>) = Inr (Returned (-1), h3)
                 \<and> h_errno h3 = ETIMEDOUT))"
proof -
  let ?h0 = "h\<lparr>h_errno := EAGAIN\<rparr>"
  obtain io1 where a: "addEvent fd e None (Some (io_this io)) cur 0
      (io_add_condition_timer to (Timeout w fd e) w now ta io) = Inr (0, io1)"
    "do_io_wait fd e to w cur now ta 0 ?h0 = Inr (Blocked (Some ta), ?h0\<lparr>h_iom := Some io1\<rparr>)"
    using do_io_wait_ok [of ?h0 io fd e cur to w now ta] h(1) wait to by auto
  let ?h1 = "?h0\<lparr>h_iom := Some io1\<rparr>"
  obtain io2 where t: "same_registrations io io2"
    "on_timeout w fd e 0 ?h1 = Inr (?h1\<lparr>h_cancelled := (h_cancelled ?h1)(w := ETIMEDOUT),
       h_iom := Some (post (io_this io) (fiber_task (Some (fst cur)) (-1)) io2)\<rparr>)"
    by (rule timeout_releases [OF wait a(1), of ?h1]) (use h in auto)
  let ?io3 = "post (io_this io) (fiber_task (Some (fst cur)) (-1)) io2"
  let ?h2 = "?h1\<lparr>h_cancelled := (h_cancelled h)(w := ETIMEDOUT), h_iom := Some ?io3\<rparr>"
  have "do_io_attempt fd e to w tries cur now ta 0 h = Inr (Blocked (Some ta), ?h1)"
    using a(2) eagain by (simp add: do_io_attempt_def)
  moreover have "\<exists>h3. do_io_resume w (Some ta) (?h2\<lparr>h_iom := Some (?io3\<lparr>io_timers := tm\<rparr>)\<rparr>) = Inr (Returned (-1), h3)
                 \<and> h_errno h3 = ETIMEDOUT" if "cancel ta tm = Inr (b, tm)" for tm b
    using that by (simp add: do_io_resume_def cancel_timer_def Let_def ETIMEDOUT_def)
  ultimately show ?thesis using t by fastforce
qed

text \<open>A call that does not have to wait is transparent: the result is the first one of the
  original function that is not an interrupted call, and neither the event manager, the
  descriptor table nor the timers are touched; interrupted calls are never returned.\<close>

theorem do_io_transparent:
  assumes "\<forall>(n, e)\<in>set before. n = -1 \<and> e = EINTR" and "\<not> (n = -1 \<and> e \<in> {EINTR, EAGAIN})"
  shows "do_io_attempt fd event to w (before @ (n, e) # later) cur now ta rt h
    = Inr (Returned n, if n = -1 then h\<lparr>h_errno := e\<rparr> else h)"
proof -
  have "skip_eintr (before @ (n, e) # later) = Some (n, e)"
    using assms by (induction before) auto
  then show ?thesis using assms(2) by (auto simp: do_io_attempt_def Let_def)
qed

theorem do_io_transparent_witness:
  "do_io_attempt 3 READ 0 9 [(-1, EINTR), (-1, EINTR), (512, 0)] (0, EXEC) 0 8 0 h = Inr (Returned 512, h)"
  using do_io_transparent [of "[(-1, EINTR), (-1, EINTR)]" 512 0 3 READ 0 9 "[]" "(0, EXEC)" 0 8 0 h] by simp

section \<open>The non-blocking flag\<close>

lemma and_O_NONBLOCK: "a AND O_NONBLOCK = 0 \<or> a AND O_NONBLOCK = O_NONBLOCK" for a :: i32
proof -
  have "bit O_NONBLOCK n \<longleftrightarrow> n = 11" for n
  proof -
    have "O_NONBLOCK = push_bit 11 1" by (simp add: O_NONBLOCK_def)
    then have "bit O_NONBLOCK n = bit (push_bit 11 (1 :: i32)) n" by (rule arg_cong)
    then show ?thesis by (auto simp only: bit_push_bit_iff bit_1_iff possible_bit_word) auto
  qed
  then have "a AND O_NONBLOCK = (if bit a 11 then O_NONBLOCK else 0)"
    by (intro bit_word_eqI) (auto simp: bit_and_iff)
  then show ?thesis by simp
qed

lemma set_clear_bits:
  fixes x m :: i32
  shows "(x OR m) AND m = m" "(x AND NOT m) AND m = 0"
    "(x OR m) AND NOT m = x AND NOT m" "(x AND NOT m) AND NOT m = x AND NOT m"
  by (rule bit_word_eqI; auto simp: bit_and_iff bit_or_iff bit_not_iff)+

text \<open>C25: after \<open>fcntl(F_SETFL, a)\<close> on a socket the hooks know, the kernel was given \<open>a\<close> with
  \<open>O_NONBLOCK\<close> added, whatever the user asked for; and whatever the kernel then reports,
  \<open>fcntl(F_GETFL)\<close> shows the user the flag as the user set it, with the kernel's other bits.\<close>

theorem fcntl_nonblock_round_trip:
  assumes fd: "0 \<le> fd" and c: "fd_look (h_fdm h) (nat fd) = Some ctx" "ctx_inv ctx" "m_isSocket ctx"
  shows "\<exists>h1. fcntl_hook f fd F_SETFL (Int_arg a) (h, k)
          = Inr (fst (f fd F_SETFL (Int_arg (a OR O_NONBLOCK)) k), h1,
                 snd (f fd F_SETFL (Int_arg (a OR O_NONBLOCK)) k))
      \<and> (\<forall>k1. \<exists>r. fcntl_hook f fd F_GETFL No_arg (h1, k1) = Inr (r, h1, snd (f fd F_GETFL No_arg k1))
            \<and> r AND O_NONBLOCK = a AND O_NONBLOCK
            \<and> r AND NOT O_NONBLOCK = fst (f fd F_GETFL No_arg k1) AND NOT O_NONBLOCK)"
proof -
  define u where "u = (a AND O_NONBLOCK \<noteq> 0)"
  let ?h1 = "h\<lparr>h_fdm := update_ctx fd (setUserNonblock u) (h_fdm h)\<rparr>"
  have l: "lookup_ctx fd h = Inr (Some ctx)" "\<not> hidden (Some ctx)" "m_sysNonblock ctx"
    using c by (auto simp: lookup_ctx_eq [OF fd] hidden_def ctx_inv_def)
  have l1: "lookup_ctx fd ?h1 = Inr (Some (setUserNonblock u ctx))"
    by (simp add: lookup_ctx_eq [OF fd] update_ctx_look [OF fd] c(1))
  have hid: "\<not> hidden (Some (setUserNonblock u ctx))"
    using c by (simp add: hidden_def setUserNonblock_def ctx_inv_def)
  have s: "fcntl_hook f fd F_SETFL (Int_arg a) (h, k)
          = Inr (fst (f fd F_SETFL (Int_arg (a OR O_NONBLOCK)) k), ?h1,
                 snd (f fd F_SETFL (Int_arg (a OR O_NONBLOCK)) k))"
    using l by (simp add: fcntl_hook_def Let_def u_def split: prod.splits)
  have bit: "a AND O_NONBLOCK = (if u then O_NONBLOCK else 0)"
    using and_O_NONBLOCK [of a] by (auto simp: u_def)
  have g: "\<exists>r. fcntl_hook f fd F_GETFL No_arg (?h1, k1) = Inr (r, ?h1, snd (f fd F_GETFL No_arg k1))
            \<and> r AND O_NONBLOCK = a AND O_NONBLOCK
            \<and> r AND NOT O_NONBLOCK = fst (f fd F_GETFL No_arg k1) AND NOT O_NONBLOCK" for k1
  proof -
    obtain x k2 where x: "f fd F_GETFL No_arg k1 = (x, k2)" by (cases "f fd F_GETFL No_arg k1")
    have r: "fcntl_hook f fd F_GETFL No_arg (?h1, k1)
        = Inr (if u then x OR O_NONBLOCK else x AND NOT O_NONBLOCK, ?h1, k2)"
      unfolding fcntl_hook_def prod.case fcntl_cmd.case Let_def x l1
      using hid by (simp add: setUserNonblock_def)
    show ?thesis
    proof (cases u)
      case True
      have A: "a AND O_NONBLOCK = O_NONBLOCK" by (rule trans [OF bit if_P [OF True]])
      show ?thesis unfolding r x if_P [OF True] A fst_conv snd_conv
        by (intro exI [of _ "x OR O_NONBLOCK"]) (simp add: set_clear_bits)
    next
      case False
      have A: "a AND O_NONBLOCK = 0" by (rule trans [OF bit if_not_P [OF False]])
      show ?thesis unfolding r x if_not_P [OF False] A fst_conv snd_conv
        by (intro exI [of _ "x AND NOT O_NONBLOCK"]) (simp add: set_clear_bits)
    qed
  qed
  show ?thesis using s g by blast
qed

section \<open>Sleeping\<close>

text \<open>\<open>sleep(s)\<close> on a hooked thread sets a timer that reschedules the calling fiber after
  \<open>1000 s\<close> ms exactly if \<open>s < 4294968\<close>, above which the 32-bit product wraps and it sleeps less;
  \<open>usleep\<close> sets one of the whole milliseconds of its argument, and never waits longer than asked.\<close>

theorem sleep_durations:
  "(unat (sleep_ms s) = 1000 * unat s \<longleftrightarrow> unat s < 4294968)
    \<and> unat (sleep_ms s) \<le> 1000 * unat s
    \<and> unat (usleep_ms us) = unat us div 1000"
proof -
  have s: "unat (sleep_ms s) = (1000 * unat s) mod 2 ^ 32"
  proof -
    have "unat (seconds * 1000 :: u32) = (1000 * unat seconds) mod 2 ^ 32" for seconds
      by (simp add: unat_word_ariths(2) mult.commute)
    moreover have "unat (ucast x :: u64) = unat x" for x :: u32
      by (rule unat_ucast_u32)
    ultimately show ?thesis by (simp add: sleep_ms_def)
  qed
  have 1: "unat (sleep_ms s) = 1000 * unat s \<longleftrightarrow> unat s < 4294968" unfolding s by auto
  have 2: "unat (sleep_ms s) \<le> 1000 * unat s" unfolding s by simp
  have 3: "unat (usleep_ms us) = unat us div 1000" by (simp add: usleep_ms_def unat_div)
  show ?thesis using 1 2 3 by blast
qed

section \<open>Examples\<close>

text \<open>A hooked thread on a new manager, and a socket 7.\<close>

definition ex_hsched :: "unit hcb timer_fn scheduler" where
  "ex_hsched = \<lparr>m_fibers = [], m_rootFiber = None, m_name = ''io'', m_threads = [], m_threadIds = [],
      m_threadCount = 0, m_activeThreadCount = 0, m_idleThreadCount = 0, m_stopping = True,
      m_autoStop = True, m_rootThread = -1, m_tickles = 0\<rparr>"

definition ex_hio :: "unit hcb io_manager" where
  "ex_hio = projr (IOManager_ctor 5 ex_hsched (TimerManager_ctor 0) 3 0 (4, 6) 0 0 [])"

definition ex_hook0 :: "unit hook_state" where
  "ex_hook0 = \<lparr>h_enable = True, h_fdm = FdManager_ctor, h_iom = Some ex_hio, h_errno = 0,
     h_connect_timeout = 5000, h_cancelled = (\<lambda>_. 0), h_tinfo_alive = (\<lambda>_. True), h_closed = []\<rparr>"

definition ex_sock :: fd_ctx where
  "ex_sock = snd (FdCtx_ctor 7 (Some True) 2)"

definition ex_hook :: "unit hook_state" where
  "ex_hook = ex_hook0\<lparr>h_fdm := FdManager_ctor\<lparr>m_datas := (m_datas FdManager_ctor)[7 := Some ex_sock]\<rparr>\<rparr>"

lemma ex_hio_ctor: "IOManager_ctor 5 ex_hsched (TimerManager_ctor 0) 3 0 (4, 6) 0 0 [] = Inr ex_hio"
  by (simp add: ex_hio_def ex_hsched_def IOManager_ctor_def start_def Let_def contextResize_grow with_new_def)

lemma ex_hio_can_wait: "can_wait 7 READ (0, EXEC) ex_hio"
  using ctor_inv [OF ex_hio_ctor] ctor_fields [OF ex_hio_ctor]
  by (simp add: can_wait_def has_def fc_inv_new)

lemma ex_hook_look: "fd_look (h_fdm ex_hook) 7 = Some ex_sock" "h_enable ex_hook"
  by (simp_all add: ex_hook_def ex_hook0_def fd_look_def FdManager_ctor_def)

lemma ex_sock_inv: "ctx_inv ex_sock" "m_isSocket ex_sock"
  by (simp_all add: ex_sock_def ctor_ctx_inv(1)) (simp add: FdCtx_ctor_def FdCtx_init_def)

lemma ex_hook_reach: "hook_step\<^sup>*\<^sup>* (ex_hook0, ()) (ex_hook, ())"
proof (rule r_into_rtranclp, rule hk_socket)
  show "socket 7 (Some True) 2 ex_hook0 = Inr (7, ex_hook)"
    by (simp add: socket_def create_ctx_def get_def get_lookup_def data_at_def get_create_def set_data_def
        ex_hook_def ex_hook0_def ex_sock_def FdManager_ctor_def nth_vec_resize split: prod.splits)
qed

theorem known_descriptor_always_waits_witness:
  "do_io_start 7 SO_RCVTIMEO ex_hook = Inr (Loop (NOT 0), ex_hook)"
  using known_descriptor_always_waits [OF ex_hook_reach _ ex_hook_look(2), of 7 ex_sock F_read]
  by (simp add: ex_hook_look ex_hook0_def io_timeout_so_def ex_sock_def FdCtx_ctor_def FdCtx_init_def
      getTimeout_def)

theorem setsockopt_sets_call_timeout_witness:
  "\<exists>h' :: unit hook_state. do_io_start 7 SO_RCVTIMEO h' = Inr (Loop 1500, h')
     \<and> setsockopt_hook 7 SOL_SOCKET SO_RCVTIMEO (1, 500000) 0 ex_hook = Inr (0, h')"
proof -
  define h' where "h' = ex_hook\<lparr>h_fdm := update_ctx 7 (setTimeout SO_RCVTIMEO (timeval_ms 1 500000)) (h_fdm ex_hook)\<rparr>"
  have s: "setsockopt_hook 7 SOL_SOCKET SO_RCVTIMEO (1, 500000) 0 ex_hook = Inr (0, h')"
    by (simp add: setsockopt_hook_def ex_hook_look lookup_ctx_eq h'_def)
  have t: "timeval_ms 1 500000 = 1500" by (simp add: timeval_ms_def c_div_def)
  from setsockopt_sets_call_timeout [OF ex_hook_look(2) _ _ ex_sock_inv(1) _ s, of F_read] s show ?thesis
    by (auto simp: ex_hook_look io_timeout_so_def t)
qed

theorem fcntl_nonblock_round_trip_witness:
  "\<exists>(h1 :: unit hook_state) r. fcntl_hook (\<lambda>_ _ _ k. (k, k)) 7 F_GETFL No_arg (h1, 2) = Inr (r, h1, 2)
     \<and> r AND O_NONBLOCK = O_NONBLOCK"
proof -
  let ?f = "\<lambda>_ _ _ k :: i32. (k, k)"
  have "0 \<le> (7 :: fd)" "fd_look (h_fdm ex_hook) (nat 7) = Some ex_sock" by (simp_all add: ex_hook_look)
  from fcntl_nonblock_round_trip [OF this ex_sock_inv, of ?f O_NONBLOCK 2] show ?thesis
    unfolding fst_conv snd_conv and.idem by blast
qed

theorem timeout_ends_call_witness:
  "\<exists>h1 h2. do_io_attempt 7 READ 3000 9 [(-1, EAGAIN)] (0, EXEC) 100 8 0 ex_hook = Inr (Blocked (Some 8), h1)
     \<and> on_timeout 9 7 READ 0 h1 = Inr h2"
  using timeout_ends_call [of ex_hook ex_hio 9 7 READ "(0, EXEC)" 3000 "[(-1, EAGAIN)]" 100 8]
  by (auto simp: ex_hook_def ex_hook0_def ex_hio_can_wait errno_defs)


end
