(* ===== verification/Log_Format.thy ===== *)
theory Log_Format
  imports Prelude "HOL-Library.Char_ord"
begin

text \<open>
  Log levels, events and the pattern formatter (\<open>log.h\<close>, \<open>log.cc\<close>).  A level is a number, as
  the code also casts other numbers to it.  The pattern parser is translated with its
  indices into the pattern; its two loops terminate because the index grows.  The C
  library's date formatting is a parameter.  The lemmas state the round trip from a list of
  pattern segments through the pattern text to the formatter's items, and what the parser
  does with the documented escape \<open>%%\<close>.
\<close>

section \<open>Levels\<close>

type_synonym level = int

definition UNKNOW :: level where "UNKNOW = 0"
definition DEBUG :: level where "DEBUG = 1"
definition INFO :: level where "INFO = 2"
definition WARN :: level where "WARN = 3"
definition ERROR :: level where "ERROR = 4"
definition FATAL :: level where "FATAL = 5"

lemmas level_defs = UNKNOW_def DEBUG_def INFO_def WARN_def ERROR_def FATAL_def

definition ToString :: "level \<Rightarrow> string" where
  "ToString l =
     (if l = DEBUG then ''DEBUG'' else if l = INFO then ''INFO'' else if l = WARN then ''WARN''
      else if l = ERROR then ''ERROR'' else if l = FATAL then ''FATAL'' else ''UNKNOW'')"

definition FromString :: "string \<Rightarrow> level" where
  "FromString str =
     (if str = ''debug'' then DEBUG else if str = ''info'' then INFO else if str = ''warn'' then WARN
      else if str = ''error'' then ERROR else if str = ''fatal'' then FATAL
      else if str = ''DEBUG'' then DEBUG else if str = ''INFO'' then INFO
      else if str = ''WARN'' then WARN else if str = ''ERROR'' then ERROR
      else if str = ''FATAL'' then FATAL else UNKNOW)"

lemma FromString_ToString: "UNKNOW \<le> l \<Longrightarrow> l \<le> FATAL \<Longrightarrow> FromString (ToString l) = l"
proof -
  assume "UNKNOW \<le> l" "l \<le> FATAL"
  then consider "l = 0" | "l = 1" | "l = 2" | "l = 3" | "l = 4" | "l = 5"
    unfolding level_defs by linarith
  then show ?thesis by cases (simp_all add: ToString_def FromString_def level_defs)
qed

section \<open>Events\<close>

text \<open>\<open>LogEvent\<close>; its logger is an address, \<open>le_ss\<close> the text written to the stream so far.\<close>

record log_event =
  le_file :: string
  le_line :: int
  le_elapse :: u32
  le_threadId :: int
  le_fiberId :: u32
  le_time :: u64
  le_threadName :: string
  le_ss :: string
  le_logger :: addr
  le_level :: level

definition LogEvent_ctor ::
  "addr \<Rightarrow> level \<Rightarrow> string \<Rightarrow> int \<Rightarrow> u32 \<Rightarrow> int \<Rightarrow> u32 \<Rightarrow> u64 \<Rightarrow> string \<Rightarrow> log_event" where
  "LogEvent_ctor logger level file line elapse threadId fiberId time thread_name =
     \<lparr>le_file = file, le_line = line, le_elapse = elapse, le_threadId = threadId,
      le_fiberId = fiberId, le_time = time, le_threadName = thread_name, le_ss = [],
      le_logger = logger, le_level = level\<rparr>"

text \<open>\<open>LogEvent::format\<close>: \<open>text\<close> is what \<open>vasprintf\<close> produced, \<open>None\<close> if it returned -1.\<close>

definition LogEvent_format :: "string option \<Rightarrow> log_event \<Rightarrow> log_event" where
  "LogEvent_format txt e =
     (case txt of Some s \<Rightarrow> e\<lparr>le_ss := le_ss e @ s\<rparr> | None \<Rightarrow> e)"

text \<open>\<open>getSS() << s\<close>.\<close>

definition stream_to :: "string \<Rightarrow> log_event \<Rightarrow> log_event" where
  "stream_to s e = e\<lparr>le_ss := le_ss e @ s\<rparr>"

section \<open>Format items\<close>

datatype format_item =
    MessageItem | LevelItem | ElapseItem | NameItem | ThreadItem | FiberItem | ThreadNameItem
  | DateTimeItem string | FilenameItem | LineItem | NewLineItem | StringItem string | TabItem

text \<open>Decimal output of an integer by an \<open>std::ostream\<close>.\<close>

fun dec :: "nat \<Rightarrow> string" where
  "dec n = (if n < 10 then [char_of (48 + n)] else dec (n div 10) @ [char_of (48 + n mod 10)])"

declare dec.simps [simp del]

definition dec_int :: "int \<Rightarrow> string" where
  "dec_int i = (if i < 0 then CHR ''-'' # dec (nat (- i)) else dec (nat i))"

definition default_date :: string where
  "default_date = ''%Y-%m-%d %H:%M:%S''"

definition DateTimeItem_ctor :: "string \<Rightarrow> format_item" where
  "DateTimeItem_ctor f = (if f = [] then DateTimeItem default_date else DateTimeItem f)"

text \<open>The table \<open>s_format_items\<close>: the item a key stands for, given the text between braces.\<close>

definition s_format_items :: "string \<Rightarrow> (string \<Rightarrow> format_item) option" where
  "s_format_items key =
     (if key = ''m'' then Some (\<lambda>_. MessageItem)
      else if key = ''p'' then Some (\<lambda>_. LevelItem)
      else if key = ''r'' then Some (\<lambda>_. ElapseItem)
      else if key = ''c'' then Some (\<lambda>_. NameItem)
      else if key = ''t'' then Some (\<lambda>_. ThreadItem)
      else if key = ''n'' then Some (\<lambda>_. NewLineItem)
      else if key = ''d'' then Some DateTimeItem_ctor
      else if key = ''f'' then Some (\<lambda>_. FilenameItem)
      else if key = ''l'' then Some (\<lambda>_. LineItem)
      else if key = ''T'' then Some (\<lambda>_. TabItem)
      else if key = ''F'' then Some (\<lambda>_. FiberItem)
      else if key = ''N'' then Some (\<lambda>_. ThreadNameItem)
      else None)"

text \<open>What an item writes: \<open>strftime fmt t\<close> is the local time \<open>t\<close> in the given format,
  \<open>name_of\<close> gives the name of a logger.\<close>

definition format_item_text ::
  "(string \<Rightarrow> u64 \<Rightarrow> string) \<Rightarrow> (addr \<Rightarrow> string) \<Rightarrow> level \<Rightarrow> log_event \<Rightarrow> format_item \<Rightarrow> string" where
  "format_item_text strftime name_of lvl e item =
     (case item of
        MessageItem \<Rightarrow> le_ss e
      | LevelItem \<Rightarrow> ToString lvl
      | ElapseItem \<Rightarrow> dec (unat (le_elapse e))
      | NameItem \<Rightarrow> name_of (le_logger e)
      | ThreadItem \<Rightarrow> dec_int (le_threadId e)
      | FiberItem \<Rightarrow> dec (unat (le_fiberId e))
      | ThreadNameItem \<Rightarrow> le_threadName e
      | DateTimeItem f \<Rightarrow> strftime f (le_time e)
      | FilenameItem \<Rightarrow> le_file e
      | LineItem \<Rightarrow> dec_int (le_line e)
      | NewLineItem \<Rightarrow> [char_of (10 :: nat)]
      | StringItem s \<Rightarrow> s
      | TabItem \<Rightarrow> [char_of (9 :: nat)])"

section \<open>The pattern parser\<close>

text \<open>\<open>isalpha\<close> of the C locale, \<open>std::string::substr(pos, len)\<close>.\<close>

definition isalpha :: "char \<Rightarrow> bool" where
  "isalpha c \<longleftrightarrow> (let n = of_char c :: nat in 65 \<le> n \<and> n \<le> 90 \<or> 97 \<le> n \<and> n \<le> 122)"

definition substr :: "string \<Rightarrow> nat \<Rightarrow> nat \<Rightarrow> string" where
  "substr s pos len = take len (drop pos s)"

text \<open>The inner loop: the item that starts at \<open>i\<close>, read from \<open>n\<close> on; \<open>st\<close> is \<open>fmt_status\<close>, \<open>fb\<close>
  is \<open>fmt_begin\<close>.  The result is \<open>n\<close>, \<open>fmt_status\<close>, \<open>fmt\<close> and \<open>str\<close> after the loop.\<close>

function scan ::
  "string \<Rightarrow> nat \<Rightarrow> nat \<Rightarrow> nat \<Rightarrow> nat \<Rightarrow> string \<Rightarrow> string \<Rightarrow> nat \<times> nat \<times> string \<times> string" where
  "scan p i n st fb fmt str =
     (if \<not> n < length p then (n, st, fmt, str)
      else if st = 0 \<and> \<not> isalpha (p ! n) \<and> p ! n \<noteq> CHR ''{'' \<and> p ! n \<noteq> CHR ''}'' then
        (n, st, fmt, substr p (i + 1) (n - i - 1))
      else if st = 0 \<and> p ! n = CHR ''{'' then
        scan p i (n + 1) 1 n fmt (substr p (i + 1) (n - i - 1))
      else if st = 1 \<and> p ! n = CHR ''}'' then
        (n + 1, 0, substr p (fb + 1) (n - fb - 1), str)
      else
        scan p i (n + 1) st fb fmt
          (if n + 1 = length p \<and> str = [] then drop (i + 1) p else str))"
  by auto
termination by (relation "measure (\<lambda>(p, i, n, _). length p - n)") auto

declare scan.simps [simp del]

text \<open>The elements of \<open>vec\<close>: text, or an item with its format.\<close>

datatype token = Txt string | Itm string string

lemma scan_progress: "n \<le> fst (scan p i n st fb fmt str)"
  by (induction p i n st fb fmt str rule: scan.induct) (subst scan.simps, auto)

lemma scan_measure:
  "i < length p \<Longrightarrow> length p - fst (scan p i (Suc i) 0 0 [] []) < length p - i"
  using scan_progress [of "Suc i" p i 0 0 "[]" "[]"] by linarith

definition flush :: "string \<Rightarrow> token list" where
  "flush nstr = (if nstr = [] then [] else [Txt nstr])"

text \<open>The outer loop; the result is \<open>vec\<close> and whether a parse error was seen.\<close>

function parse_loop :: "string \<Rightarrow> nat \<Rightarrow> string \<Rightarrow> token list \<Rightarrow> bool \<Rightarrow> token list \<times> bool" where
  "parse_loop p i nstr vec err =
     (if \<not> i < length p then (vec @ flush nstr, err)
      else if p ! i \<noteq> CHR ''%'' then parse_loop p (i + 1) (nstr @ [p ! i]) vec err
      else if i + 1 < length p \<and> p ! (i + 1) = CHR ''%'' then
        parse_loop p (i + 1) (nstr @ ''%'') vec err
      else
        (case scan p i (i + 1) 0 0 [] [] of
           (n, st, fmt, str) \<Rightarrow>
             if st = 0 then parse_loop p n [] (vec @ flush nstr @ [Itm str fmt]) err
             else parse_loop p (i + 1) nstr (vec @ [Txt ''<<pattern_error>>'']) True))"
  by auto
termination
  by (relation "measure (\<lambda>(p, i, _). length p - i)")
    (auto dest!: arg_cong [where f = fst] simp: scan_measure)

declare parse_loop.simps [simp del]

text \<open>The items of \<open>vec\<close>, and whether a key is unknown.\<close>

fun build_items :: "token list \<Rightarrow> format_item list \<times> bool" where
  "build_items [] = ([], False)"
| "build_items (Txt s # ts) = (case build_items ts of (is, e) \<Rightarrow> (StringItem s # is, e))"
| "build_items (Itm key fmt # ts) =
     (case build_items ts of
        (is, e) \<Rightarrow>
          (case s_format_items key of
             Some mk \<Rightarrow> (mk fmt # is, e)
           | None \<Rightarrow> (StringItem (''<<error_format %'' @ key @ ''>>'') # is, True)))"

record formatter =
  fm_pattern :: string
  fm_items :: "format_item list"
  fm_error :: bool

definition LogFormatter_ctor :: "string \<Rightarrow> formatter" where
  "LogFormatter_ctor pattern =
     (case parse_loop pattern 0 [] [] False of
        (vec, err) \<Rightarrow>
          (case build_items vec of
             (is, e) \<Rightarrow> \<lparr>fm_pattern = pattern, fm_items = is, fm_error = err \<or> e\<rparr>))"

definition LogFormatter_format ::
  "(string \<Rightarrow> u64 \<Rightarrow> string) \<Rightarrow> (addr \<Rightarrow> string) \<Rightarrow> level \<Rightarrow> log_event \<Rightarrow> formatter \<Rightarrow> string" where
  "LogFormatter_format strftime name_of lvl e f =
     concat (map (format_item_text strftime name_of lvl e) (fm_items f))"

definition default_pattern :: string where
  "default_pattern = ''%d{%Y-%m-%d %H:%M:%S}%T%t%T%N%T%F%T[%p]%T[%c]%T%f:%l%T%m%n''"

section \<open>Pattern text and segments\<close>

text \<open>A pattern as a list of segments: literal text, or a key with its optional braces.\<close>

datatype segment = Lit string | Fmt string "string option"

fun render :: "segment \<Rightarrow> string" where
  "render (Lit s) = s"
| "render (Fmt k None) = CHR ''%'' # k"
| "render (Fmt k (Some f)) = CHR ''%'' # k @ CHR ''{'' # f @ ''}''"

fun segment_token :: "segment \<Rightarrow> token" where
  "segment_token (Lit s) = Txt s"
| "segment_token (Fmt k None) = Itm k []"
| "segment_token (Fmt k (Some f)) = Itm k f"

definition ends_key :: "char \<Rightarrow> bool" where
  "ends_key c \<longleftrightarrow> \<not> isalpha c \<and> c \<noteq> CHR ''{'' \<and> c \<noteq> CHR ''}''"

definition is_key :: "string \<Rightarrow> bool" where
  "is_key k \<longleftrightarrow> k \<noteq> [] \<and> list_all isalpha k"

definition starts_literal :: "segment list \<Rightarrow> bool" where
  "starts_literal segs \<longleftrightarrow> (case segs of Lit _ # _ \<Rightarrow> True | _ \<Rightarrow> False)"

text \<open>Literals are maximal, not empty and free of \<open>%\<close>; a key is a non-empty run of letters
  that the text after it ends; the text in braces has no closing brace.\<close>

fun wf_pattern :: "segment list \<Rightarrow> bool" where
  "wf_pattern [] = True"
| "wf_pattern (Lit s # segs) =
     (s \<noteq> [] \<and> CHR ''%'' \<notin> set s \<and> \<not> starts_literal segs \<and> wf_pattern segs)"
| "wf_pattern (Fmt k None # segs) =
     (is_key k \<and> (case segs of Lit (c # _) # _ \<Rightarrow> ends_key c | _ \<Rightarrow> True) \<and> wf_pattern segs)"
| "wf_pattern (Fmt k (Some f) # segs) = (is_key k \<and> CHR ''}'' \<notin> set f \<and> wf_pattern segs)"

definition pattern_text :: "segment list \<Rightarrow> string" where
  "pattern_text segs = concat (map render segs)"

lemma pattern_text_simps [simp]:
  "pattern_text [] = []" "pattern_text (seg # segs) = render seg @ pattern_text segs"
  by (simp_all add: pattern_text_def)

lemma isalpha_not_special [simp]:
  "isalpha c \<Longrightarrow> c \<noteq> CHR ''%'' \<and> c \<noteq> CHR ''{'' \<and> c \<noteq> CHR ''}''"
  by (auto simp: isalpha_def)

lemma flush_simps [simp]: "flush [] = []" "s \<noteq> [] \<Longrightarrow> flush s = [Txt s]"
  by (simp_all add: flush_def)

lemma render_Fmt: "\<exists>cs. render (Fmt k fo) = CHR ''%'' # cs"
  by (cases fo) auto

lemma ends_key_percent [simp]: "ends_key CHR ''%''"
  by (simp add: ends_key_def isalpha_def)

lemma drop_ConsD:
  "drop n p = c # cs \<Longrightarrow> n < length p \<and> p ! n = c \<and> drop (Suc n) p = cs"
  by (metis Cons_nth_drop_Suc drop_eq_Nil2 linorder_not_le list.distinct(1) list.inject)

lemma drop_Cons_last: "drop n p = c # cs \<Longrightarrow> Suc n = length p \<longleftrightarrow> cs = []"
  using drop_ConsD [of n p c cs] by (metis Suc_leI drop_eq_Nil le_antisym order_refl)

subsection \<open>The inner loop on a key and on braces\<close>

lemma scan_key:
  assumes "drop n p = k @ c # r" and "list_all isalpha k" and "ends_key c"
  shows "scan p i n 0 0 fmt [] = (n + length k, 0, fmt, substr p (i + 1) (n + length k - i - 1))"
  using assms
proof (induction k arbitrary: n)
  case Nil
  then show ?case using drop_ConsD [of n p] by (subst scan.simps) (auto simp: ends_key_def)
next
  case (Cons a k)
  from Cons.prems drop_ConsD [of n p a "k @ c # r"] drop_Cons_last [of n p a "k @ c # r"]
  show ?case by (subst scan.simps) (auto simp: Cons.IH)
qed

lemma scan_key_end:
  assumes "drop n p = k" and "is_key k"
  shows "scan p i n 0 0 fmt [] = (length p, 0, fmt, drop (i + 1) p)"
  using assms
proof (induction k arbitrary: n)
  case Nil
  then show ?case by (simp add: is_key_def)
next
  case (Cons a k)
  have step: "scan p i n 0 0 fmt [] = scan p i (Suc n) 0 0 fmt (if k = [] then drop (i + 1) p else [])"
    using Cons.prems drop_ConsD [of n p a k] drop_Cons_last [of n p a k]
    by (subst scan.simps) (auto simp: is_key_def)
  show ?case
  proof (cases "k = []")
    case True
    then have "\<not> Suc n < length p" using Cons.prems(1) drop_Cons_last [of n p a k] by simp
    moreover have "Suc n = length p" using True Cons.prems(1) drop_Cons_last [of n p a k] by simp
    ultimately show ?thesis using step True by (simp add: scan.simps [of p i "length p"])
  next
    case False
    then show ?thesis
      using step Cons.IH [of "Suc n"] Cons.prems drop_ConsD [of n p a k] by (simp add: is_key_def)
  qed
qed

lemma scan_braces:
  assumes "drop n p = f @ CHR ''}'' # r" and "CHR ''}'' \<notin> set f"
  shows "scan p i n 1 fb fmt str = (n + length f + 1, 0, substr p (fb + 1) (n + length f - fb - 1), str)"
  using assms
proof (induction f arbitrary: n)
  case Nil
  then show ?case using drop_ConsD [of n p] by (subst scan.simps) auto
next
  case (Cons a f)
  from Cons.prems drop_ConsD [of n p a "f @ CHR ''}'' # r"] drop_Cons_last [of n p a "f @ CHR ''}'' # r"]
  show ?case by (subst scan.simps) (auto simp: Cons.IH [unfolded One_nat_def])
qed

lemma scan_key_open:
  assumes "drop n p = k @ CHR ''{'' # r" and "list_all isalpha k"
  shows "scan p i n 0 0 fmt []
       = scan p i (n + length k + 1) 1 (n + length k) fmt (substr p (i + 1) (n + length k - i - 1))"
  using assms
proof (induction k arbitrary: n)
  case Nil
  then show ?case
    using drop_ConsD [of n p] by (subst scan.simps) (auto simp: isalpha_def)
next
  case (Cons a k)
  from Cons.prems drop_ConsD [of n p a "k @ CHR ''{'' # r"] drop_Cons_last [of n p a "k @ CHR ''{'' # r"]
  show ?case by (subst scan.simps) (auto simp: Cons.IH)
qed

lemma substr_at: "drop n p = s @ r \<Longrightarrow> substr p n (length s) = s"
  by (simp add: substr_def)

lemma scan_item:
  assumes d: "drop i p = CHR ''%'' # k @ CHR ''{'' # f @ CHR ''}'' # r"
    and k: "is_key k" and f: "CHR ''}'' \<notin> set f"
  shows "scan p i (i + 1) 0 0 [] [] = (i + length k + length f + 3, 0, f, k)"
proof -
  have d1: "drop (Suc i) p = k @ CHR ''{'' # f @ CHR ''}'' # r"
    using d by (rule drop_ConsD [THEN conjunct2, THEN conjunct2])
  then have "drop (length k) (drop (Suc i) p) = CHR ''{'' # f @ CHR ''}'' # r" by simp
  then have d2: "drop (Suc i + length k) p = CHR ''{'' # f @ CHR ''}'' # r"
    by (simp add: add.commute)
  then have d3: "drop (Suc i + length k + 1) p = f @ CHR ''}'' # r"
    using drop_ConsD [OF d2] by simp
  have "scan p i (i + 1) 0 0 [] []
      = scan p i (Suc i + length k + 1) 1 (Suc i + length k) [] (substr p (i + 1) (length k))"
    using scan_key_open [of "Suc i" p k "f @ CHR ''}'' # r" i "[]"] d1 k by (simp add: is_key_def)
  also have "substr p (i + 1) (length k) = k" using d1 substr_at by simp
  also have "scan p i (Suc i + length k + 1) 1 (Suc i + length k) [] k
      = (i + length k + length f + 3, 0, f, k)"
    using scan_braces [OF d3 f, of i "Suc i + length k" "[]" k] substr_at [OF d3] by simp
  finally show ?thesis .
qed

lemma drop_add: "drop n p = s @ r \<Longrightarrow> drop (n + length s) p = r"
  by (metis add.commute append_eq_conv_conj drop_drop)

text \<open>The scan of a segment's item, up to the text that follows it.\<close>

lemma scan_segment:
  assumes d: "drop i p = render (Fmt k fo) @ pattern_text segs"
    and wf: "wf_pattern (Fmt k fo # segs)"
  shows "scan p i (i + 1) 0 0 [] []
       = (i + length (render (Fmt k fo)), 0, (case fo of None \<Rightarrow> [] | Some f \<Rightarrow> f), k)"
proof (cases fo)
  case (Some f)
  then show ?thesis using scan_item [of i p k f "pattern_text segs"] d wf by simp
next
  case None
  have k: "is_key k" using wf None by simp
  have d1: "drop (Suc i) p = k @ pattern_text segs"
    using d None drop_ConsD [of i p] by simp
  show ?thesis
  proof (cases segs)
    case Nil
    have "i + 1 + length k = length p"
    proof -
      have "length (drop i p) = Suc (length k)" using d None Nil by simp
      then show ?thesis by simp
    qed
    then show ?thesis using scan_key_end [OF _ k, of "Suc i" p i "[]"] d1 Nil None by simp
  next
    case (Cons seg rest)
    obtain c r where c: "pattern_text segs = c # r" "ends_key c"
      using wf None Cons render_Fmt by (cases seg) (auto simp: neq_Nil_conv, metis append_Cons ends_key_percent)
    then have "drop (Suc i) p = k @ c # r" using d1 by simp
    then show ?thesis
      using scan_key [of "Suc i" p k c r i "[]"] k c substr_at [of "Suc i" p k "c # r"] None
      by (simp add: is_key_def)
  qed
qed

subsection \<open>The outer loop\<close>

lemma parse_literal:
  assumes "drop i p = s @ r" and "CHR ''%'' \<notin> set s"
  shows "parse_loop p i nstr vec err = parse_loop p (i + length s) (nstr @ s) vec err"
  using assms
proof (induction s arbitrary: i nstr)
  case (Cons a s)
  then have a: "i < length p" "p ! i = a" "drop (Suc i) p = s @ r"
    using drop_ConsD [of i p a "s @ r"] by auto
  have "parse_loop p i nstr vec err = parse_loop p (Suc i) (nstr @ [a]) vec err"
    using a Cons.prems by (subst parse_loop.simps) auto
  then show ?case using Cons.IH [OF a(3)] Cons.prems by simp
qed simp

lemma parse_segments:
  assumes "drop i p = pattern_text segs" and "wf_pattern segs"
    and "nstr = [] \<or> \<not> starts_literal segs"
  shows "parse_loop p i nstr vec err = (vec @ flush nstr @ map segment_token segs, err)"
  using assms
proof (induction segs arbitrary: i nstr vec rule: wf_pattern.induct)
  case 1
  then show ?case by (subst parse_loop.simps) simp
next
  case (2 s segs)
  have nstr: "nstr = []" using 2 by (simp add: starts_literal_def)
  have "parse_loop p i nstr vec err = parse_loop p (i + length s) s vec err"
    using parse_literal [of i p s "pattern_text segs"] 2 nstr by simp
  also have "\<dots> = (vec @ flush s @ map segment_token segs, err)"
    using 2 drop_add [of i p s] by simp
  finally show ?case using 2 nstr by simp
next
  case (3 k segs)
  have p: "i < length p" "p ! i = CHR ''%''" "drop (Suc i) p = k @ pattern_text segs"
    using 3 drop_ConsD [of i p] by auto
  have k: "k \<noteq> []" "hd k \<noteq> CHR ''%''" using 3 by (auto simp: is_key_def neq_Nil_conv)
  then have "p ! (i + 1) \<noteq> CHR ''%''"
    using p(3) drop_ConsD [of "Suc i" p "hd k" "tl k @ pattern_text segs"] by (cases k) auto
  then show ?case
    using p 3 scan_segment [of i p k None segs] drop_add [of i p "CHR ''%'' # k"]
    by (subst parse_loop.simps) simp
next
  case (4 k f segs)
  have p: "i < length p" "p ! i = CHR ''%''"
    "drop (Suc i) p = k @ CHR ''{'' # f @ CHR ''}'' # pattern_text segs"
    using 4 drop_ConsD [of i p] by auto
  have k: "k \<noteq> []" "hd k \<noteq> CHR ''%''" using 4 by (auto simp: is_key_def neq_Nil_conv)
  then have "p ! (i + 1) \<noteq> CHR ''%''"
    using p(3) drop_ConsD [of "Suc i" p "hd k"] by (cases k) auto
  then show ?case
    using p 4 scan_segment [of i p k "Some f" segs]
      drop_add [of i p "CHR ''%'' # k @ CHR ''{'' # f @ ''}''" "pattern_text segs"]
    by (subst parse_loop.simps) simp
qed


section \<open>Properties\<close>

definition known_key :: "segment \<Rightarrow> bool" where
  "known_key seg = (case seg of Lit _ \<Rightarrow> True | Fmt k _ \<Rightarrow> s_format_items k \<noteq> None)"

text \<open>The item a segment stands for.\<close>

definition segment_item :: "segment \<Rightarrow> format_item" where
  "segment_item seg =
     (case seg of
        Lit s \<Rightarrow> StringItem s
      | Fmt k fo \<Rightarrow>
          (case s_format_items k of
             Some mk \<Rightarrow> mk (case fo of None \<Rightarrow> [] | Some f \<Rightarrow> f)
           | None \<Rightarrow> StringItem (''<<error_format %'' @ k @ ''>>'')))"

lemma build_segments:
  "build_items (map segment_token segs) = (map segment_item segs, \<not> list_all known_key segs)"
proof (induction segs)
  case (Cons seg segs)
  then show ?case
  proof (cases seg)
    case (Fmt k fo)
    then show ?thesis
      using Cons by (cases fo) (auto simp: segment_item_def known_key_def split: option.split)
  qed (simp add: segment_item_def known_key_def)
qed simp

text \<open>C30: Parsing a pattern inverts writing it: for every well-formed list of segments the
  formatter built from the pattern's text has exactly one item per segment, in order, with
  the text in braces as the item's format, and reports an error exactly if some key is not
  in the table (that segment then prints an error marker).\<close>

theorem pattern_round_trip:
  "wf_pattern segs \<Longrightarrow>
     LogFormatter_ctor (pattern_text segs) =
       \<lparr>fm_pattern = pattern_text segs, fm_items = map segment_item segs,
        fm_error = (\<not> list_all known_key segs)\<rparr>"
  by (simp add: LogFormatter_ctor_def parse_segments build_segments)

definition default_segments :: "segment list" where
  "default_segments =
     [Fmt ''d'' (Some default_date), Fmt ''T'' None, Fmt ''t'' None, Fmt ''T'' None,
      Fmt ''N'' None, Fmt ''T'' None, Fmt ''F'' None, Fmt ''T'' None, Lit ''['',
      Fmt ''p'' None, Lit '']'', Fmt ''T'' None, Lit ''['', Fmt ''c'' None, Lit '']'',
      Fmt ''T'' None, Fmt ''f'' None, Lit '':'', Fmt ''l'' None, Fmt ''T'' None,
      Fmt ''m'' None, Fmt ''n'' None]"

lemma default_text: "pattern_text default_segments = default_pattern"
  by (simp add: default_segments_def default_pattern_def default_date_def)

lemma wf_default: "wf_pattern default_segments"
  by (simp add: default_segments_def default_date_def is_key_def isalpha_def ends_key_def
      starts_literal_def)

theorem pattern_round_trip_witness:
  "\<not> fm_error (LogFormatter_ctor default_pattern)
   \<and> fm_items (LogFormatter_ctor default_pattern) ! 9 = LevelItem"
proof -
  have "LogFormatter_ctor default_pattern =
       \<lparr>fm_pattern = default_pattern, fm_items = map segment_item default_segments,
        fm_error = (\<not> list_all known_key default_segments)\<rparr>"
    using pattern_round_trip [OF wf_default] by (simp add: default_text)
  then show ?thesis
    by (simp add: default_segments_def known_key_def s_format_items_def segment_item_def)
qed

subsection \<open>The escape\<close>

lemma parse_loop_keeps: "set vec \<subseteq> set (fst (parse_loop p i nstr vec err))"
proof (induction p i nstr vec err rule: parse_loop.induct)
  case (1 p i nstr vec err)
  show ?case
  proof (cases "scan p i (i + 1) 0 0 [] []")
    case (fields n st fmt str)
    show ?thesis
      using "1.IH" fields by (subst parse_loop.simps) (auto 0 3)
  qed
qed

lemma build_items_unknown:
  "Itm key fmt \<in> set ts \<Longrightarrow> s_format_items key = None \<Longrightarrow> snd (build_items ts)"
proof (induction ts)
  case (Cons t ts)
  then show ?case by (cases t) (auto split: prod.splits option.splits)
qed simp

lemma empty_key_unknown [simp]: "s_format_items [] = None"
  by (simp add: s_format_items_def)

lemma scan_no_key:
  assumes "drop n p = r" and "r = [] \<or> ends_key (hd r)" and "n = Suc i"
  shows "\<exists>m. scan p i n 0 0 [] [] = (m, 0, [], [])"
  using assms drop_ConsD [of n p "hd r" "tl r"]
  by (subst scan.simps) (cases r; auto simp: ends_key_def substr_def)

text \<open>\<open>%%\<close>, which the code's comment lists as the escape for a percent sign, makes a
  pattern invalid: the parser moves to the second \<open>%\<close> and reads it as the start of another
  item, so at the end of the pattern or before any character that is not a letter or a
  brace the item has the empty key and the formatter is in error.\<close>

theorem percent_escape_is_error:
  "CHR ''%'' \<notin> set a \<Longrightarrow> r = [] \<or> ends_key (hd r) \<and> hd r \<noteq> CHR ''%'' \<Longrightarrow>
     fm_error (LogFormatter_ctor (a @ ''%%'' @ r))"
proof -
  assume a: "CHR ''%'' \<notin> set a" and r: "r = [] \<or> ends_key (hd r) \<and> hd r \<noteq> CHR ''%''"
  let ?p = "a @ ''%%'' @ r" and ?i = "length a"
  have d: "drop (Suc (Suc ?i)) ?p = r" by simp
  obtain m where m: "scan ?p (Suc ?i) (Suc (Suc ?i)) 0 0 [] [] = (m, 0, [], [])"
    using scan_no_key [of "Suc (Suc ?i)" ?p r "Suc ?i"] r by auto
  have n: "\<not> (Suc (Suc ?i) < length ?p \<and> ?p ! Suc (Suc ?i) = CHR ''%'')"
    using r by (cases r) (auto simp: nth_append)
  have "parse_loop ?p 0 [] [] False = parse_loop ?p ?i a [] False"
    using parse_literal [of 0 ?p a "''%%'' @ r" "[]" "[]" False] a by simp
  also have "\<dots> = parse_loop ?p (Suc ?i) (a @ ''%'') [] False"
    by (subst parse_loop.simps) (simp add: nth_append)
  also have "\<dots> = parse_loop ?p m [] [Txt (a @ ''%''), Itm [] []] False"
    using m n by (subst parse_loop.simps) (auto simp: nth_append)
  finally have "Itm [] [] \<in> set (fst (parse_loop ?p 0 [] [] False))"
    using parse_loop_keeps [of "[Txt (a @ ''%''), Itm [] []]" ?p m "[]" False] by auto
  then have "snd (build_items (fst (parse_loop ?p 0 [] [] False)))"
    by (rule build_items_unknown) simp
  then show ?thesis by (auto simp: LogFormatter_ctor_def split: prod.splits)
qed

theorem percent_escape_is_error_witness: "fm_error (LogFormatter_ctor ''done: 100%%'')"
  using percent_escape_is_error [of "''done: 100''" "[]"] by simp


end
