(* ===== verification/Logger.thy ===== *)
theory Logger
  imports Log_Format "HOL-Library.List_Lexorder"
begin

text \<open>
  Loggers, appenders and the logger manager (\<open>log.h\<close>, \<open>log.cc\<close>).  Loggers and appenders are
  objects shared by pointer, so the state holds them in two lists and a pointer is a
  position; formatters are never changed once built, so a pointer to one is its value or
  null.  \<open>std::cout\<close> is the text written to it, a file stream its state and the text written
  through it since it was opened.  The mutexes are not part of the state: every operation
  holds the lock of the logger it works on from its first access to the last.
  The lemmas state what reaches which appender, that no sequence of operations makes a log
  call fail, and how the manager shares loggers by name.
\<close>

section \<open>State\<close>

datatype appender_kind = StdoutLogAppender | FileLogAppender string

record appender =
  ap_kind :: appender_kind
  ap_level :: level
  ap_hasFormatter :: bool
  ap_formatter :: "formatter option"
  ap_good :: bool
  ap_open :: bool
  ap_written :: string

record logger =
  lo_name :: string
  lo_level :: level
  lo_appenders :: "addr list"
  lo_formatter :: "formatter option"
  lo_root :: "addr option"

record log_state =
  lg_loggers :: "logger list"
  lg_appenders :: "appender list"
  lg_out :: string
  lg_names :: "(string \<times> addr) list"
  lg_root :: addr

text \<open>\<open>*p\<close> for a pointer into one of the lists.\<close>

definition deref :: "'a list \<Rightarrow> addr \<Rightarrow> 'a res" where
  "deref xs p = (if p < length xs then Inr (xs ! p) else Inl (Undefined ''dangling pointer''))"

definition upd_logger :: "addr \<Rightarrow> (logger \<Rightarrow> logger) \<Rightarrow> log_state \<Rightarrow> log_state" where
  "upd_logger a f s = s\<lparr>lg_loggers := (lg_loggers s)[a := f (lg_loggers s ! a)]\<rparr>"

definition upd_appender :: "addr \<Rightarrow> (appender \<Rightarrow> appender) \<Rightarrow> log_state \<Rightarrow> log_state" where
  "upd_appender p f s = s\<lparr>lg_appenders := (lg_appenders s)[p := f (lg_appenders s ! p)]\<rparr>"

definition print :: "string \<Rightarrow> log_state \<Rightarrow> log_state" where
  "print t s = s\<lparr>lg_out := lg_out s @ t\<rparr>"

section \<open>Appenders\<close>

text \<open>A \<open>LogAppender\<close> as its member initialisers leave it, with a stream not yet opened.\<close>

definition LogAppender_init :: "appender_kind \<Rightarrow> appender" where
  "LogAppender_init k =
     \<lparr>ap_kind = k, ap_level = DEBUG, ap_hasFormatter = False, ap_formatter = None,
      ap_good = True, ap_open = False, ap_written = []\<rparr>"

text \<open>\<open>reopen\<close>: \<open>close()\<close> on a stream that is not open sets its fail bit; \<open>open\<close> fails on an
  open stream, and otherwise truncates the file and clears the state.  \<open>ok\<close> is whether the
  operating system opens the file.\<close>

definition close_stream :: "appender \<Rightarrow> appender" where
  "close_stream ap = (if ap_open ap then ap\<lparr>ap_open := False\<rparr> else ap\<lparr>ap_good := False\<rparr>)"

definition open_stream :: "bool \<Rightarrow> appender \<Rightarrow> appender" where
  "open_stream ok ap =
     (if \<not> ap_open ap \<and> ok then ap\<lparr>ap_open := True, ap_good := True, ap_written := []\<rparr>
      else ap\<lparr>ap_good := False\<rparr>)"

definition reopen :: "bool \<Rightarrow> appender \<Rightarrow> appender \<times> bool" where
  "reopen ok ap =
     (let ap1 = (if ap_good ap then close_stream ap else ap);
          ap2 = open_stream ok ap1
      in (ap2, ap_open ap2))"

definition FileLogAppender_ctor :: "string \<Rightarrow> bool \<Rightarrow> appender" where
  "FileLogAppender_ctor filename ok = fst (reopen ok (LogAppender_init (FileLogAppender filename)))"

text \<open>\<open>LogAppender::setFormatter\<close>; \<open>None\<close> is the null pointer.\<close>

definition LogAppender_setFormatter :: "formatter option \<Rightarrow> appender \<Rightarrow> appender" where
  "LogAppender_setFormatter val ap =
     (let ap = ap\<lparr>ap_formatter := val\<rparr>
      in if val \<noteq> None then ap\<lparr>ap_hasFormatter := True\<rparr> else ap\<lparr>ap_hasFormatter := False\<rparr>)"

definition LogAppender_setLevel :: "level \<Rightarrow> appender \<Rightarrow> appender" where
  "LogAppender_setLevel val ap = ap\<lparr>ap_level := val\<rparr>"

text \<open>Writing to a stream that has failed has no effect.\<close>

definition write_stream :: "string \<Rightarrow> appender \<Rightarrow> appender" where
  "write_stream t ap = (if ap_good ap \<and> ap_open ap then ap\<lparr>ap_written := ap_written ap @ t\<rparr> else ap)"

text \<open>The name of the event's logger, which the items read through the event.\<close>

definition name_in :: "log_state \<Rightarrow> addr \<Rightarrow> string" where
  "name_in s a = lo_name (lg_loggers s ! a)"

definition StdoutLogAppender_log ::
  "(string \<Rightarrow> u64 \<Rightarrow> string) \<Rightarrow> log_state \<Rightarrow> addr \<Rightarrow> appender \<Rightarrow> level \<Rightarrow> log_event \<Rightarrow> log_state res" where
  "StdoutLogAppender_log strftime s p ap lvl e =
     (if lvl \<ge> ap_level ap then
        (case ap_formatter ap of
           None \<Rightarrow> Inl (Undefined ''null formatter'')
         | Some f \<Rightarrow> Inr (print (LogFormatter_format strftime (name_in s) lvl e f) s))
      else Inr s)"

definition FileLogAppender_log ::
  "(string \<Rightarrow> u64 \<Rightarrow> string) \<Rightarrow> log_state \<Rightarrow> addr \<Rightarrow> appender \<Rightarrow> level \<Rightarrow> log_event \<Rightarrow> log_state res" where
  "FileLogAppender_log strftime s p ap lvl e =
     (if lvl \<ge> ap_level ap then
        (case ap_formatter ap of
           None \<Rightarrow> Inl (Undefined ''null formatter'')
         | Some f \<Rightarrow>
             Inr (upd_appender p (write_stream (LogFormatter_format strftime (name_in s) lvl e f)) s))
      else Inr s)"

text \<open>The virtual call \<open>i->log(self, level, event)\<close>.\<close>

definition appender_log ::
  "(string \<Rightarrow> u64 \<Rightarrow> string) \<Rightarrow> log_state \<Rightarrow> addr \<Rightarrow> level \<Rightarrow> log_event \<Rightarrow> log_state res" where
  "appender_log strftime s p lvl e =
     res_bind (deref (lg_appenders s) p)
       (\<lambda>ap. case ap_kind ap of
               StdoutLogAppender \<Rightarrow> StdoutLogAppender_log strftime s p ap lvl e
             | FileLogAppender _ \<Rightarrow> FileLogAppender_log strftime s p ap lvl e)"

section \<open>Loggers\<close>

definition Logger_ctor :: "string \<Rightarrow> logger" where
  "Logger_ctor name =
     \<lparr>lo_name = name, lo_level = DEBUG, lo_appenders = [],
      lo_formatter = Some (LogFormatter_ctor default_pattern), lo_root = None\<rparr>"

definition Logger_setLevel :: "level \<Rightarrow> logger \<Rightarrow> logger" where
  "Logger_setLevel val l = l\<lparr>lo_level := val\<rparr>"

text \<open>\<open>Logger::setFormatter(LogFormatter::ptr)\<close>: the appenders without a formatter of their
  own follow the logger's.\<close>

definition follow_formatter :: "formatter option \<Rightarrow> appender \<Rightarrow> appender" where
  "follow_formatter val ap = (if \<not> ap_hasFormatter ap then ap\<lparr>ap_formatter := val\<rparr> else ap)"

fun follow_all :: "formatter option \<Rightarrow> addr list \<Rightarrow> log_state \<Rightarrow> log_state res" where
  "follow_all val [] s = Inr s"
| "follow_all val (p # ps) s =
     res_bind (deref (lg_appenders s) p)
       (\<lambda>_. follow_all val ps (upd_appender p (follow_formatter val) s))"

definition setFormatter_ptr :: "formatter option \<Rightarrow> addr \<Rightarrow> log_state \<Rightarrow> log_state res" where
  "setFormatter_ptr val a s =
     res_bind (deref (lg_loggers s) a)
       (\<lambda>l. follow_all val (lo_appenders l) (upd_logger a (\<lambda>l. l\<lparr>lo_formatter := val\<rparr>) s))"

definition endl :: string where "endl = [char_of (10 :: nat)]"

definition setFormatter_str :: "string \<Rightarrow> addr \<Rightarrow> log_state \<Rightarrow> log_state res" where
  "setFormatter_str val a s =
     (let new_val = LogFormatter_ctor val in
      if fm_error new_val then
        res_bind (deref (lg_loggers s) a)
          (\<lambda>l. Inr (print (''Logger setFormatter name='' @ lo_name l @ '' value='' @ val
                           @ '' invalid pattern'' @ endl) s))
      else setFormatter_ptr (Some new_val) a s)"

definition addAppender :: "addr \<Rightarrow> addr \<Rightarrow> log_state \<Rightarrow> log_state res" where
  "addAppender p a s =
     res_bind (deref (lg_loggers s) a) (\<lambda>l.
     res_bind (deref (lg_appenders s) p) (\<lambda>ap.
       let s1 = (if ap_formatter ap = None
                 then upd_appender p (\<lambda>ap. ap\<lparr>ap_formatter := lo_formatter l\<rparr>) s else s)
       in Inr (upd_logger a (\<lambda>l. l\<lparr>lo_appenders := lo_appenders l @ [p]\<rparr>) s1)))"

text \<open>\<open>delAppender\<close>: the first occurrence is erased.\<close>

definition delAppender :: "addr \<Rightarrow> addr \<Rightarrow> log_state \<Rightarrow> log_state res" where
  "delAppender p a s =
     res_bind (deref (lg_loggers s) a)
       (\<lambda>_. Inr (upd_logger a (\<lambda>l. l\<lparr>lo_appenders := remove1 p (lo_appenders l)\<rparr>) s))"

definition clearAppenders :: "addr \<Rightarrow> log_state \<Rightarrow> log_state res" where
  "clearAppenders a s =
     res_bind (deref (lg_loggers s) a)
       (\<lambda>_. Inr (upd_logger a (\<lambda>l. l\<lparr>lo_appenders := []\<rparr>) s))"

text \<open>\<open>Logger::log\<close>.  A logger without appenders hands the event to \<open>m_root\<close>; the fuel bounds
  the length of that chain.\<close>

fun log_appenders ::
  "(string \<Rightarrow> u64 \<Rightarrow> string) \<Rightarrow> addr list \<Rightarrow> level \<Rightarrow> log_event \<Rightarrow> log_state \<Rightarrow> log_state res" where
  "log_appenders strftime [] lvl e s = Inr s"
| "log_appenders strftime (p # ps) lvl e s =
     res_bind (appender_log strftime s p lvl e) (log_appenders strftime ps lvl e)"

fun Logger_log ::
  "nat \<Rightarrow> (string \<Rightarrow> u64 \<Rightarrow> string) \<Rightarrow> addr \<Rightarrow> level \<Rightarrow> log_event \<Rightarrow> log_state \<Rightarrow> log_state res option" where
  "Logger_log 0 strftime a lvl e s = None"
| "Logger_log (Suc n) strftime a lvl e s =
     (case deref (lg_loggers s) a of
        Inl err \<Rightarrow> Some (Inl err)
      | Inr l \<Rightarrow>
          if lvl \<ge> lo_level l then
            if lo_appenders l \<noteq> [] then Some (log_appenders strftime (lo_appenders l) lvl e s)
            else (case lo_root l of
                    Some r \<Rightarrow> Logger_log n strftime r lvl e s
                  | None \<Rightarrow> Some (Inr s))
          else Some (Inr s))"

definition Logger_debug where "Logger_debug n strftime a e s = Logger_log n strftime a DEBUG e s"
definition Logger_info where "Logger_info n strftime a e s = Logger_log n strftime a INFO e s"
definition Logger_warn where "Logger_warn n strftime a e s = Logger_log n strftime a WARN e s"
definition Logger_error where "Logger_error n strftime a e s = Logger_log n strftime a ERROR e s"
definition Logger_fatal where "Logger_fatal n strftime a e s = Logger_log n strftime a FATAL e s"

text \<open>\<open>~LogEventWrap\<close> and the macro \<open>AWCOTN_LOG_LEVEL(logger, level) << txt\<close>: the event is made
  and logged only if the logger's level admits it.\<close>

definition LogEventWrap_dtor ::
  "nat \<Rightarrow> (string \<Rightarrow> u64 \<Rightarrow> string) \<Rightarrow> log_event \<Rightarrow> log_state \<Rightarrow> log_state res option" where
  "LogEventWrap_dtor n strftime e s = Logger_log n strftime (le_logger e) (le_level e) e s"

definition AWCOTN_LOG_LEVEL ::
  "nat \<Rightarrow> (string \<Rightarrow> u64 \<Rightarrow> string) \<Rightarrow> addr \<Rightarrow> level \<Rightarrow> string \<Rightarrow> int \<Rightarrow> int \<Rightarrow> u32 \<Rightarrow> u64 \<Rightarrow> string \<Rightarrow> string
   \<Rightarrow> log_state \<Rightarrow> log_state res option" where
  "AWCOTN_LOG_LEVEL n strftime a lvl file line tid fib now tname txt s =
     (case deref (lg_loggers s) a of
        Inl err \<Rightarrow> Some (Inl err)
      | Inr l \<Rightarrow>
          if lo_level l \<le> lvl then
            LogEventWrap_dtor n strftime
              (stream_to txt (LogEvent_ctor a lvl file line 0 tid fib now tname)) s
          else Some (Inr s))"

section \<open>The logger manager\<close>

definition new_logger :: "logger \<Rightarrow> log_state \<Rightarrow> addr \<times> log_state" where
  "new_logger l s = (length (lg_loggers s), s\<lparr>lg_loggers := lg_loggers s @ [l]\<rparr>)"

definition new_appender :: "appender \<Rightarrow> log_state \<Rightarrow> addr \<times> log_state" where
  "new_appender ap s = (length (lg_appenders s), s\<lparr>lg_appenders := lg_appenders s @ [ap]\<rparr>)"

text \<open>The manager's constructor: the root logger with a console appender.\<close>

definition LoggerManager_ctor :: "log_state res" where
  "LoggerManager_ctor =
     (let s0 = \<lparr>lg_loggers = [], lg_appenders = [], lg_out = [], lg_names = [], lg_root = 0\<rparr>;
          (r, s1) = new_logger (Logger_ctor ''root'') s0;
          (p, s2) = new_appender (LogAppender_init StdoutLogAppender) s1
      in res_bind (addAppender p r (s2\<lparr>lg_root := r\<rparr>))
           (\<lambda>s3. res_bind (deref (lg_loggers s3) r)
             (\<lambda>l. Inr (s3\<lparr>lg_names := insort_key fst (lo_name l, r) (lg_names s3)\<rparr>))))"

text \<open>\<open>getLogger\<close>; \<open>m_loggers\<close> is a map ordered by name.\<close>

definition getLogger :: "string \<Rightarrow> log_state \<Rightarrow> addr \<times> log_state" where
  "getLogger name s =
     (case map_of (lg_names s) name of
        Some a \<Rightarrow> (a, s)
      | None \<Rightarrow>
          (case new_logger ((Logger_ctor name)\<lparr>lo_root := Some (lg_root s)\<rparr>) s of
             (a, s1) \<Rightarrow> (a, s1\<lparr>lg_names := insort_key fst (name, a) (lg_names s1)\<rparr>)))"

lemma deref_Inr_iff [simp]: "deref xs p = Inr x \<longleftrightarrow> p < length xs \<and> x = xs ! p"
  by (auto simp: deref_def)

lemma deref_Inl_iff [simp]: "deref xs p = Inl f \<longleftrightarrow> \<not> p < length xs \<and> f = Undefined ''dangling pointer''"
  by (auto simp: deref_def)

section \<open>The invariant\<close>

text \<open>Attached appenders exist and have a formatter, loggers have one, a logger falls back on
  the root logger only, which has no root itself, and the manager's names are distinct and
  sorted and point to loggers of that name.\<close>

definition good_appender :: "log_state \<Rightarrow> addr \<Rightarrow> bool" where
  "good_appender s p \<longleftrightarrow> p < length (lg_appenders s) \<and> ap_formatter (lg_appenders s ! p) \<noteq> None"

definition good_logger :: "log_state \<Rightarrow> logger \<Rightarrow> bool" where
  "good_logger s l \<longleftrightarrow>
     lo_formatter l \<noteq> None \<and> list_all (good_appender s) (lo_appenders l)
     \<and> (lo_root l = None \<or> lo_root l = Some (lg_root s))"

definition good_names :: "log_state \<Rightarrow> bool" where
  "good_names s \<longleftrightarrow>
     sorted (map fst (lg_names s)) \<and> distinct (map fst (lg_names s))
     \<and> list_all (\<lambda>(n, a). a < length (lg_loggers s) \<and> lo_name (lg_loggers s ! a) = n) (lg_names s)"

definition log_inv :: "log_state \<Rightarrow> bool" where
  "log_inv s \<longleftrightarrow>
     list_all (good_logger s) (lg_loggers s) \<and> good_names s
     \<and> lg_root s < length (lg_loggers s) \<and> lo_root (lg_loggers s ! lg_root s) = None"

lemma inv_logger: "log_inv s \<Longrightarrow> a < length (lg_loggers s) \<Longrightarrow> good_logger s (lg_loggers s ! a)"
  by (simp add: log_inv_def list_all_length)

text \<open>Two updates carry every operation: a logger replaced by a good one of the same name and
  root, an appender replaced by one that has a formatter if the old one had.\<close>

lemma upd_logger_sel [simp]:
  "lg_appenders (upd_logger a f s) = lg_appenders s" "lg_names (upd_logger a f s) = lg_names s"
  "lg_root (upd_logger a f s) = lg_root s" "lg_out (upd_logger a f s) = lg_out s"
  "lg_loggers (upd_logger a f s) = (lg_loggers s)[a := f (lg_loggers s ! a)]"
  by (simp_all add: upd_logger_def)

lemma upd_appender_sel [simp]:
  "lg_loggers (upd_appender p f s) = lg_loggers s" "lg_names (upd_appender p f s) = lg_names s"
  "lg_root (upd_appender p f s) = lg_root s" "lg_out (upd_appender p f s) = lg_out s"
  "lg_appenders (upd_appender p f s) = (lg_appenders s)[p := f (lg_appenders s ! p)]"
  by (simp_all add: upd_appender_def)

lemma print_sel [simp]:
  "lg_loggers (print t s) = lg_loggers s" "lg_names (print t s) = lg_names s"
  "lg_root (print t s) = lg_root s" "lg_appenders (print t s) = lg_appenders s"
  "lg_out (print t s) = lg_out s @ t"
  by (simp_all add: print_def)

lemma good_logger_cong:
  "lg_appenders s' = lg_appenders s \<Longrightarrow> lg_root s' = lg_root s \<Longrightarrow> good_logger s' = good_logger s"
  by (rule ext) (simp add: good_logger_def good_appender_def [abs_def])

lemma upd_logger_inv:
  assumes "log_inv s" and "a < length (lg_loggers s)"
    and "\<And>l. good_logger s l \<Longrightarrow> good_logger s (f l) \<and> lo_name (f l) = lo_name l \<and> lo_root (f l) = lo_root l"
  shows "log_inv (upd_logger a f s)"
proof -
  have l: "good_logger s (lg_loggers s ! a)" using assms(1,2) by (rule inv_logger)
  have "list_all (good_logger s) (lg_loggers (upd_logger a f s))"
    using assms(1) assms(3) [OF l] by (auto simp: log_inv_def list_all_length nth_list_update_if)
  moreover have "good_names (upd_logger a f s)"
    using assms(1,2) assms(3) [OF l]
    by (auto simp: log_inv_def good_names_def list_all_iff nth_list_update_if)
  ultimately show ?thesis
    using assms(1,2) assms(3) [OF l]
    by (auto simp: log_inv_def nth_list_update good_logger_cong [of "upd_logger a f s" s])
qed

lemma appenders_inv:
  assumes "log_inv s" and "lg_loggers s' = lg_loggers s" and "lg_names s' = lg_names s"
    and "lg_root s' = lg_root s" and "\<And>p. good_appender s p \<Longrightarrow> good_appender s' p"
  shows "log_inv s'"
proof -
  have "good_logger s' l" if "good_logger s l" for l
    using that assms(4,5) by (auto simp: good_logger_def list_all_iff)
  then show ?thesis
    using assms by (auto simp: log_inv_def good_names_def list_all_iff)
qed

lemma upd_appender_good:
  "(\<And>ap. ap_formatter ap \<noteq> None \<Longrightarrow> ap_formatter (f ap) \<noteq> None) \<Longrightarrow>
   good_appender s p \<Longrightarrow> good_appender (upd_appender q f s) p"
  by (auto simp: good_appender_def nth_list_update_if)

lemma upd_appender_inv:
  "log_inv s \<Longrightarrow> (\<And>ap. ap_formatter ap \<noteq> None \<Longrightarrow> ap_formatter (f ap) \<noteq> None) \<Longrightarrow>
   log_inv (upd_appender p f s)"
  by (rule appenders_inv [of s]) (simp_all add: upd_appender_good del: not_None_eq)

lemma print_inv: "log_inv s \<Longrightarrow> log_inv (print t s)"
  by (rule appenders_inv [of s]) (simp_all add: good_appender_def)

lemma setLevel_inv:
  "log_inv s \<Longrightarrow> a < length (lg_loggers s) \<Longrightarrow> log_inv (upd_logger a (Logger_setLevel v) s)"
  by (rule upd_logger_inv) (auto simp: Logger_setLevel_def good_logger_def)

lemma follow_all_inv:
  "log_inv s \<Longrightarrow> follow_all (Some f) ps s = Inr s' \<Longrightarrow> log_inv s'"
proof (induction ps arbitrary: s)
  case (Cons p ps)
  have "log_inv (upd_appender p (follow_formatter (Some f)) s)"
    using Cons.prems(1) by (rule upd_appender_inv) (simp add: follow_formatter_def)
  then show ?case using Cons by auto
qed simp

lemma setFormatter_ptr_inv:
  assumes "log_inv s" and "setFormatter_ptr (Some f) a s = Inr s'"
  shows "log_inv s'"
proof -
  have "log_inv (upd_logger a (\<lambda>l. l\<lparr>lo_formatter := Some f\<rparr>) s)"
    using assms by (intro upd_logger_inv) (auto simp: setFormatter_ptr_def good_logger_def)
  then show ?thesis using assms(2) by (auto simp: setFormatter_ptr_def dest: follow_all_inv)
qed

lemma setFormatter_str_inv: "log_inv s \<Longrightarrow> setFormatter_str v a s = Inr s' \<Longrightarrow> log_inv s'"
  by (auto simp: setFormatter_str_def Let_def print_inv setFormatter_ptr_inv split: if_splits)

lemma addAppender_inv:
  assumes "log_inv s" and "addAppender p a s = Inr s'"
  shows "log_inv s'"
proof -
  let ?l = "lg_loggers s ! a"
  let ?s1 = "if ap_formatter (lg_appenders s ! p) = None
             then upd_appender p (\<lambda>ap. ap\<lparr>ap_formatter := lo_formatter ?l\<rparr>) s else s"
  have a: "a < length (lg_loggers s)" and p: "p < length (lg_appenders s)"
    and s': "s' = upd_logger a (\<lambda>l. l\<lparr>lo_appenders := lo_appenders l @ [p]\<rparr>) ?s1"
    using assms(2) by (auto simp: addAppender_def Let_def)
  have f: "lo_formatter ?l \<noteq> None" using inv_logger [OF assms(1) a] by (simp add: good_logger_def)
  have inv: "log_inv ?s1"
    using assms(1) f by (auto intro: upd_appender_inv)
  have "good_appender ?s1 p" using p f by (auto simp: good_appender_def)
  then show ?thesis
    using inv a unfolding s' by (intro upd_logger_inv) (auto simp: good_logger_def)
qed

lemma delAppender_inv: "log_inv s \<Longrightarrow> delAppender p a s = Inr s' \<Longrightarrow> log_inv s'"
  using set_remove1_subset
  by (fastforce simp: delAppender_def good_logger_def list_all_iff intro!: upd_logger_inv)

lemma clearAppenders_inv: "log_inv s \<Longrightarrow> clearAppenders a s = Inr s' \<Longrightarrow> log_inv s'"
  by (auto simp: clearAppenders_def good_logger_def intro!: upd_logger_inv)

lemma new_appender_inv:
  "log_inv s \<Longrightarrow> log_inv (snd (new_appender ap s))"
  by (rule appenders_inv [of s]) (auto simp: new_appender_def good_appender_def nth_append)

lemma insort_names:
  "sorted (map fst xs) \<Longrightarrow> sorted (map fst (insort_key fst (n, a) xs))"
  by (simp add: sorted_insort_key)

lemma getLogger_inv:
  assumes inv: "log_inv s"
  shows "log_inv (snd (getLogger name s))"
proof (cases "map_of (lg_names s) name")
  case (Some a)
  then show ?thesis using inv by (simp add: getLogger_def)
next
  case None
  let ?l = "(Logger_ctor name)\<lparr>lo_root := Some (lg_root s)\<rparr>"
  let ?s = "snd (getLogger name s)"
  have s: "lg_loggers ?s = lg_loggers s @ [?l]"
    "lg_names ?s = insort_key fst (name, length (lg_loggers s)) (lg_names s)"
    "lg_root ?s = lg_root s" "lg_appenders ?s = lg_appenders s"
    using None by (simp_all add: getLogger_def new_logger_def)
  have "name \<notin> fst ` set (lg_names s)" using None by (simp add: map_of_eq_None_iff)
  then have "good_names ?s"
    using inv s by (auto simp: log_inv_def good_names_def list_all_iff nth_append set_insort_key
        sorted_insort_key distinct_map distinct_insort inj_on_def Logger_ctor_def)
  then show ?thesis
    using inv s by (auto simp: log_inv_def nth_append good_logger_cong [OF s(4,3)]
        good_logger_def Logger_ctor_def)
qed


section \<open>What a log call delivers\<close>

text \<open>The text an appender gets for an event, and the state after delivering to a list of
  appenders: console text in the order of the list, each file its own texts.\<close>

definition text_for ::
  "(string \<Rightarrow> u64 \<Rightarrow> string) \<Rightarrow> level \<Rightarrow> log_event \<Rightarrow> log_state \<Rightarrow> addr \<Rightarrow> string" where
  "text_for strftime lvl e s p =
     (let ap = lg_appenders s ! p in
      if lvl \<ge> ap_level ap then LogFormatter_format strftime (name_in s) lvl e (the (ap_formatter ap))
      else [])"

definition on_console :: "log_state \<Rightarrow> addr \<Rightarrow> bool" where
  "on_console s p \<longleftrightarrow> ap_kind (lg_appenders s ! p) = StdoutLogAppender"

definition file_text ::
  "(string \<Rightarrow> u64 \<Rightarrow> string) \<Rightarrow> level \<Rightarrow> log_event \<Rightarrow> addr list \<Rightarrow> log_state \<Rightarrow> addr \<Rightarrow> string" where
  "file_text strftime lvl e ps s p =
     (if on_console s p then []
      else concat (map (text_for strftime lvl e s) (filter (\<lambda>q. q = p) ps)))"

definition delivered ::
  "(string \<Rightarrow> u64 \<Rightarrow> string) \<Rightarrow> level \<Rightarrow> log_event \<Rightarrow> addr list \<Rightarrow> log_state \<Rightarrow> log_state" where
  "delivered strftime lvl e ps s =
     s\<lparr>lg_out := lg_out s @ concat (map (text_for strftime lvl e s) (filter (on_console s) ps)),
       lg_appenders :=
         map (\<lambda>p. write_stream (file_text strftime lvl e ps s p) (lg_appenders s ! p))
           [0..<length (lg_appenders s)]\<rparr>"

text \<open>The appenders a call reaches: the logger's own, or without any the root logger's.\<close>

definition targets :: "log_state \<Rightarrow> addr \<Rightarrow> level \<Rightarrow> addr list" where
  "targets s a lvl =
     (let l = lg_loggers s ! a in
      if lvl < lo_level l then []
      else if lo_appenders l \<noteq> [] then lo_appenders l
      else (case lo_root l of
              None \<Rightarrow> []
            | Some r \<Rightarrow>
                if lvl < lo_level (lg_loggers s ! r) then [] else lo_appenders (lg_loggers s ! r)))"

lemma write_stream_Nil [simp]: "write_stream [] ap = ap"
  by (simp add: write_stream_def)

lemma write_stream_append: "write_stream (t @ u) ap = write_stream u (write_stream t ap)"
  by (auto simp: write_stream_def)

lemma write_stream_sel [simp]:
  "ap_level (write_stream t ap) = ap_level ap" "ap_formatter (write_stream t ap) = ap_formatter ap"
  "ap_kind (write_stream t ap) = ap_kind ap" "ap_hasFormatter (write_stream t ap) = ap_hasFormatter ap"
  by (simp_all add: write_stream_def)

lemma delivered_sel [simp]:
  "lg_loggers (delivered f l e ps s) = lg_loggers s" "lg_names (delivered f l e ps s) = lg_names s"
  "lg_root (delivered f l e ps s) = lg_root s"
  "length (lg_appenders (delivered f l e ps s)) = length (lg_appenders s)"
  by (simp_all add: delivered_def)

lemma delivered_nth:
  "p < length (lg_appenders s) \<Longrightarrow>
   lg_appenders (delivered f l e ps s) ! p = write_stream (file_text f l e ps s p) (lg_appenders s ! p)"
  by (simp add: delivered_def)

lemma file_text_Nil [simp]:
  "on_console s p \<or> p \<notin> set ps \<Longrightarrow> file_text f l e ps s p = []"
  by (auto simp: file_text_def filter_empty_conv)

lemma delivered_Nil [simp]: "delivered f l e [] s = s"
  by (simp add: delivered_def map_nth)

lemma delivered_views:
  "p < length (lg_appenders s) \<Longrightarrow> text_for f l e (delivered f l e ps s) p = text_for f l e s p"
  "p < length (lg_appenders s) \<Longrightarrow> on_console (delivered f l e ps s) p = on_console s p"
  by (simp_all add: text_for_def on_console_def delivered_nth name_in_def [abs_def])

lemma good_after_delivery [simp]: "good_appender (delivered f l e ps s) p = good_appender s p"
  by (auto simp: good_appender_def delivered_nth)

lemma delivered_inv: "log_inv s \<Longrightarrow> log_inv (delivered f l e ps s)"
  by (rule appenders_inv [of s]) simp_all

lemma delivered_Cons:
  assumes "list_all (good_appender s) (p # ps)"
  shows "delivered f l e ps (delivered f l e [p] s) = delivered f l e (p # ps) s"
proof -
  let ?d = "delivered f l e [p] s"
  have ok: "\<forall>q\<in>set (p # ps). q < length (lg_appenders s)"
    using assms by (auto simp: list_all_iff good_appender_def)
  have con: "concat (map (text_for f l e ?d) (filter (on_console ?d) ps))
           = concat (map (text_for f l e s) (filter (on_console s) ps))"
    using ok by (auto simp: delivered_views intro!: arg_cong [where f = concat] map_cong filter_cong)
  have streams: "write_stream (file_text f l e ps ?d q) (lg_appenders ?d ! q)
            = write_stream (file_text f l e (p # ps) s q) (lg_appenders s ! q)"
    if q: "q < length (lg_appenders s)" for q
  proof -
    have "map (text_for f l e ?d) (filter (\<lambda>r. r = q) ps) = map (text_for f l e s) (filter (\<lambda>r. r = q) ps)"
      using q by (intro map_cong) (auto simp: delivered_views)
    then have "file_text f l e (p # ps) s q = file_text f l e [p] s q @ file_text f l e ps ?d q"
      using q by (simp add: file_text_def delivered_views del: map_eq_conv)
    then show ?thesis using q by (simp add: delivered_nth write_stream_append)
  qed
  have out: "lg_out ?d = lg_out s @ concat (map (text_for f l e s) (filter (on_console s) [p]))"
    by (simp add: delivered_def)
  show ?thesis
    using con streams out
    by (auto simp: delivered_def [of f l e ps ?d] delivered_def [of f l e "p # ps" s])
qed

lemma appender_log_delivers:
  assumes "good_appender s p"
  shows "appender_log f s p lvl e = Inr (delivered f lvl e [p] s)"
proof -
  have p: "p < length (lg_appenders s)" and "ap_formatter (lg_appenders s ! p) \<noteq> None"
    using assms by (simp_all add: good_appender_def)
  then obtain fm where fm: "ap_formatter (lg_appenders s ! p) = Some fm" by blast
  let ?t = "text_for f lvl e s p"
  show ?thesis
  proof (cases "ap_kind (lg_appenders s ! p)")
    case StdoutLogAppender
    have "file_text f lvl e [p] s q = []" for q
      using StdoutLogAppender by (cases "q = p") (simp_all add: on_console_def)
    then have "delivered f lvl e [p] s = print ?t s"
      using StdoutLogAppender by (simp add: delivered_def print_def on_console_def map_nth)
    then show ?thesis
      using p fm StdoutLogAppender
      by (simp add: appender_log_def StdoutLogAppender_log_def text_for_def print_def)
  next
    case (FileLogAppender n)
    have "map (\<lambda>q. write_stream (file_text f lvl e [p] s q) (lg_appenders s ! q))
            [0..<length (lg_appenders s)]
        = (lg_appenders s)[p := write_stream ?t (lg_appenders s ! p)]"
      using p FileLogAppender
      by (intro nth_equalityI) (auto simp: file_text_def on_console_def nth_list_update_if)
    then have "delivered f lvl e [p] s = upd_appender p (write_stream ?t) s"
      using FileLogAppender by (simp add: delivered_def upd_appender_def on_console_def)
    then show ?thesis
      using p fm FileLogAppender
      by (simp add: appender_log_def FileLogAppender_log_def text_for_def upd_appender_def)
  qed
qed

lemma log_appenders_delivers:
  "list_all (good_appender s) ps \<Longrightarrow> log_appenders f ps lvl e s = Inr (delivered f lvl e ps s)"
proof (induction ps arbitrary: s)
  case (Cons p ps)
  have "list_all (good_appender (delivered f lvl e [p] s)) ps"
    using Cons.prems by (simp add: list_all_iff)
  then show ?case
    using Cons.IH Cons.prems delivered_Cons [of s p ps f lvl e] by (simp add: appender_log_delivers)
qed simp

text \<open>A log call reaches the targets, also when an appender has lost its formatter.\<close>

lemma Logger_log_targets:
  assumes inv: "log_inv s" and a: "a < length (lg_loggers s)"
  shows "Logger_log (Suc (Suc n)) f a lvl e (upd_appender p g s)
    = Some (log_appenders f (targets s a lvl) lvl e (upd_appender p g s))"
proof -
  have root: "lg_root s < length (lg_loggers s)" "lo_root (lg_loggers s ! lg_root s) = None"
    using inv by (simp_all add: log_inv_def)
  have r: "lo_root (lg_loggers s ! a) \<in> {None, Some (lg_root s)}"
    using inv_logger [OF inv a] by (auto simp: good_logger_def)
  have da: "deref (lg_loggers s) a = Inr (lg_loggers s ! a)"
    and dr: "deref (lg_loggers s) (lg_root s) = Inr (lg_loggers s ! lg_root s)"
    using a root by simp_all
  show ?thesis using r root(2) by (auto simp: da dr targets_def Let_def upd_appender_def)
qed

lemma null_formatter_stops:
  assumes "\<forall>q\<in>set ps. q < length (lg_appenders s) \<and> (q \<noteq> p \<longrightarrow> good_appender s q)"
    and "p \<in> set ps" and "ap_formatter (lg_appenders s ! p) = None" and "ap_level (lg_appenders s ! p) \<le> lvl"
  shows "log_appenders f ps lvl e s = Inl (Undefined ''null formatter'')"
  using assms
proof (induction ps arbitrary: s)
  case (Cons q ps)
  show ?case
  proof (cases "q = p")
    case True
    then show ?thesis using Cons.prems
      by (cases "ap_kind (lg_appenders s ! p)")
        (auto simp: appender_log_def deref_def StdoutLogAppender_log_def FileLogAppender_log_def)
  next
    case False
    let ?s = "delivered f lvl e [q] s"
    have p: "p \<in> set ps" "p < length (lg_appenders s)" using False Cons.prems(1,2) by auto
    have "log_appenders f ps lvl e ?s = Inl (Undefined ''null formatter'')"
      by (rule Cons.IH) (use Cons.prems p in \<open>simp_all add: delivered_nth\<close>)
    then show ?thesis using Cons.prems(1) False by (simp add: appender_log_delivers)
  qed
qed simp

lemma null_formatter_base:
  assumes inv: "log_inv s" and a: "a < length (lg_loggers s)"
    and p: "p \<in> set (targets s a lvl)" and l: "ap_level (lg_appenders s ! p) \<le> lvl"
  shows "Logger_log (Suc (Suc n)) f a lvl e (upd_appender p (LogAppender_setFormatter None) s)
    = Some (Inl (Undefined ''null formatter''))"
proof -
  have "lg_root s < length (lg_loggers s)" using inv by (simp add: log_inv_def)
  then have "list_all (good_appender s) (targets s a lvl)"
    using inv_logger [OF inv a] inv_logger [OF inv, of "lg_root s"]
    by (auto simp: targets_def good_logger_def Let_def split: option.split)
  then have g: "\<forall>q\<in>set (targets s a lvl). good_appender s q" by (simp add: list_all_iff)
  have "log_appenders f (targets s a lvl) lvl e (upd_appender p (LogAppender_setFormatter None) s)
      = Inl (Undefined ''null formatter'')"
    by (rule null_formatter_stops [OF _ p])
      (use g p l in \<open>auto simp: upd_appender_def good_appender_def LogAppender_setFormatter_def\<close>)
  then show ?thesis unfolding Logger_log_targets [OF inv a] by simp
qed

lemma log_delivers_base:
  assumes inv: "log_inv s" and a: "a < length (lg_loggers s)"
  shows "Logger_log (Suc (Suc n)) f a lvl e s = Some (Inr (delivered f lvl e (targets s a lvl) s))"
proof -
  have own: "log_appenders f (lo_appenders (lg_loggers s ! b)) lvl e s
           = Inr (delivered f lvl e (lo_appenders (lg_loggers s ! b)) s)"
    if "b < length (lg_loggers s)" for b
    using inv_logger [OF inv that] by (simp add: good_logger_def log_appenders_delivers)
  have root: "lg_root s < length (lg_loggers s)" "lo_root (lg_loggers s ! lg_root s) = None"
    using inv by (simp_all add: log_inv_def)
  have r: "lo_root (lg_loggers s ! a) \<in> {None, Some (lg_root s)}"
    using inv_logger [OF inv a] by (auto simp: good_logger_def)
  have da: "deref (lg_loggers s) a = Inr (lg_loggers s ! a)"
    and dr: "deref (lg_loggers s) (lg_root s) = Inr (lg_loggers s ! lg_root s)"
    using a root by simp_all
  show ?thesis
    using own [OF a] own [OF root(1)] r root(2)
    by (auto simp: da dr targets_def Let_def)
qed


section \<open>Reachable states\<close>

text \<open>The states the operations lead to from the manager's constructor, with pointers to
  existing objects.  The one use of the interface that is left out is \<open>setFormatter\<close> with a null
  pointer, on a logger or an appender: the code accepts it, and the next log call that reaches an
  appender without a formatter dereferences it (the last part of C32).\<close>

inductive log_reachable :: "(string \<Rightarrow> u64 \<Rightarrow> string) \<Rightarrow> log_state \<Rightarrow> bool" for f where
  r_init: "LoggerManager_ctor = Inr s \<Longrightarrow> log_reachable f s"
| r_getLogger: "log_reachable f s \<Longrightarrow> log_reachable f (snd (getLogger name s))"
| r_setLevel:
    "log_reachable f s \<Longrightarrow> a < length (lg_loggers s) \<Longrightarrow>
     log_reachable f (upd_logger a (Logger_setLevel v) s)"
| r_setFormatter_ptr:
    "log_reachable f s \<Longrightarrow> setFormatter_ptr (Some fm) a s = Inr s' \<Longrightarrow> log_reachable f s'"
| r_setFormatter_str:
    "log_reachable f s \<Longrightarrow> setFormatter_str pattern a s = Inr s' \<Longrightarrow> log_reachable f s'"
| r_addAppender: "log_reachable f s \<Longrightarrow> addAppender p a s = Inr s' \<Longrightarrow> log_reachable f s'"
| r_delAppender: "log_reachable f s \<Longrightarrow> delAppender p a s = Inr s' \<Longrightarrow> log_reachable f s'"
| r_clearAppenders: "log_reachable f s \<Longrightarrow> clearAppenders a s = Inr s' \<Longrightarrow> log_reachable f s'"
| r_new_stdout:
    "log_reachable f s \<Longrightarrow>
     log_reachable f (snd (new_appender (LogAppender_init StdoutLogAppender) s))"
| r_new_file:
    "log_reachable f s \<Longrightarrow>
     log_reachable f (snd (new_appender (FileLogAppender_ctor filename ok) s))"
| r_ap_setFormatter:
    "log_reachable f s \<Longrightarrow>
     log_reachable f (upd_appender p (LogAppender_setFormatter (Some fm)) s)"
| r_ap_setLevel:
    "log_reachable f s \<Longrightarrow> log_reachable f (upd_appender p (LogAppender_setLevel v) s)"
| r_reopen: "log_reachable f s \<Longrightarrow> log_reachable f (upd_appender p (\<lambda>ap. fst (reopen ok ap)) s)"
| r_log: "log_reachable f s \<Longrightarrow> Logger_log n f a lvl e s = Some (Inr s') \<Longrightarrow> log_reachable f s'"

lemma manager_state:
  "LoggerManager_ctor =
     Inr \<lparr>lg_loggers = [(Logger_ctor ''root'')\<lparr>lo_appenders := [0]\<rparr>],
          lg_appenders = [(LogAppender_init StdoutLogAppender)
                            \<lparr>ap_formatter := Some (LogFormatter_ctor default_pattern)\<rparr>],
          lg_out = [], lg_names = [(''root'', 0)], lg_root = 0\<rparr>"
  by (simp add: LoggerManager_ctor_def new_logger_def new_appender_def addAppender_def deref_def
      Logger_ctor_def LogAppender_init_def upd_appender_def upd_logger_def)

lemma manager_inv: "LoggerManager_ctor = Inr s \<Longrightarrow> log_inv s"
  by (auto simp: manager_state log_inv_def good_logger_def good_appender_def good_names_def Logger_ctor_def)

lemma reopen_formatter [simp]: "ap_formatter (fst (reopen ok ap)) = ap_formatter ap"
  by (simp add: reopen_def Let_def close_stream_def open_stream_def)

lemma Logger_log_ok:
  assumes "log_inv s" and "Logger_log n f a lvl e s = Some (Inr s')"
  shows "log_inv s'"
  using assms
proof (induction n arbitrary: a)
  case (Suc n)
  show ?case
  proof (cases "a < length (lg_loggers s)")
    case True
    have "list_all (good_appender s) (lo_appenders (lg_loggers s ! a))"
      using inv_logger [OF Suc.prems(1) True] by (simp add: good_logger_def)
    then show ?thesis
      using Suc True delivered_inv
      by (auto simp: deref_def log_appenders_delivers split: if_splits option.splits)
  qed (use Suc in \<open>auto simp: deref_def\<close>)
qed simp

lemma log_reachable_inv: "log_reachable f s \<Longrightarrow> log_inv s"
proof (induction rule: log_reachable.induct)
  case (r_ap_setFormatter s p fm)
  show ?case by (rule upd_appender_inv [OF r_ap_setFormatter.IH])
      (simp add: LogAppender_setFormatter_def Let_def)
next
  case (r_ap_setLevel s p v)
  show ?case by (rule upd_appender_inv [OF r_ap_setLevel.IH]) (simp add: LogAppender_setLevel_def)
next
  case (r_reopen s p ok)
  show ?case by (rule upd_appender_inv [OF r_reopen.IH]) simp
qed (fact manager_inv getLogger_inv setLevel_inv setFormatter_ptr_inv setFormatter_str_inv
  addAppender_inv delAppender_inv clearAppenders_inv new_appender_inv Logger_log_ok | blast intro:
  manager_inv getLogger_inv setLevel_inv setFormatter_ptr_inv setFormatter_str_inv
  addAppender_inv delAppender_inv clearAppenders_inv new_appender_inv Logger_log_ok)+

lemma follow_all_spec:
  "list_all (\<lambda>p. p < length (lg_appenders s)) ps \<Longrightarrow>
   \<exists>s'. follow_all v ps s = Inr s' \<and> lg_loggers s' = lg_loggers s \<and>
     (\<forall>p < length (lg_appenders s). lg_appenders s' ! p =
        (if p \<in> set ps then follow_formatter v (lg_appenders s ! p) else lg_appenders s ! p))"
proof (induction ps arbitrary: s)
  case (Cons q ps)
  let ?s = "upd_appender q (follow_formatter v) s"
  have twice: "follow_formatter v (follow_formatter v ap) = follow_formatter v ap" for ap
    by (simp add: follow_formatter_def)
  obtain s' where s': "follow_all v ps ?s = Inr s'" "lg_loggers s' = lg_loggers s"
    "\<forall>p < length (lg_appenders s). lg_appenders s' ! p =
       (if p \<in> set ps then follow_formatter v (lg_appenders ?s ! p) else lg_appenders ?s ! p)"
    using Cons.IH [of ?s] Cons.prems by auto
  show ?case
    using s' Cons.prems by (intro exI [of _ s']) (auto simp: deref_def nth_list_update_if twice)
qed simp

lemma macro_base:
  "a < length (lg_loggers s) \<Longrightarrow>
     AWCOTN_LOG_LEVEL 2 f a lvl file line tid fib now tname txt s =
     Logger_log 2 f a lvl (stream_to txt (LogEvent_ctor a lvl file line 0 tid fib now tname)) s"
  by (auto simp: AWCOTN_LOG_LEVEL_def LogEventWrap_dtor_def deref_def stream_to_def LogEvent_ctor_def
      numeral_2_eq_2)

lemma named: "log_inv s \<Longrightarrow> map_of (lg_names s) n = Some a \<Longrightarrow>
    a < length (lg_loggers s) \<and> lo_name (lg_loggers s ! a) = n"
  by (auto simp: log_inv_def good_names_def list_all_iff dest!: map_of_SomeD)

lemma getLogger_named:
  assumes inv: "log_inv s" and g: "getLogger name s = (a, s1)"
  shows "map_of (lg_names s1) name = Some a"
proof (cases "map_of (lg_names s) name")
  case None
  have "distinct (map fst (lg_names s1))"
    using getLogger_inv [OF inv, of name] g by (simp add: log_inv_def good_names_def)
  moreover have "(name, a) \<in> set (lg_names s1)"
    using g None by (auto simp: getLogger_def new_logger_def set_insort_key)
  ultimately show ?thesis by (rule map_of_is_SomeI)
qed (use g in \<open>auto simp: getLogger_def\<close>)

section \<open>Properties\<close>



text \<open>The logging macro is equivalent to an unconditional log call: its own test of the
  logger's level only saves the construction of an event that \<open>Logger::log\<close> would discard.\<close>

theorem macro_is_log_call:
  "a < length (lg_loggers s) \<Longrightarrow>
     AWCOTN_LOG_LEVEL 2 f a lvl file line tid fib now tname txt s =
     Logger_log 2 f a lvl (stream_to txt (LogEvent_ctor a lvl file line 0 tid fib now tname)) s"
  by (rule macro_base)

text \<open>The manager shares loggers by name: asking again for a name gives the same logger and
  changes nothing, its name is the one asked for, a new logger falls back on the root, and
  another name gives another logger.\<close>

theorem getLogger_by_name:
  "log_reachable f s \<Longrightarrow> getLogger name s = (a, s1) \<Longrightarrow>
     getLogger name s1 = (a, s1) \<and> lo_name (lg_loggers s1 ! a) = name
     \<and> (map_of (lg_names s) name = None \<longrightarrow> lo_root (lg_loggers s1 ! a) = Some (lg_root s))
     \<and> (\<forall>other. other \<noteq> name \<longrightarrow> fst (getLogger other s1) \<noteq> a)"
proof -
  assume r: "log_reachable f s" and g: "getLogger name s = (a, s1)"
  have inv: "log_inv s" and inv1: "log_inv s1"
    using log_reachable_inv [OF r] getLogger_inv [of s name] g by simp_all
  have m: "map_of (lg_names s1) name = Some a" using inv g by (rule getLogger_named)
  then have n: "a < length (lg_loggers s1)" "lo_name (lg_loggers s1 ! a) = name"
    using named [OF inv1] by blast+
  have "fst (getLogger other s1) \<noteq> a" if "other \<noteq> name" for other
    using n named [OF inv1, of other] that
    by (auto simp: getLogger_def new_logger_def split: option.split)
  moreover have "lo_root (lg_loggers s1 ! a) = Some (lg_root s)" if "map_of (lg_names s) name = None"
    using g that by (auto simp: getLogger_def new_logger_def Logger_ctor_def)
  ultimately show ?thesis using m n by (simp add: getLogger_def)
qed

theorem getLogger_by_name_witness:
  "\<exists>s. LoggerManager_ctor = Inr s \<and> fst (getLogger ''system'' (snd (getLogger ''system'' s))) = 1"
proof -
  obtain s where s: "LoggerManager_ctor = Inr s" using manager_state by blast
  then have "log_reachable (\<lambda>_ _. []) s" by (rule r_init)
  moreover have "fst (getLogger ''system'' s) = 1"
    using s by (auto simp: manager_state getLogger_def new_logger_def)
  ultimately show ?thesis
    using s getLogger_by_name [of "\<lambda>_ _. []" s "''system''" 1 "snd (getLogger ''system'' s)"]
    by (metis fst_conv prod.collapse)
qed

theorem macro_is_log_call_witness:
  "\<exists>s. LoggerManager_ctor = Inr s \<and>
     AWCOTN_LOG_LEVEL 2 (\<lambda>_ _. []) 0 WARN ''a.cc'' 7 1 0 0 ''main'' ''hi'' s =
     Logger_log 2 (\<lambda>_ _. []) 0 WARN (stream_to ''hi'' (LogEvent_ctor 0 WARN ''a.cc'' 7 0 1 0 0 ''main'')) s"
proof -
  obtain s where s: "LoggerManager_ctor = Inr s" using manager_state by blast
  then have "log_reachable (\<lambda>_ _. []) s" by (rule r_init)
  moreover have "0 < length (lg_loggers s)" using s by (auto simp: manager_state)
  ultimately show ?thesis using s macro_is_log_call by blast
qed

text \<open>Setting a logger's formatter from a pattern: an invalid pattern changes nothing but
  prints a message; a valid one becomes the logger's formatter and that of its attached
  appenders without a formatter of their own, and no other appender changes.\<close>

theorem setFormatter_spec:
  "log_reachable f s \<Longrightarrow> a < length (lg_loggers s) \<Longrightarrow>
     \<exists>s'. setFormatter_str pattern a s = Inr s' \<and>
       (if fm_error (LogFormatter_ctor pattern)
        then lg_loggers s' = lg_loggers s \<and> lg_appenders s' = lg_appenders s
        else lo_formatter (lg_loggers s' ! a) = Some (LogFormatter_ctor pattern) \<and>
             (\<forall>p < length (lg_appenders s). lg_appenders s' ! p =
                (if p \<in> set (lo_appenders (lg_loggers s ! a)) \<and> \<not> ap_hasFormatter (lg_appenders s ! p)
                 then (lg_appenders s ! p)\<lparr>ap_formatter := Some (LogFormatter_ctor pattern)\<rparr>
                 else lg_appenders s ! p)))"
proof -
  assume r: "log_reachable f s" and a: "a < length (lg_loggers s)"
  let ?ps = "lo_appenders (lg_loggers s ! a)" and ?v = "Some (LogFormatter_ctor pattern)"
  let ?s = "upd_logger a (\<lambda>l. l\<lparr>lo_formatter := ?v\<rparr>) s"
  have "list_all (\<lambda>p. p < length (lg_appenders s)) ?ps"
    using inv_logger [OF log_reachable_inv [OF r] a]
    by (auto simp: good_logger_def good_appender_def list_all_iff)
  then obtain s' where "follow_all ?v ?ps ?s = Inr s'" "lg_loggers s' = lg_loggers ?s"
    "\<forall>p < length (lg_appenders s). lg_appenders s' ! p =
       (if p \<in> set ?ps then follow_formatter ?v (lg_appenders s ! p) else lg_appenders s ! p)"
    using follow_all_spec [of ?s ?ps ?v] by auto
  then show ?thesis
    using a by (cases "fm_error (LogFormatter_ctor pattern)")
      (auto simp: setFormatter_str_def setFormatter_ptr_def deref_def follow_formatter_def)
qed

theorem setFormatter_spec_witness:
  "\<exists>s s'. LoggerManager_ctor = Inr s \<and> setFormatter_str ''%m%n'' 0 s = Inr s'"
proof -
  obtain s where s: "LoggerManager_ctor = Inr s" using manager_state by blast
  then have "log_reachable (\<lambda>_ _. []) s" by (rule r_init)
  moreover have "0 < length (lg_loggers s)" using s by (auto simp: manager_state)
  ultimately show ?thesis using s setFormatter_spec by blast
qed


end
