(* ===== verification/Yaml.thy ===== *)
theory Yaml
  imports Prelude
begin

text \<open>
  The data exchanged with the YAML library (\<open>yaml-cpp\<close>, not part of the repository): the four
  kinds of node a document consists of, and the library functions the code calls as a
  record of parameters.  What the code relies on is \<open>yaml_ok\<close>: loading the text of a node
  gives the node back.  \<open>plain_lib\<close> is a small concrete library with that property; the
  witnesses use it.
\<close>

section \<open>Nodes\<close>

datatype yaml = Null | Scalar string | Seq "yaml list" | Map "(yaml \<times> yaml) list"

text \<open>\<open>Load\<close> is \<open>None\<close> where \<open>YAML::Load\<close> throws a \<open>ParserException\<close>; \<open>map_index\<close> is \<open>operator[]\<close> of a
  mapping with an integer (\<open>None\<close> for a node that is not defined); \<open>undefined_text\<close> is what
  printing such a node writes; \<open>null_string\<close> is \<open>as<std::string>()\<close> of a null node (\<open>None\<close> where
  it throws).\<close>

record yaml_lib =
  Load :: "string \<Rightarrow> yaml option"
  Emit :: "yaml \<Rightarrow> string"
  map_index :: "(yaml \<times> yaml) list \<Rightarrow> nat \<Rightarrow> yaml option"
  undefined_text :: string
  null_string :: "string option"

definition yaml_ok :: "yaml_lib \<Rightarrow> bool" where
  "yaml_ok lib \<longleftrightarrow> (\<forall>n. Load lib (Emit lib n) = Some n)"

definition load_node :: "yaml_lib \<Rightarrow> string \<Rightarrow> yaml res" where
  "load_node lib s =
     (case Load lib s of Some n \<Rightarrow> Inr n | None \<Rightarrow> Inl (Throws ''ParserException''))"

lemma load_emit [simp]: "yaml_ok lib \<Longrightarrow> load_node lib (Emit lib n) = Inr n"
  by (simp add: yaml_ok_def load_node_def)

section \<open>Access\<close>

text \<open>\<open>Scalar()\<close>, \<open>as<std::string>()\<close>, \<open>size()\<close>, \<open>n[key]\<close> with a string key (\<open>None\<close>: not defined).\<close>

definition scalar_text :: "yaml \<Rightarrow> string" where
  "scalar_text n = (case n of Scalar s \<Rightarrow> s | _ \<Rightarrow> [])"

definition as_string :: "yaml_lib \<Rightarrow> yaml \<Rightarrow> string res" where
  "as_string lib n =
     (case n of
        Scalar s \<Rightarrow> Inr s
      | Null \<Rightarrow> (case null_string lib of Some s \<Rightarrow> Inr s | None \<Rightarrow> Inl (Throws ''BadConversion''))
      | _ \<Rightarrow> Inl (Throws ''BadConversion''))"

definition node_size :: "yaml \<Rightarrow> nat" where
  "node_size n = (case n of Seq xs \<Rightarrow> length xs | Map kvs \<Rightarrow> length kvs | _ \<Rightarrow> 0)"

definition node_key :: "yaml \<Rightarrow> string \<Rightarrow> yaml option res" where
  "node_key n key =
     (case n of
        Map kvs \<Rightarrow> Inr (map_of kvs (Scalar key))
      | Scalar _ \<Rightarrow> Inl (Throws ''BadSubscript'')
      | _ \<Rightarrow> Inr None)"

definition node_index :: "yaml_lib \<Rightarrow> yaml \<Rightarrow> nat \<Rightarrow> yaml option" where
  "node_index lib n i =
     (case n of
        Seq xs \<Rightarrow> (if i < length xs then Some (xs ! i) else None)
      | Map kvs \<Rightarrow> map_index lib kvs i
      | _ \<Rightarrow> None)"

text \<open>\<open>ss << n\<close>.\<close>

definition node_text :: "yaml_lib \<Rightarrow> yaml option \<Rightarrow> string" where
  "node_text lib n = (case n of Some n \<Rightarrow> Emit lib n | None \<Rightarrow> undefined_text lib)"

section \<open>Loops over nodes\<close>

text \<open>A loop that ends with the first exception.\<close>

fun res_map :: "('a \<Rightarrow> 'b res) \<Rightarrow> 'a list \<Rightarrow> 'b list res" where
  "res_map f [] = Inr []"
| "res_map f (x # xs) = res_bind (f x) (\<lambda>y. res_bind (res_map f xs) (\<lambda>ys. Inr (y # ys)))"

lemma res_map_Inr: "(\<And>x. x \<in> set xs \<Longrightarrow> f x = Inr (g x)) \<Longrightarrow> res_map f xs = Inr (map g xs)"
  by (induction xs) auto

lemma res_map_map: "res_map f (map g xs) = res_map (\<lambda>x. f (g x)) xs"
  by (induction xs) auto

lemma res_map_rel:
  "list_all (\<lambda>x. \<exists>y. f x = Inr y \<and> g y = Inr x) xs \<Longrightarrow>
   \<exists>ys. res_map f xs = Inr ys \<and> length ys = length xs \<and> res_map g ys = Inr xs"
proof (induction xs)
  case (Cons x xs)
  then obtain y ys where "f x = Inr y" "g y = Inr x" "res_map f xs = Inr ys"
    "length ys = length xs" "res_map g ys = Inr xs" by auto
  then show ?case by (intro exI [of _ "y # ys"]) simp
qed simp

section \<open>A concrete library\<close>

text \<open>Nodes written in postfix form and read by a machine with a stack of nodes.\<close>

fun plain_emit :: "yaml \<Rightarrow> string" where
  "plain_emit Null = ''~''"
| "plain_emit (Scalar s) = CHR 0x22 # concat (map (\<lambda>c. [CHR ''+'', c]) s)"
| "plain_emit (Seq xs) = CHR ''['' # concat (map (\<lambda>x. plain_emit x @ '','') xs)"
| "plain_emit (Map kvs) =
     CHR ''{'' # concat (map (\<lambda>(k, v). plain_emit k @ plain_emit v @ '':'') kvs)"

fun plain_run :: "string \<Rightarrow> yaml list \<Rightarrow> yaml list option" where
  "plain_run [] st = Some st"
| "plain_run (c # cs) st =
     (if c = CHR ''~'' then plain_run cs (Null # st)
      else if c = CHR 0x22 then plain_run cs (Scalar [] # st)
      else if c = CHR ''['' then plain_run cs (Seq [] # st)
      else if c = CHR ''{'' then plain_run cs (Map [] # st)
      else if c = CHR ''+'' then
        (case cs of
           d # ds \<Rightarrow> (case st of Scalar s # st' \<Rightarrow> plain_run ds (Scalar (s @ [d]) # st') | _ \<Rightarrow> None)
         | [] \<Rightarrow> None)
      else if c = CHR '','' then
        (case st of x # Seq xs # st' \<Rightarrow> plain_run cs (Seq (xs @ [x]) # st') | _ \<Rightarrow> None)
      else if c = CHR '':'' then
        (case st of v # k # Map kvs # st' \<Rightarrow> plain_run cs (Map (kvs @ [(k, v)]) # st') | _ \<Rightarrow> None)
      else None)"

text \<open>At the top level a scalar that does not start with one of the four markers is written
  as it is.\<close>

definition is_plain :: "string \<Rightarrow> bool" where
  "is_plain s \<longleftrightarrow> s \<noteq> [] \<and> hd s \<notin> {CHR ''~'', CHR 0x22, CHR ''['', CHR ''{''}"

definition top_emit :: "yaml \<Rightarrow> string" where
  "top_emit n = (case n of Scalar s \<Rightarrow> (if is_plain s then s else plain_emit n) | _ \<Rightarrow> plain_emit n)"

definition top_load :: "string \<Rightarrow> yaml option" where
  "top_load s =
     (if is_plain s then Some (Scalar s)
      else case plain_run s [] of Some [n] \<Rightarrow> Some n | _ \<Rightarrow> None)"

definition plain_lib :: yaml_lib where
  "plain_lib =
     \<lparr>Load = top_load, Emit = top_emit, map_index = (\<lambda>_ _. None), undefined_text = [],
      null_string = None\<rparr>"

lemma run_chars:
  "plain_run (concat (map (\<lambda>c. [CHR ''+'', c]) s) @ r) (Scalar t # st)
   = plain_run r (Scalar (t @ s) # st)"
  by (induction s arbitrary: t) auto

lemma run_emit: "plain_run (plain_emit n @ r) st = plain_run r (n # st)"
proof (induction n arbitrary: r st)
  case (Seq xs)
  have "plain_run (concat (map (\<lambda>x. plain_emit x @ '','') xs) @ r) (Seq ys # st)
      = plain_run r (Seq (ys @ xs) # st)" for ys
    using Seq by (induction xs arbitrary: ys) auto
  then show ?case by simp
next
  case (Map kvs)
  have IH: "\<forall>(k, v) \<in> set kvs. \<forall>r st. plain_run (plain_emit k @ r) st = plain_run r (k # st)
      \<and> plain_run (plain_emit v @ r) st = plain_run r (v # st)"
    using Map by fastforce
  have "plain_run (concat (map (\<lambda>(k, v). plain_emit k @ plain_emit v @ '':'') kvs) @ r) (Map ys # st)
      = plain_run r (Map (ys @ kvs) # st)" for ys
    using IH by (induction kvs arbitrary: ys) auto
  then show ?case by simp
qed (simp_all add: run_chars)

lemma emit_not_plain [simp]: "\<not> is_plain (plain_emit n)"
  by (cases n) (simp_all add: is_plain_def)

lemma plain_ok: "yaml_ok plain_lib"
proof -
  have "top_load (top_emit n) = Some n" for n
    using run_emit [of n "[]" "[]"]
    by (cases n) (auto simp: top_load_def top_emit_def simp del: plain_emit.simps plain_run.simps(2))
  then show ?thesis by (simp add: yaml_ok_def plain_lib_def)
qed

end
