(* ===== verification/Std_Map.thy ===== *)
theory Std_Map
  imports Prelude
begin

text \<open>
  The part of \<open>std::map<K, V>\<close> the code uses, on the list of its entries in key order:
  \<open>m[k] = v\<close>, \<open>insert\<close> (which keeps an entry that is there), \<open>find\<close> (\<open>map_of\<close>) and \<open>erase\<close>.
\<close>

definition smap_ok :: "('k::linorder \<times> 'v) list \<Rightarrow> bool" where
  "smap_ok m \<longleftrightarrow> sorted (map fst m) \<and> distinct (map fst m)"

fun smap_put :: "'k::linorder \<Rightarrow> 'v \<Rightarrow> ('k \<times> 'v) list \<Rightarrow> ('k \<times> 'v) list" where
  "smap_put k v [] = [(k, v)]"
| "smap_put k v ((k', v') # m) =
     (if k < k' then (k, v) # (k', v') # m
      else if k = k' then (k, v) # m
      else (k', v') # smap_put k v m)"

definition smap_insert :: "'k::linorder \<Rightarrow> 'v \<Rightarrow> ('k \<times> 'v) list \<Rightarrow> ('k \<times> 'v) list" where
  "smap_insert k v m = (if map_of m k = None then smap_put k v m else m)"

definition smap_erase :: "'k::linorder \<Rightarrow> ('k \<times> 'v) list \<Rightarrow> ('k \<times> 'v) list" where
  "smap_erase k m = filter (\<lambda>(k', _). k' \<noteq> k) m"

lemma smap_put_keys: "fst ` set (smap_put k v m) = insert k (fst ` set m)"
proof (induction m)
  case (Cons kv m)
  then show ?case by (cases kv) (simp add: insert_commute)
qed simp

lemma smap_ok_Nil [simp]: "smap_ok []"
  by (simp add: smap_ok_def)

lemma smap_put_ok [simp]: "smap_ok m \<Longrightarrow> smap_ok (smap_put k v m)"
proof (induction m)
  case (Cons kv m)
  then show ?case
    using smap_put_keys [of k v m] by (cases kv) (auto simp: smap_ok_def)
qed (simp add: smap_ok_def)

lemma map_of_smap_put [simp]: "smap_ok m \<Longrightarrow> map_of (smap_put k v m) = (map_of m)(k \<mapsto> v)"
proof (induction m)
  case (Cons kv m)
  then show ?case by (cases kv) (auto simp: smap_ok_def fun_eq_iff)
qed auto

lemma smap_erase_ok [simp]: "smap_ok m \<Longrightarrow> smap_ok (smap_erase k m)"
  by (induction m) (auto simp: smap_erase_def smap_ok_def)

lemma map_of_smap_erase [simp]: "map_of (smap_erase k m) = (map_of m)(k := None)"
  by (induction m) (auto simp: smap_erase_def)

lemma smap_put_mem:
  "smap_ok m \<Longrightarrow> x \<in> set (smap_put k v m) \<longleftrightarrow> x = (k, v) \<or> x \<in> set m \<and> fst x \<noteq> k"
proof (induction m)
  case (Cons kv m)
  then show ?case by (cases kv) (auto simp: smap_ok_def)
qed auto

text \<open>Inserting the entries of a map in order builds it again.\<close>

lemma smap_put_last:
  "smap_ok (m @ [(k, v)]) \<Longrightarrow> smap_put k v m = m @ [(k, v)]"
proof (induction m)
  case (Cons kv m)
  then show ?case by (cases kv) (auto simp: smap_ok_def)
qed simp

lemma smap_rebuild:
  "smap_ok (m0 @ m) \<Longrightarrow> foldl (\<lambda>m (k, v). smap_insert k v m) m0 m = m0 @ m"
proof (induction m arbitrary: m0)
  case (Cons kv m)
  obtain k v where kv: "kv = (k, v)" by (cases kv)
  have "smap_ok (m0 @ [(k, v)])" using Cons.prems kv by (auto simp: smap_ok_def sorted_append)
  moreover have "map_of m0 k = None"
    using Cons.prems kv by (auto simp: smap_ok_def map_of_eq_None_iff)
  ultimately have "smap_insert k v m0 = m0 @ [(k, v)]"
    by (simp add: smap_insert_def smap_put_last)
  then show ?case using Cons.IH [of "m0 @ [(k, v)]"] Cons.prems kv by simp
qed simp

end
