(* ===== verification/Lexical_Cast.thy ===== *)
theory Lexical_Cast
  imports Yaml Std_Set Std_Map "HOL-Library.List_Lexorder" "HOL-Library.Char_ord"
begin

text \<open>
  The conversions between values and YAML text of \<open>config.h\<close>: the generic \<open>LexicalCast\<close>, which is
  \<open>boost::lexical_cast\<close> (a parameter), and its specialisations for the containers, each built
  from the conversions of the elements.  What a conversion pair promises is the locale
  \<open>lexical_cast\<close>; the container conversions keep the contract, so it holds for containers of
  containers.  Vectors and lists are lists, a \<open>std::set\<close> or \<open>std::map\<close> the list of its elements
  in order, an unordered container a set or map with its iteration order as a parameter.
\<close>

section \<open>Conversions\<close>

text \<open>\<open>LexicalCast<F, T>\<close>.\<close>

definition LexicalCast :: "('f \<Rightarrow> 't res) \<Rightarrow> 'f \<Rightarrow> 't res" where
  "LexicalCast boost v = boost v"

text \<open>The loops the specialisations share: the elements of a node read in order, the elements
  of a container loaded into nodes.\<close>

definition read_elems :: "yaml_lib \<Rightarrow> (string \<Rightarrow> 'a res) \<Rightarrow> yaml \<Rightarrow> 'a list res" where
  "read_elems lib rd node =
     res_map (\<lambda>i. rd (node_text lib (node_index lib node i))) [0..<node_size node]"

definition elem_nodes :: "yaml_lib \<Rightarrow> ('a \<Rightarrow> string res) \<Rightarrow> 'a list \<Rightarrow> yaml list res" where
  "elem_nodes lib pr xs = res_map (\<lambda>x. res_bind (pr x) (load_node lib)) xs"

definition vector_from :: "yaml_lib \<Rightarrow> (string \<Rightarrow> 'a res) \<Rightarrow> string \<Rightarrow> 'a list res" where
  "vector_from lib rd v = res_bind (load_node lib v) (read_elems lib rd)"

text \<open>A vector's node starts as null and becomes a sequence with the first \<open>push_back\<close>; the
  others start as an empty sequence.\<close>

definition vector_to :: "yaml_lib \<Rightarrow> ('a \<Rightarrow> string res) \<Rightarrow> 'a list \<Rightarrow> string res" where
  "vector_to lib pr xs =
     res_bind (elem_nodes lib pr xs) (\<lambda>ns. Inr (Emit lib (if ns = [] then Null else Seq ns)))"

definition list_from :: "yaml_lib \<Rightarrow> (string \<Rightarrow> 'a res) \<Rightarrow> string \<Rightarrow> 'a list res" where
  "list_from lib rd v = res_bind (load_node lib v) (read_elems lib rd)"

definition list_to :: "yaml_lib \<Rightarrow> ('a \<Rightarrow> string res) \<Rightarrow> 'a list \<Rightarrow> string res" where
  "list_to lib pr xs = res_bind (elem_nodes lib pr xs) (\<lambda>ns. Inr (Emit lib (Seq ns)))"

definition set_from ::
  "yaml_lib \<Rightarrow> ('a \<Rightarrow> 'a \<Rightarrow> bool) \<Rightarrow> (string \<Rightarrow> 'a res) \<Rightarrow> string \<Rightarrow> 'a list res" where
  "set_from lib lt rd v =
     res_bind (load_node lib v) (\<lambda>node.
     res_bind (read_elems lib rd node) (\<lambda>xs.
       Inr (foldl (\<lambda>s x. fst (sset_insert lt x s)) [] xs)))"

definition set_to :: "yaml_lib \<Rightarrow> ('a \<Rightarrow> string res) \<Rightarrow> 'a list \<Rightarrow> string res" where
  "set_to lib pr xs = res_bind (elem_nodes lib pr xs) (\<lambda>ns. Inr (Emit lib (Seq ns)))"

definition uset_from :: "yaml_lib \<Rightarrow> (string \<Rightarrow> 'a res) \<Rightarrow> string \<Rightarrow> 'a set res" where
  "uset_from lib rd v =
     res_bind (load_node lib v) (\<lambda>node. res_bind (read_elems lib rd node) (\<lambda>xs. Inr (set xs)))"

definition uset_to ::
  "yaml_lib \<Rightarrow> ('a set \<Rightarrow> 'a list) \<Rightarrow> ('a \<Rightarrow> string res) \<Rightarrow> 'a set \<Rightarrow> string res" where
  "uset_to lib order pr S =
     res_bind (elem_nodes lib pr (order S)) (\<lambda>ns. Inr (Emit lib (Seq ns)))"

text \<open>Iterating a node as a mapping: the elements of a sequence have no \<open>first\<close>.\<close>

definition read_entries :: "yaml_lib \<Rightarrow> (string \<Rightarrow> 'a res) \<Rightarrow> yaml \<Rightarrow> (string \<times> 'a) list res" where
  "read_entries lib rd node =
     (case node of
        Map kvs \<Rightarrow> res_map (\<lambda>(k, n). res_bind (rd (Emit lib n)) (\<lambda>x. Inr (scalar_text k, x))) kvs
      | Seq (_ # _) \<Rightarrow> Inl (Throws ''InvalidNode'')
      | _ \<Rightarrow> Inr [])"

definition entry_nodes ::
  "yaml_lib \<Rightarrow> ('a \<Rightarrow> string res) \<Rightarrow> (string \<times> 'a) list \<Rightarrow> (yaml \<times> yaml) list res" where
  "entry_nodes lib pr m =
     res_map (\<lambda>(k, x). res_bind (res_bind (pr x) (load_node lib)) (\<lambda>n. Inr (Scalar k, n))) m"

definition map_from :: "yaml_lib \<Rightarrow> (string \<Rightarrow> 'a res) \<Rightarrow> string \<Rightarrow> (string \<times> 'a) list res" where
  "map_from lib rd v =
     res_bind (load_node lib v) (\<lambda>node.
     res_bind (read_entries lib rd node) (\<lambda>kvs.
       Inr (foldl (\<lambda>m (k, x). smap_insert k x m) [] kvs)))"

definition map_to :: "yaml_lib \<Rightarrow> ('a \<Rightarrow> string res) \<Rightarrow> (string \<times> 'a) list \<Rightarrow> string res" where
  "map_to lib pr m = res_bind (entry_nodes lib pr m) (\<lambda>kvs. Inr (Emit lib (Map kvs)))"

definition umap_from :: "yaml_lib \<Rightarrow> (string \<Rightarrow> 'a res) \<Rightarrow> string \<Rightarrow> (string \<rightharpoonup> 'a) res" where
  "umap_from lib rd v =
     res_bind (load_node lib v) (\<lambda>node.
     res_bind (read_entries lib rd node) (\<lambda>kvs.
       Inr (foldl (\<lambda>m (k, x). if m k = None then m(k \<mapsto> x) else m) Map.empty kvs)))"

definition umap_to ::
  "yaml_lib \<Rightarrow> ((string \<rightharpoonup> 'a) \<Rightarrow> string list) \<Rightarrow> ('a \<Rightarrow> string res) \<Rightarrow> (string \<rightharpoonup> 'a) \<Rightarrow> string res" where
  "umap_to lib order pr m =
     res_bind (entry_nodes lib pr (map (\<lambda>k. (k, the (m k))) (order m)))
       (\<lambda>kvs. Inr (Emit lib (Map kvs)))"

section \<open>The contract\<close>

lemma read_seq: "read_elems lib rd (Seq ns) = res_map (\<lambda>n. rd (Emit lib n)) ns"
proof -
  have "res_map (\<lambda>i. rd (node_text lib (node_index lib (Seq ns) i))) [0..<length ns]
      = res_map (\<lambda>i. rd (Emit lib (ns ! i))) [0..<length ns]"
  proof -
    have "res_map f js = res_map g js" if "\<forall>i\<in>set js. f i = g i" for f g :: "nat \<Rightarrow> 'a res" and js
      using that by (induction js) auto
    then show ?thesis by (simp add: node_text_def node_index_def)
  qed
  also have "\<dots> = res_map (\<lambda>n. rd (Emit lib n)) (map ((!) ns) [0..<length ns])"
    by (simp add: res_map_map)
  finally show ?thesis by (simp add: read_elems_def node_size_def map_nth)
qed

text \<open>A conversion pair gives back every value it is meant for, both directly and when the
  text has gone through a YAML node in between, as it does inside a container.\<close>

locale lexical_cast =
  fixes lib :: yaml_lib and pr :: "'a \<Rightarrow> string res" and rd :: "string \<Rightarrow> 'a res"
    and ok :: "'a \<Rightarrow> bool"
  assumes round_trip: "yaml_ok lib \<Longrightarrow> ok x \<Longrightarrow> res_bind (pr x) rd = Inr x"
    and node_round_trip: "yaml_ok lib \<Longrightarrow> ok x \<Longrightarrow>
      res_bind (res_bind (pr x) (load_node lib)) (\<lambda>n. rd (Emit lib n)) = Inr x"
begin

lemma elems:
  assumes "yaml_ok lib" and "list_all ok xs"
  obtains ns where "elem_nodes lib pr xs = Inr ns" "length ns = length xs"
    "res_map (\<lambda>n. rd (Emit lib n)) ns = Inr xs"
proof -
  have "list_all (\<lambda>x. \<exists>n. res_bind (pr x) (load_node lib) = Inr n \<and> rd (Emit lib n) = Inr x) xs"
    using node_round_trip assms by (fastforce simp: list_all_iff)
  from res_map_rel [OF this] that show thesis by (auto simp: elem_nodes_def)
qed

lemma entries:
  assumes "yaml_ok lib" and "list_all (\<lambda>(k, x). ok x) m"
  obtains kvs where "entry_nodes lib pr m = Inr kvs" "read_entries lib rd (Map kvs) = Inr m"
proof -
  have "list_all (\<lambda>p. \<exists>q. (case p of (k, x) \<Rightarrow>
            res_bind (res_bind (pr x) (load_node lib)) (\<lambda>n. Inr (Scalar k, n))) = Inr q \<and>
          (case q of (k, n) \<Rightarrow> res_bind (rd (Emit lib n)) (\<lambda>x. Inr (scalar_text k, x))) = Inr p) m"
    using node_round_trip assms by (fastforce simp: list_all_iff scalar_text_def)
  from res_map_rel [OF this] that show thesis by (auto simp: entry_nodes_def read_entries_def)
qed

end

text \<open>A conversion that prints a node satisfies the contract as soon as it reads it back.\<close>

lemma emitting_cast:
  assumes "\<And>x. yaml_ok lib \<Longrightarrow> ok x \<Longrightarrow> \<exists>n. pr x = Inr (Emit lib n) \<and> rd (Emit lib n) = Inr x"
  shows "lexical_cast lib pr rd ok"
  using assms by unfold_locales fastforce+

context lexical_cast
begin

lemma vector_cast: "lexical_cast lib (vector_to lib pr) (vector_from lib rd) (list_all ok)"
proof (rule emitting_cast)
  fix xs assume y: "yaml_ok lib" and "list_all ok xs"
  then obtain ns where "elem_nodes lib pr xs = Inr ns" "length ns = length xs"
    "res_map (\<lambda>n. rd (Emit lib n)) ns = Inr xs" by (rule elems)
  then show "\<exists>n. vector_to lib pr xs = Inr (Emit lib n) \<and> vector_from lib rd (Emit lib n) = Inr xs"
    using y by (cases "ns = []")
      (auto simp: vector_to_def vector_from_def read_seq read_elems_def [of _ _ Null] node_size_def)
qed

lemma list_cast: "lexical_cast lib (list_to lib pr) (list_from lib rd) (list_all ok)"
proof (rule emitting_cast)
  fix xs assume y: "yaml_ok lib" and "list_all ok xs"
  then obtain ns where "elem_nodes lib pr xs = Inr ns"
    "res_map (\<lambda>n. rd (Emit lib n)) ns = Inr xs" by (rule elems)
  then show "\<exists>n. list_to lib pr xs = Inr (Emit lib n) \<and> list_from lib rd (Emit lib n) = Inr xs"
    using y by (auto simp: list_to_def list_from_def read_seq)
qed

lemma uset_cast:
  "lexical_cast lib (uset_to lib order pr) (uset_from lib rd)
     (\<lambda>S. set (order S) = S \<and> list_all ok (order S))"
proof (rule emitting_cast)
  fix S assume y: "yaml_ok lib" and S: "set (order S) = S \<and> list_all ok (order S)"
  then obtain ns where "elem_nodes lib pr (order S) = Inr ns"
    "res_map (\<lambda>n. rd (Emit lib n)) ns = Inr (order S)" by (blast elim: elems)
  then show "\<exists>n. uset_to lib order pr S = Inr (Emit lib n) \<and> uset_from lib rd (Emit lib n) = Inr S"
    using y S by (auto simp: uset_to_def uset_from_def read_seq)
qed

lemma map_cast:
  "lexical_cast lib (map_to lib pr) (map_from lib rd) (\<lambda>m. smap_ok m \<and> list_all (\<lambda>(k, x). ok x) m)"
proof (rule emitting_cast)
  fix m :: "(string \<times> 'a) list"
  assume y: "yaml_ok lib" and m: "smap_ok m \<and> list_all (\<lambda>(k, x). ok x) m"
  then obtain kvs where "entry_nodes lib pr m = Inr kvs" "read_entries lib rd (Map kvs) = Inr m"
    by (blast elim: entries)
  then show "\<exists>n. map_to lib pr m = Inr (Emit lib n) \<and> map_from lib rd (Emit lib n) = Inr m"
    using y m smap_rebuild [of "[]" m] by (auto simp: map_to_def map_from_def)
qed

lemma umap_cast:
  "lexical_cast lib (umap_to lib order pr) (umap_from lib rd)
     (\<lambda>m. set (order m) = dom m \<and> list_all (\<lambda>k. ok (the (m k))) (order m))"
proof (rule emitting_cast)
  fix m assume y: "yaml_ok lib"
    and m: "set (order m) = dom m \<and> list_all (\<lambda>k. ok (the (m k))) (order m)"
  let ?kvs = "map (\<lambda>k. (k, the (m k))) (order m)"
  have fold: "foldl (\<lambda>m (k, x). if m k = None then m(k \<mapsto> x) else m) f (map (\<lambda>k. (k, the (m k))) ks)
      = (\<lambda>k. if k \<in> set ks \<and> f k = None then Some (the (m k)) else f k)" for f ks
    by (induction ks arbitrary: f) (auto simp: fun_eq_iff)
  have rebuilt: "foldl (\<lambda>m (k, x). if m k = None then m(k \<mapsto> x) else m) Map.empty ?kvs = m"
    using m by (auto simp: fold fun_eq_iff domIff)
  have "list_all (\<lambda>(k, x). ok x) ?kvs" using m by (simp add: list_all_iff)
  with y obtain kvs where "entry_nodes lib pr ?kvs = Inr kvs" "read_entries lib rd (Map kvs) = Inr ?kvs"
    by (rule entries)
  then show "\<exists>n. umap_to lib order pr m = Inr (Emit lib n) \<and> umap_from lib rd (Emit lib n) = Inr m"
    using y rebuilt by (auto simp: umap_to_def umap_from_def)
qed

end

text \<open>For a \<open>std::set\<close> the elements must also be ordered by the comparator.\<close>

locale set_cast = lexical_cast lib pr rd ok + strict_weak_order lt
  for lib :: yaml_lib and pr :: "'a \<Rightarrow> string res" and rd :: "string \<Rightarrow> 'a res"
    and ok :: "'a \<Rightarrow> bool" and lt :: "'a \<Rightarrow> 'a \<Rightarrow> bool"
begin

lemma insert_last: "sorted_wrt lt (xs @ [x]) \<Longrightarrow> fst (sset_insert lt x xs) = xs @ [x]"
  by (induction xs) (auto split: prod.splits dest: asym)

lemma rebuild: "sorted_wrt lt (s @ xs) \<Longrightarrow> foldl (\<lambda>s x. fst (sset_insert lt x s)) s xs = s @ xs"
proof (induction xs arbitrary: s)
  case (Cons x xs)
  have "sorted_wrt lt (s @ [x])" using Cons.prems by (auto simp: sorted_wrt_append)
  then show ?case using Cons.IH [of "s @ [x]"] Cons.prems by (simp add: insert_last)
qed simp

lemma set_cast:
  "lexical_cast lib (set_to lib pr) (set_from lib lt rd) (\<lambda>xs. sorted_wrt lt xs \<and> list_all ok xs)"
proof (rule emitting_cast)
  fix xs assume y: "yaml_ok lib" and xs: "sorted_wrt lt xs \<and> list_all ok xs"
  then obtain ns where "elem_nodes lib pr xs = Inr ns"
    "res_map (\<lambda>n. rd (Emit lib n)) ns = Inr xs" by (blast elim: elems)
  then show "\<exists>n. set_to lib pr xs = Inr (Emit lib n) \<and> set_from lib lt rd (Emit lib n) = Inr xs"
    using y xs rebuild [of "[]" xs] by (auto simp: set_to_def set_from_def read_seq)
qed

end

section \<open>The generic conversion\<close>

text \<open>The values \<open>boost::lexical_cast\<close> prints as a plain YAML scalar and reads back.\<close>

definition plain_value ::
  "yaml_lib \<Rightarrow> ('a \<Rightarrow> string res) \<Rightarrow> (string \<Rightarrow> 'a res) \<Rightarrow> 'a \<Rightarrow> bool" where
  "plain_value lib bto bfrom x \<longleftrightarrow>
     (case bto x of
        Inl _ \<Rightarrow> False
      | Inr t \<Rightarrow>
          (case bfrom t of Inl _ \<Rightarrow> False | Inr y \<Rightarrow> y = x)
          \<and> Load lib t = Some (Scalar t) \<and> Emit lib (Scalar t) = t)"

interpretation generic: lexical_cast lib "LexicalCast bto" "LexicalCast bfrom" "plain_value lib bto bfrom"
  for lib bto bfrom
  by unfold_locales
    (auto simp: plain_value_def LexicalCast_def load_node_def split: sum.splits)

interpretation generic_vector:
  lexical_cast lib "vector_to lib (LexicalCast bto)" "vector_from lib (LexicalCast bfrom)"
    "list_all (plain_value lib bto bfrom)"
  for lib bto bfrom
  by (rule generic.vector_cast)

interpretation map_of_vectors:
  lexical_cast lib "map_to lib (vector_to lib (LexicalCast bto))"
    "map_from lib (vector_from lib (LexicalCast bfrom))"
    "\<lambda>m. smap_ok m \<and> list_all (\<lambda>(k, x). list_all (plain_value lib bto bfrom) x) m"
  for lib bto bfrom
  by (rule generic_vector.map_cast)

interpretation generic_uset:
  lexical_cast lib "uset_to lib order (LexicalCast bto)" "uset_from lib (LexicalCast bfrom)"
    "\<lambda>S. set (order S) = S \<and> list_all (plain_value lib bto bfrom) (order S)"
  for lib order bto bfrom
  by (rule generic.uset_cast)

interpretation umap_of_lists:
  lexical_cast lib "umap_to lib order (list_to lib (LexicalCast bto))"
    "umap_from lib (list_from lib (LexicalCast bfrom))"
    "\<lambda>m. set (order m) = dom m
         \<and> list_all (\<lambda>k. list_all (plain_value lib bto bfrom) (the (m k))) (order m)"
  for lib order bto bfrom
  by (rule lexical_cast.umap_cast [OF generic.list_cast])

section \<open>Properties\<close>

text \<open>C33: The container conversions compose: a map of vectors of values, each of which prints
  as a plain scalar that reads back, is recovered from its YAML text, whatever the element
  type; only that the library loads back what it emits is assumed.\<close>

theorem nested_cast_round_trip:
  "yaml_ok lib \<Longrightarrow> smap_ok m \<Longrightarrow> list_all (\<lambda>(k, xs). list_all (plain_value lib bto bfrom) xs) m \<Longrightarrow>
     res_bind (map_to lib (vector_to lib (LexicalCast bto)) m)
       (map_from lib (vector_from lib (LexicalCast bfrom))) = Inr m"
  by (rule map_of_vectors.round_trip) simp_all

theorem nested_cast_round_trip_witness:
  "res_bind (map_to plain_lib (vector_to plain_lib (LexicalCast Inr)) [(''hosts'', [''a'', ''b'']), (''none'', [])])
     (map_from plain_lib (vector_from plain_lib (LexicalCast Inr)))
   = Inr [(''hosts'', [''a'', ''b'']), (''none'', [])]"
  by (rule nested_cast_round_trip [OF plain_ok])
    (simp_all add: smap_ok_def plain_value_def plain_lib_def top_load_def top_emit_def is_plain_def)

text \<open>The conversions of the unordered containers do not depend on the order in which
  they iterate: whatever order prints the elements, reading gives the same map of lists.\<close>

theorem unordered_order_irrelevant:
  "yaml_ok lib \<Longrightarrow> set (order m) = dom m \<Longrightarrow>
   list_all (\<lambda>k. list_all (plain_value lib bto bfrom) (the (m k))) (order m) \<Longrightarrow>
     res_bind (umap_to lib order (list_to lib (LexicalCast bto)) m)
       (umap_from lib (list_from lib (LexicalCast bfrom))) = Inr m"
  by (rule umap_of_lists.round_trip) simp_all

theorem unordered_order_irrelevant_witness:
  "res_bind (umap_to plain_lib (\<lambda>_. [''b'', ''a'']) (list_to plain_lib (LexicalCast Inr))
        [''a'' \<mapsto> [''x''], ''b'' \<mapsto> []])
     (umap_from plain_lib (list_from plain_lib (LexicalCast Inr)))
   = Inr [''a'' \<mapsto> [''x''], ''b'' \<mapsto> []]"
  by (rule unordered_order_irrelevant [OF plain_ok])
    (auto simp: plain_value_def plain_lib_def top_load_def top_emit_def is_plain_def)


end
