(* ===== verification/Config.thy ===== *)
theory Config
  imports Lexical_Cast
begin

text \<open>
  Configuration variables and their registry (\<open>config.h\<close>, \<open>config.cc\<close>).  A variable's type is a
  record of its name and conversions (the template parameters of \<open>ConfigVar\<close>), its listeners
  are functions that act on a state outside the configuration and may throw.  Variables are
  shared by pointer: the state holds them in a list, the registry maps names to positions.
  The messages the code logs on errors are left out.
  The lemmas relate the flattening of a YAML document to the paths in it, and state what
  loading a document does to every registered variable.
\<close>

section \<open>Variables\<close>

record 'v var_type =
  vt_name :: string
  vt_from :: "string \<Rightarrow> 'v res"
  vt_to :: "'v \<Rightarrow> string res"
  vt_eq :: "'v \<Rightarrow> 'v \<Rightarrow> bool"

text \<open>A listener gets the old and the new value and acts on a state of type \<open>'s\<close> outside the
  configuration; it may throw.  A listener that itself calls the configuration, to set another
  variable say, is not in the model.\<close>

type_synonym ('v, 's) listener = "'v \<Rightarrow> 'v \<Rightarrow> 's \<Rightarrow> fault option \<times> 's"

record ('v, 's) config_var =
  cv_name :: string
  cv_description :: string
  cv_type :: "'v var_type"
  cv_val :: 'v
  cv_cbs :: "(u64 \<times> ('v, 's) listener) list"

record ('v, 's) config =
  cf_vars :: "('v, 's) config_var list"
  cf_datas :: "(string \<times> addr) list"
  cf_fun_id :: "string \<Rightarrow> u64"
  cf_ext :: 's

definition tolower :: "char \<Rightarrow> char" where
  "tolower c = (let n = of_char c :: nat in if 65 \<le> n \<and> n \<le> 90 then char_of (n + 32) else c)"

definition ConfigVar_ctor ::
  "'v var_type \<Rightarrow> string \<Rightarrow> 'v \<Rightarrow> string \<Rightarrow> ('v, 's) config_var" where
  "ConfigVar_ctor ty name default_value description =
     \<lparr>cv_name = map tolower name, cv_description = description, cv_type = ty,
      cv_val = default_value, cv_cbs = []\<rparr>"

definition upd_var ::
  "addr \<Rightarrow> (('v, 's) config_var \<Rightarrow> ('v, 's) config_var) \<Rightarrow> ('v, 's) config \<Rightarrow> ('v, 's) config" where
  "upd_var a f c = c\<lparr>cf_vars := (cf_vars c)[a := f (cf_vars c ! a)]\<rparr>"

text \<open>\<open>toString\<close>: an exception's message is returned as the text.\<close>

definition toString :: "('v, 's) config_var \<Rightarrow> string res" where
  "toString v =
     (case vt_to (cv_type v) (cv_val v) of
        Inl (Throws what) \<Rightarrow> Inr what
      | r \<Rightarrow> r)"

text \<open>\<open>setValue\<close>: the listeners run in the order of their keys with the old and the new
  value; if one throws, the later ones do not run and the value stays.\<close>

fun run_listeners ::
  "(u64 \<times> ('v, 's) listener) list \<Rightarrow> 'v \<Rightarrow> 'v \<Rightarrow> 's \<Rightarrow> fault option \<times> 's" where
  "run_listeners [] old new s = (None, s)"
| "run_listeners ((_, cb) # cbs) old new s =
     (case cb old new s of
        (None, s') \<Rightarrow> run_listeners cbs old new s'
      | (Some f, s') \<Rightarrow> (Some f, s'))"

definition setValue :: "'v \<Rightarrow> addr \<Rightarrow> ('v, 's) config \<Rightarrow> fault option \<times> ('v, 's) config" where
  "setValue val a c =
     (let v = cf_vars c ! a in
      if vt_eq (cv_type v) val (cv_val v) then (None, c)
      else
        (case run_listeners (cv_cbs v) (cv_val v) val (cf_ext c) of
           (Some f, s) \<Rightarrow> (Some f, c\<lparr>cf_ext := s\<rparr>)
         | (None, s) \<Rightarrow> (None, upd_var a (\<lambda>v. v\<lparr>cv_val := val\<rparr>) (c\<lparr>cf_ext := s\<rparr>))))"

text \<open>The two parts of \<open>setValue\<close>, each under its own lock: the comparison and the listeners
  under the read lock, which several threads can hold at once, and the assignment under the
  write lock.  The first part tells whether the second follows.\<close>

definition setValue_notify :: "'v \<Rightarrow> addr \<Rightarrow> ('v, 's) config \<Rightarrow> bool res \<times> ('v, 's) config" where
  "setValue_notify val a c =
     (let v = cf_vars c ! a in
      if vt_eq (cv_type v) val (cv_val v) then (Inr False, c)
      else
        (case run_listeners (cv_cbs v) (cv_val v) val (cf_ext c) of
           (Some f, s) \<Rightarrow> (Inl f, c\<lparr>cf_ext := s\<rparr>)
         | (None, s) \<Rightarrow> (Inr True, c\<lparr>cf_ext := s\<rparr>)))"

definition setValue_store :: "'v \<Rightarrow> addr \<Rightarrow> ('v, 's) config \<Rightarrow> ('v, 's) config" where
  "setValue_store val a c = upd_var a (\<lambda>v. v\<lparr>cv_val := val\<rparr>) c"

lemma setValue_split:
  "setValue val a c =
     (case setValue_notify val a c of
        (Inl f, c1) \<Rightarrow> (Some f, c1)
      | (Inr stores, c1) \<Rightarrow> (None, if stores then setValue_store val a c1 else c1))"
  by (simp add: setValue_def setValue_notify_def setValue_store_def Let_def split: prod.split option.split)

definition getValue :: "addr \<Rightarrow> ('v, 's) config \<Rightarrow> 'v" where
  "getValue a c = cv_val (cf_vars c ! a)"

text \<open>\<open>fromString\<close>: exceptions of the conversion or of a listener are caught.\<close>

definition fromString :: "string \<Rightarrow> addr \<Rightarrow> ('v, 's) config \<Rightarrow> bool res \<times> ('v, 's) config" where
  "fromString text a c =
     (case vt_from (cv_type (cf_vars c ! a)) text of
        Inl (Throws _) \<Rightarrow> (Inr False, c)
      | Inl f \<Rightarrow> (Inl f, c)
      | Inr val \<Rightarrow>
          (case setValue val a c of
             (None, c') \<Rightarrow> (Inr True, c')
           | (Some (Throws _), c') \<Rightarrow> (Inr False, c')
           | (Some f, c') \<Rightarrow> (Inl f, c')))"

text \<open>The listeners; the counter of their keys is shared by the variables of one type.\<close>

definition addListener :: "('v, 's) listener \<Rightarrow> addr \<Rightarrow> ('v, 's) config \<Rightarrow> u64 \<times> ('v, 's) config" where
  "addListener cb a c =
     (let ty = vt_name (cv_type (cf_vars c ! a));
          key = cf_fun_id c ty + 1
      in (key, upd_var a (\<lambda>v. v\<lparr>cv_cbs := smap_put key cb (cv_cbs v)\<rparr>)
                 (c\<lparr>cf_fun_id := (cf_fun_id c)(ty := key)\<rparr>)))"

definition delListerer :: "u64 \<Rightarrow> addr \<Rightarrow> ('v, 's) config \<Rightarrow> ('v, 's) config" where
  "delListerer key a c = upd_var a (\<lambda>v. v\<lparr>cv_cbs := smap_erase key (cv_cbs v)\<rparr>) c"

definition getListener :: "u64 \<Rightarrow> addr \<Rightarrow> ('v, 's) config \<Rightarrow> ('v, 's) listener option" where
  "getListener key a c = map_of (cv_cbs (cf_vars c ! a)) key"

definition clearListener :: "addr \<Rightarrow> ('v, 's) config \<Rightarrow> ('v, 's) config" where
  "clearListener a c = upd_var a (\<lambda>v. v\<lparr>cv_cbs := []\<rparr>) c"

section \<open>The registry\<close>

definition name_char :: "char \<Rightarrow> bool" where
  "name_char c \<longleftrightarrow> c \<in> set ''abcdefghijklmnopqrstuvwxyz._0123456789''"

definition LookupBase :: "string \<Rightarrow> ('v, 's) config \<Rightarrow> addr option" where
  "LookupBase name c = map_of (cf_datas c) name"

text \<open>\<open>dynamic_pointer_cast<ConfigVar<T>>\<close>: null unless the variable has the type.\<close>

definition pointer_cast :: "'v var_type \<Rightarrow> addr \<Rightarrow> ('v, 's) config \<Rightarrow> addr option" where
  "pointer_cast ty a c =
     (if vt_name (cv_type (cf_vars c ! a)) = vt_name ty then Some a else None)"

definition Lookup_or_create ::
  "'v var_type \<Rightarrow> string \<Rightarrow> 'v \<Rightarrow> string \<Rightarrow> ('v, 's) config \<Rightarrow> addr option res \<times> ('v, 's) config" where
  "Lookup_or_create ty name default_value description c =
     (case map_of (cf_datas c) name of
        Some a \<Rightarrow> (Inr (pointer_cast ty a c), c)
      | None \<Rightarrow>
          if \<not> list_all name_char name then (Inl (Throws name), c)
          else
            (let a = length (cf_vars c);
                 v = ConfigVar_ctor ty name default_value description
             in (Inr (Some a),
                 c\<lparr>cf_vars := cf_vars c @ [v], cf_datas := smap_put name a (cf_datas c)\<rparr>)))"

definition Lookup :: "'v var_type \<Rightarrow> string \<Rightarrow> ('v, 's) config \<Rightarrow> addr option" where
  "Lookup ty name c =
     (case map_of (cf_datas c) name of None \<Rightarrow> None | Some a \<Rightarrow> pointer_cast ty a c)"

text \<open>\<open>Visit\<close>: the callback sees the variables in the order of their names.\<close>

definition Visit :: "(addr \<Rightarrow> ('v, 's) config \<Rightarrow> ('v, 's) config) \<Rightarrow> ('v, 's) config \<Rightarrow> ('v, 's) config" where
  "Visit cb c = foldl (\<lambda>c (_, a). cb a c) c (cf_datas c)"

section \<open>Loading a document\<close>

definition join :: "string \<Rightarrow> string \<Rightarrow> string" where
  "join prefix key = (if prefix = [] then key else prefix @ ''.'' @ key)"

fun ListAllMember :: "string \<Rightarrow> yaml \<Rightarrow> (string \<times> yaml) list" where
  "ListAllMember prefix node =
     (if \<not> list_all name_char prefix then []
      else (prefix, node) #
        (case node of
           Map kvs \<Rightarrow> concat (map (\<lambda>(k, n). ListAllMember (join prefix (scalar_text k)) n) kvs)
         | _ \<Rightarrow> []))"

declare ListAllMember.simps [simp del]

text \<open>The text a node is handed to \<open>fromString\<close> as.\<close>

definition member_text :: "yaml_lib \<Rightarrow> yaml \<Rightarrow> string" where
  "member_text lib node = (case node of Scalar s \<Rightarrow> s | _ \<Rightarrow> Emit lib node)"

definition load_member ::
  "yaml_lib \<Rightarrow> string \<times> yaml \<Rightarrow> ('v, 's) config \<Rightarrow> fault option \<times> ('v, 's) config" where
  "load_member lib i c =
     (let key = fst i in
      if key = [] then (None, c)
      else
        (case LookupBase (map tolower key) c of
           None \<Rightarrow> (None, c)
         | Some a \<Rightarrow>
             (case fromString (member_text lib (snd i)) a c of
                (Inl f, c') \<Rightarrow> (Some f, c')
              | (Inr _, c') \<Rightarrow> (None, c'))))"

fun load_members ::
  "yaml_lib \<Rightarrow> (string \<times> yaml) list \<Rightarrow> ('v, 's) config \<Rightarrow> fault option \<times> ('v, 's) config" where
  "load_members lib [] c = (None, c)"
| "load_members lib (i # js) c =
     (case load_member lib i c of
        (None, c') \<Rightarrow> load_members lib js c'
      | (Some f, c') \<Rightarrow> (Some f, c'))"

definition LoadFromYaml :: "yaml_lib \<Rightarrow> yaml \<Rightarrow> ('v, 's) config \<Rightarrow> fault option \<times> ('v, 's) config" where
  "LoadFromYaml lib root c = load_members lib (ListAllMember [] root) c"

section \<open>The flattened document\<close>

text \<open>\<open>reach n ks m\<close>: following the keys \<open>ks\<close> from the node \<open>n\<close> leads to the node \<open>m\<close>.\<close>

inductive reach :: "yaml \<Rightarrow> string list \<Rightarrow> yaml \<Rightarrow> bool" where
  reach_here: "reach n [] n"
| reach_below: "(k, n) \<in> set kvs \<Longrightarrow> reach n ks m \<Longrightarrow> reach (Map kvs) (scalar_text k # ks) m"

inductive_simps reach_Nil [simp]: "reach n [] m"
inductive_simps reach_Cons [simp]: "reach n (k # ks) m"

lemma join_chars: "set prefix \<subseteq> set (foldl join prefix ks)"
proof (induction ks arbitrary: prefix)
  case (Cons k ks)
  have "set prefix \<subseteq> set (join prefix k)" by (auto simp: join_def)
  then show ?case using Cons.IH [of "join prefix k"] by simp
qed simp

lemma valid_prefix:
  "list_all name_char (foldl join prefix ks) \<Longrightarrow> list_all name_char prefix"
  using join_chars [of prefix ks] by (auto simp: list_all_iff)

lemma reach_Map_iff:
  assumes "list_all name_char prefix"
  shows "(\<exists>ks. reach (Map kvs) ks m \<and> p = foldl join prefix ks \<and> list_all name_char p) \<longleftrightarrow>
      m = Map kvs \<and> p = prefix \<or>
      (\<exists>(k, n)\<in>set kvs. \<exists>ks. reach n ks m
         \<and> p = foldl join (join prefix (scalar_text k)) ks \<and> list_all name_char p)"
    (is "?l \<longleftrightarrow> ?r")
proof
  assume ?l
  then obtain ks where "reach (Map kvs) ks m" "p = foldl join prefix ks" "list_all name_char p" by blast
  then show ?r by (cases ks) auto
next
  assume ?r
  then consider "m = Map kvs" "p = prefix"
    | k n ks where "(k, n) \<in> set kvs" "reach n ks m"
        "p = foldl join (join prefix (scalar_text k)) ks" "list_all name_char p" by blast
  then show ?l
  proof cases
    case 1
    then show ?thesis using assms by (intro exI [of _ "[]"]) simp
  next
    case 2
    then show ?thesis by (intro exI [of _ "scalar_text k # ks"]) auto
  qed
qed

lemma ListAllMember_iff:
  "(p, m) \<in> set (ListAllMember prefix node) \<longleftrightarrow>
     (\<exists>ks. reach node ks m \<and> p = foldl join prefix ks \<and> list_all name_char p)"
proof (induction prefix node rule: ListAllMember.induct)
  case (1 prefix node)
  show ?case
  proof (cases "list_all name_char prefix")
    case False
    then show ?thesis using valid_prefix by (subst ListAllMember.simps) auto
  next
    case True
    show ?thesis
    proof (cases "\<exists>kvs. node = Map kvs")
      case False
      then have "reach node ks m \<longleftrightarrow> ks = [] \<and> m = node" for ks
        by (cases ks) auto
      then show ?thesis
        using True False by (subst ListAllMember.simps) (auto split: yaml.split)
    next
      case M: True
      then obtain kvs where node: "node = Map kvs" by blast
      have IH: "(p, m) \<in> set (ListAllMember (join prefix (scalar_text k)) n) \<longleftrightarrow>
          (\<exists>ks. reach n ks m \<and> p = foldl join (join prefix (scalar_text k)) ks \<and> list_all name_char p)"
        if "(k, n) \<in> set kvs" for k n
        using "1.IH" True node that by auto
      have "(\<exists>ks. reach node ks m \<and> p = foldl join prefix ks \<and> list_all name_char p) \<longleftrightarrow>
          m = node \<and> p = prefix \<or>
          (\<exists>(k, n)\<in>set kvs. \<exists>ks. reach n ks m
             \<and> p = foldl join (join prefix (scalar_text k)) ks \<and> list_all name_char p)"
        unfolding node using True by (rule reach_Map_iff)
      moreover have "(p, m) \<in> set (ListAllMember prefix node) \<longleftrightarrow>
          m = node \<and> p = prefix \<or>
          (\<exists>(k, n)\<in>set kvs. (p, m) \<in> set (ListAllMember (join prefix (scalar_text k)) n))"
        using True node by (subst ListAllMember.simps) auto
      moreover have "(\<exists>(k, n)\<in>set kvs. (p, m) \<in> set (ListAllMember (join prefix (scalar_text k)) n)) \<longleftrightarrow>
          (\<exists>(k, n)\<in>set kvs. \<exists>ks. reach n ks m
             \<and> p = foldl join (join prefix (scalar_text k)) ks \<and> list_all name_char p)"
        using IH by (intro bex_cong) auto
      ultimately show ?thesis by simp
    qed
  qed
qed

lemma lower_name: "list_all name_char p \<Longrightarrow> map tolower p = p"
proof (induction p)
  case (Cons c p)
  then show ?case by (auto simp: name_char_def tolower_def)
qed simp

lemma member_names: "(p, m) \<in> set (ListAllMember prefix node) \<Longrightarrow> list_all name_char p"
  by (auto simp: ListAllMember_iff)

section \<open>Invariant of the registry\<close>

definition config_inv :: "('v, 's) config \<Rightarrow> bool" where
  "config_inv c \<longleftrightarrow>
     smap_ok (cf_datas c)
     \<and> list_all (\<lambda>(n, a). a < length (cf_vars c) \<and> cv_name (cf_vars c ! a) = n
                          \<and> list_all name_char n) (cf_datas c)
     \<and> list_all (\<lambda>v. smap_ok (cv_cbs v)) (cf_vars c)"

text \<open>Updates that keep the registry and the names and types of the variables.\<close>

definition same_shape :: "('v, 's) config \<Rightarrow> ('v, 's) config \<Rightarrow> bool" where
  "same_shape c c' \<longleftrightarrow>
     cf_datas c' = cf_datas c \<and> length (cf_vars c') = length (cf_vars c)
     \<and> (\<forall>a < length (cf_vars c). cv_name (cf_vars c' ! a) = cv_name (cf_vars c ! a)
          \<and> cv_type (cf_vars c' ! a) = cv_type (cf_vars c ! a)
          \<and> cv_cbs (cf_vars c' ! a) = cv_cbs (cf_vars c ! a))"

lemma same_shape_refl [simp]: "same_shape c c"
  by (simp add: same_shape_def)

lemma same_shape_trans: "same_shape c c' \<Longrightarrow> same_shape c' c'' \<Longrightarrow> same_shape c c''"
  by (auto simp: same_shape_def)

lemma same_shape_inv: "config_inv c \<Longrightarrow> same_shape c c' \<Longrightarrow> config_inv c'"
  by (auto simp: config_inv_def same_shape_def list_all_length)

lemma upd_var_sel [simp]:
  "cf_datas (upd_var a f c) = cf_datas c" "cf_fun_id (upd_var a f c) = cf_fun_id c"
  "cf_ext (upd_var a f c) = cf_ext c"
  "cf_vars (upd_var a f c) = (cf_vars c)[a := f (cf_vars c ! a)]"
  by (simp_all add: upd_var_def)

lemma setValue_shape: "setValue val a c = (r, c') \<Longrightarrow> same_shape c c'"
  by (auto simp: setValue_def same_shape_def Let_def nth_list_update_if
      split: if_splits prod.splits option.splits)

lemma fromString_shape: "fromString t a c = (r, c') \<Longrightarrow> same_shape c c'"
  by (auto simp: fromString_def split: sum.splits fault.splits prod.splits option.splits
      dest: setValue_shape)

lemma load_member_shape: "load_member lib i c = (r, c') \<Longrightarrow> same_shape c c'"
  by (auto simp: load_member_def Let_def split: if_splits sum.splits prod.splits option.splits
      dest: fromString_shape)

lemma load_members_shape: "load_members lib js c = (r, c') \<Longrightarrow> same_shape c c'"
proof (induction js arbitrary: c)
  case (Cons i js)
  then show ?case
    by (auto split: prod.splits option.splits dest!: load_member_shape intro: same_shape_trans)
qed simp

lemma registered:
  "config_inv c \<Longrightarrow> map_of (cf_datas c) name = Some a \<Longrightarrow>
   a < length (cf_vars c) \<and> cv_name (cf_vars c ! a) = name \<and> list_all name_char name"
  by (auto simp: config_inv_def list_all_iff dest!: map_of_SomeD)

lemma upd_var_inv:
  assumes "config_inv c" and "\<And>v. smap_ok (cv_cbs v) \<Longrightarrow> smap_ok (cv_cbs (f v)) \<and> cv_name (f v) = cv_name v"
  shows "config_inv (upd_var a f c)"
  using assms by (auto simp: config_inv_def list_all_length nth_list_update_if list_all_iff [of _ "cf_datas c"])

lemma Lookup_or_create_inv:
  assumes inv: "config_inv c" and l: "Lookup_or_create ty name d descr c = (r, c')"
  shows "config_inv c'"
proof (cases "map_of (cf_datas c) name = None \<and> list_all name_char name")
  case False
  then have "c' = c" using l by (auto simp: Lookup_or_create_def split: option.splits if_splits)
  then show ?thesis using inv by simp
next
  case True
  then have c': "cf_vars c' = cf_vars c @ [ConfigVar_ctor ty name d descr]"
      "cf_datas c' = smap_put name (length (cf_vars c)) (cf_datas c)"
    using l by (auto simp: Lookup_or_create_def Let_def)
  show ?thesis
    using inv True
    by (fastforce simp: config_inv_def c' list_all_iff smap_put_mem nth_append ConfigVar_ctor_def
        lower_name [unfolded list_all_iff])
qed


text \<open>The states the operations lead to from the empty registry.\<close>

inductive config_reachable :: "('v, 's) config \<Rightarrow> bool" where
  c_init: "config_reachable \<lparr>cf_vars = [], cf_datas = [], cf_fun_id = (\<lambda>_. 0), cf_ext = s\<rparr>"
| c_lookup:
    "config_reachable c \<Longrightarrow> Lookup_or_create ty name d descr c = (r, c') \<Longrightarrow> config_reachable c'"
| c_setValue: "config_reachable c \<Longrightarrow> setValue val a c = (f, c') \<Longrightarrow> config_reachable c'"
| c_fromString: "config_reachable c \<Longrightarrow> fromString t a c = (b, c') \<Longrightarrow> config_reachable c'"
| c_addListener: "config_reachable c \<Longrightarrow> addListener cb a c = (key, c') \<Longrightarrow> config_reachable c'"
| c_delListerer: "config_reachable c \<Longrightarrow> config_reachable (delListerer key a c)"
| c_clearListener: "config_reachable c \<Longrightarrow> config_reachable (clearListener a c)"
| c_load: "config_reachable c \<Longrightarrow> LoadFromYaml lib root c = (f, c') \<Longrightarrow> config_reachable c'"

lemma addListener_inv: "config_inv c \<Longrightarrow> addListener cb a c = (key, c') \<Longrightarrow> config_inv c'"
proof -
  assume inv: "config_inv c" and a: "addListener cb a c = (key, c')"
  let ?c = "c\<lparr>cf_fun_id := (cf_fun_id c)(vt_name (cv_type (cf_vars c ! a)) := key)\<rparr>"
  have "config_inv ?c" using inv by (simp add: config_inv_def)
  then have "config_inv (upd_var a (\<lambda>v. v\<lparr>cv_cbs := smap_put key cb (cv_cbs v)\<rparr>) ?c)"
    by (rule upd_var_inv) simp
  then show ?thesis using a by (auto simp: addListener_def Let_def)
qed

lemma config_reachable_inv: "config_reachable c \<Longrightarrow> config_inv c"
proof (induction rule: config_reachable.induct)
  case (c_init s)
  then show ?case by (simp add: config_inv_def)
next
  case (c_delListerer c key a)
  then show ?case unfolding delListerer_def by (rule_tac upd_var_inv) simp_all
next
  case (c_clearListener c a)
  then show ?case unfolding clearListener_def by (rule_tac upd_var_inv) simp_all
qed (auto simp: LoadFromYaml_def intro: Lookup_or_create_inv addListener_inv same_shape_inv
  dest: setValue_shape fromString_shape load_members_shape)

section \<open>Properties\<close>

text \<open>C34: \<open>ListAllMember\<close> computes the reachable part of a document: a node is collected under a
  name exactly if some path of keys leads to it from the root, the name is the path's keys
  joined by dots, and the whole name consists of lower-case letters, digits, dots and
  underscores.  In particular nothing below a key with a capital letter is ever loaded.\<close>

theorem ListAllMember_paths:
  "(p, m) \<in> set (ListAllMember [] root) \<longleftrightarrow>
     (\<exists>ks. reach root ks m \<and> p = foldl join [] ks \<and> list_all name_char p)"
  by (rule ListAllMember_iff)

text \<open>C35: The registry is typed: a successful lookup gives a registered variable of the requested
  type, whose name is the key, and from then on plain and typed lookups of that name give
  the same variable, while a lookup with another type gives null and changes nothing.\<close>

theorem lookup_typed:
  "config_reachable c \<Longrightarrow> Lookup_or_create ty name d descr c = (Inr (Some a), c') \<Longrightarrow>
     a < length (cf_vars c') \<and> cv_name (cf_vars c' ! a) = name
     \<and> vt_name (cv_type (cf_vars c' ! a)) = vt_name ty
     \<and> LookupBase name c' = Some a \<and> Lookup ty name c' = Some a
     \<and> (\<forall>ty' d'. vt_name ty' \<noteq> vt_name ty \<longrightarrow>
          Lookup_or_create ty' name d' descr c' = (Inr None, c') \<and> Lookup ty' name c' = None)"
proof -
  assume r: "config_reachable c" and l: "Lookup_or_create ty name d descr c = (Inr (Some a), c')"
  have inv: "config_inv c" using r by (rule config_reachable_inv)
  then have inv': "config_inv c'" using l by (rule Lookup_or_create_inv)
  have m: "map_of (cf_datas c') name = Some a \<and> vt_name (cv_type (cf_vars c' ! a)) = vt_name ty"
  proof (cases "map_of (cf_datas c) name")
    case None
    have "smap_ok (cf_datas c)" using inv by (simp add: config_inv_def)
    then show ?thesis using l None
      by (auto simp: Lookup_or_create_def Let_def ConfigVar_ctor_def split: if_splits)
  qed (use l in \<open>auto simp: Lookup_or_create_def pointer_cast_def split: if_splits\<close>)
  then show ?thesis
    using registered [OF inv'] by (auto simp: LookupBase_def Lookup_def Lookup_or_create_def pointer_cast_def)
qed

definition text_type :: "string var_type" where
  "text_type = \<lparr>vt_name = ''string'', vt_from = Inr, vt_to = Inr, vt_eq = (=)\<rparr>"

definition empty_config :: "('v, unit) config" where
  "empty_config = \<lparr>cf_vars = [], cf_datas = [], cf_fun_id = (\<lambda>_. 0), cf_ext = ()\<rparr>"

definition one_var :: "(string, unit) config" where
  "one_var = snd (Lookup_or_create text_type ''system.name'' ''x'' [] empty_config)"

lemma one_var_lookup:
  "Lookup_or_create text_type ''system.name'' ''x'' [] empty_config = (Inr (Some 0), one_var)"
  by (simp add: one_var_def Lookup_or_create_def empty_config_def Let_def name_char_def)

lemma empty_reachable: "config_reachable empty_config"
  unfolding empty_config_def by (rule c_init)

theorem lookup_typed_witness: "Lookup text_type ''system.name'' one_var = Some 0"
  using lookup_typed [OF empty_reachable one_var_lookup] by blast

subsection \<open>Loading\<close>

text \<open>What the nodes collected under a variable's name make of its value, one after another:
  a text that does not convert, or converts to an equal value, leaves it as it is.\<close>

definition assign :: "'v var_type \<Rightarrow> string \<Rightarrow> 'v \<Rightarrow> 'v" where
  "assign ty t v =
     (case vt_from ty t of Inl _ \<Rightarrow> v | Inr v' \<Rightarrow> if vt_eq ty v' v then v else v')"

definition texts_for :: "yaml_lib \<Rightarrow> string \<Rightarrow> (string \<times> yaml) list \<Rightarrow> string list" where
  "texts_for lib name js = map (\<lambda>(_, n). member_text lib n) (filter (\<lambda>(p, _). p = name) js)"

text \<open>Variables whose conversion fails only by an exception and whose listeners do not throw.\<close>

definition tame :: "('v, 's) config \<Rightarrow> bool" where
  "tame c \<longleftrightarrow>
     (\<forall>v \<in> set (cf_vars c).
        (\<forall>t. case vt_from (cv_type v) t of Inl (Throws _) \<Rightarrow> True | Inl _ \<Rightarrow> False | Inr _ \<Rightarrow> True)
        \<and> (\<forall>(_, cb) \<in> set (cv_cbs v). \<forall>old new s. fst (cb old new s) = None))"

lemma run_tame:
  "\<forall>(_, cb) \<in> set cbs. \<forall>old new s. fst (cb old new s) = None \<Longrightarrow>
   fst (run_listeners cbs old new s) = None"
proof (induction cbs arbitrary: s)
  case (Cons kcb cbs)
  obtain k cb where kcb: "kcb = (k, cb)" by (cases kcb)
  have "fst (cb old new s) = None" using Cons.prems kcb by simp
  then obtain s' where "cb old new s = (None, s')" by (cases "cb old new s") auto
  then show ?case using Cons kcb by simp
qed simp

lemma tame_shape: "tame c \<Longrightarrow> same_shape c c' \<Longrightarrow> tame c'"
  by (auto simp: tame_def same_shape_def all_set_conv_all_nth)

lemma setValue_tame:
  assumes t: "tame c" and a: "a < length (cf_vars c)"
  obtains c' where "setValue val a c = (None, c')"
    "\<And>b. cv_val (cf_vars c' ! b) =
        (if b = a \<and> \<not> vt_eq (cv_type (cf_vars c ! a)) val (cv_val (cf_vars c ! a)) then val
         else cv_val (cf_vars c ! b))"
proof (cases "vt_eq (cv_type (cf_vars c ! a)) val (cv_val (cf_vars c ! a))")
  case True
  then show thesis using that [of c] by (simp add: setValue_def)
next
  case False
  let ?v = "cf_vars c ! a"
  have "?v \<in> set (cf_vars c)" using a by simp
  then have "\<forall>(_, cb) \<in> set (cv_cbs ?v). \<forall>old new s. fst (cb old new s) = None"
    using t unfolding tame_def by blast
  then have "fst (run_listeners (cv_cbs ?v) (cv_val ?v) val (cf_ext c)) = None" by (rule run_tame)
  then obtain s where "run_listeners (cv_cbs ?v) (cv_val ?v) val (cf_ext c) = (None, s)"
    by (cases "run_listeners (cv_cbs ?v) (cv_val ?v) val (cf_ext c)") auto
  then show thesis using that False a by (simp add: setValue_def nth_list_update_if)
qed

lemma fromString_tame:
  assumes t: "tame c" and a: "a < length (cf_vars c)"
  obtains b c' where "fromString txt a c = (Inr b, c')"
    "\<And>b. cv_val (cf_vars c' ! b) =
        (if b = a then assign (cv_type (cf_vars c ! a)) txt (cv_val (cf_vars c ! a))
         else cv_val (cf_vars c ! b))"
proof (cases "vt_from (cv_type (cf_vars c ! a)) txt")
  case (Inl f)
  have "cf_vars c ! a \<in> set (cf_vars c)" using a by simp
  then have "\<forall>u. case vt_from (cv_type (cf_vars c ! a)) u of
      Inl (Throws _) \<Rightarrow> True | Inl _ \<Rightarrow> False | Inr _ \<Rightarrow> True"
    using t unfolding tame_def by blast
  note tx = spec [OF this, of "txt"]
  from tx obtain w where "f = Throws w" using Inl by (cases f) auto
  then show thesis using that [of False c] Inl by (simp add: fromString_def assign_def)
next
  case (Inr val)
  obtain c' where "setValue val a c = (None, c')"
    "\<And>b. cv_val (cf_vars c' ! b) =
        (if b = a \<and> \<not> vt_eq (cv_type (cf_vars c ! a)) val (cv_val (cf_vars c ! a)) then val
         else cv_val (cf_vars c ! b))"
    using setValue_tame [OF t a] by blast
  then show thesis using that [of True c'] Inr by (auto simp: fromString_def assign_def)
qed

lemma load_member_tame:
  assumes inv: "config_inv c" and t: "tame c" and name: "map_of (cf_datas c) name = Some a" "name \<noteq> []"
    and p: "list_all name_char p"
  shows "\<exists>c1. load_member lib (p, n) c = (None, c1) \<and> cv_val (cf_vars c1 ! a) =
      (if p = name then assign (cv_type (cf_vars c ! a)) (member_text lib n) (cv_val (cf_vars c ! a))
       else cv_val (cf_vars c ! a))"
proof (cases "p = [] \<or> map_of (cf_datas c) p = None")
  case True
  then show ?thesis
    using name lower_name [OF p] by (intro exI [of _ c]) (auto simp: load_member_def LookupBase_def)
next
  case False
  then obtain b where b: "map_of (cf_datas c) p = Some b" "p \<noteq> []" by auto
  have an: "cv_name (cf_vars c ! a) = name" and bn: "b < length (cf_vars c)" "cv_name (cf_vars c ! b) = p"
    using registered [OF inv] name(1) b(1) by blast+
  have ba: "b = a \<longleftrightarrow> p = name"
  proof
    show "p = name" if "b = a" using that an bn(2) by simp
    show "b = a" if "p = name" using that b(1) name(1) by simp
  qed
  obtain r c1 where "fromString (member_text lib n) b c = (Inr r, c1)"
    "\<And>x. cv_val (cf_vars c1 ! x) =
      (if x = b then assign (cv_type (cf_vars c ! b)) (member_text lib n) (cv_val (cf_vars c ! b))
       else cv_val (cf_vars c ! x))"
    using fromString_tame [OF t bn(1)] by blast
  then show ?thesis using b lower_name [OF p] ba by (auto simp: load_member_def LookupBase_def)
qed

lemma load_members_tame:
  assumes "config_inv c" and "tame c" and "map_of (cf_datas c) name = Some a" and "name \<noteq> []"
    and "\<forall>(p, _) \<in> set js. list_all name_char p"
  shows "\<exists>c'. load_members lib js c = (None, c') \<and>
    cv_val (cf_vars c' ! a) =
      foldl (\<lambda>v t. assign (cv_type (cf_vars c ! a)) t v) (cv_val (cf_vars c ! a)) (texts_for lib name js)"
  using assms
proof (induction js arbitrary: c)
  case (Cons j js)
  obtain p n where j: "j = (p, n)" by (cases j)
  have "list_all name_char p" using Cons.prems(5) j by simp
  from load_member_tame [OF Cons.prems(1-4) this, of lib n]
  obtain c1 where c1: "load_member lib j c = (None, c1)" "cv_val (cf_vars c1 ! a) =
      (if p = name then assign (cv_type (cf_vars c ! a)) (member_text lib n) (cv_val (cf_vars c ! a))
       else cv_val (cf_vars c ! a))" unfolding j by blast
  have sh: "same_shape c c1" using c1(1) by (rule load_member_shape)
  have "a < length (cf_vars c)" using registered [OF Cons.prems(1,3)] by blast
  then have "map_of (cf_datas c1) name = Some a" "cv_type (cf_vars c1 ! a) = cv_type (cf_vars c ! a)"
    using Cons.prems(3) sh by (simp_all add: same_shape_def)
  then obtain c' where "load_members lib js c1 = (None, c')"
    "cv_val (cf_vars c' ! a) = foldl (\<lambda>v t. assign (cv_type (cf_vars c ! a)) t v)
       (cv_val (cf_vars c1 ! a)) (texts_for lib name js)"
    using Cons.IH [OF same_shape_inv [OF Cons.prems(1) sh] tame_shape [OF Cons.prems(2) sh]]
      Cons.prems(4,5) by auto
  then show ?case using c1 j by (auto simp: texts_for_def)
qed (simp add: texts_for_def)

text \<open>C36: Loading a document returns, and afterwards every registered variable with a name holds
  what the nodes collected under exactly its name make of its old value, in document order;
  other nodes have no effect on it, texts that do not convert are skipped.  This is for conversions
  that fail by exceptions only, and for listeners that do not throw and do not call the
  configuration: what they do to the state outside it is free, but they set no variable.\<close>

theorem LoadFromYaml_assigns:
  "config_reachable c \<Longrightarrow> tame c \<Longrightarrow> LookupBase name c = Some a \<Longrightarrow> name \<noteq> [] \<Longrightarrow>
     \<exists>c'. LoadFromYaml lib root c = (None, c') \<and>
       getValue a c' = foldl (\<lambda>v t. assign (cv_type (cf_vars c ! a)) t v) (getValue a c)
         (texts_for lib name (ListAllMember [] root))"
  using load_members_tame [OF config_reachable_inv, of c name a "ListAllMember [] root" lib]
  by (auto simp: LoadFromYaml_def LookupBase_def getValue_def dest: member_names)

lemma one_var_eq:
  "one_var = \<lparr>cf_vars = [ConfigVar_ctor text_type ''system.name'' ''x'' []],
              cf_datas = [(''system.name'', 0)], cf_fun_id = (\<lambda>_. 0), cf_ext = ()\<rparr>"
  by (simp add: one_var_def Lookup_or_create_def empty_config_def Let_def name_char_def)

theorem LoadFromYaml_assigns_witness:
  "\<exists>c'. LoadFromYaml plain_lib
      (Map [(Scalar ''system'', Map [(Scalar ''name'', Scalar ''web''), (Scalar ''Name'', Scalar ''W'')])])
      one_var = (None, c') \<and> getValue 0 c' = ''web''"
proof -
  have r: "config_reachable one_var"
    using empty_reachable one_var_lookup by (rule c_lookup)
  have t: "tame one_var" by (simp add: tame_def one_var_eq ConfigVar_ctor_def text_type_def)
  have l: "LookupBase ''system.name'' one_var = Some 0" by (simp add: LookupBase_def one_var_eq)
  show ?thesis
    using LoadFromYaml_assigns [OF r t l, of plain_lib "Map [(Scalar ''system'', Map [(Scalar ''name'', Scalar ''web''), (Scalar ''Name'', Scalar ''W'')])]"]
    by (simp add: ListAllMember.simps name_char_def join_def scalar_text_def texts_for_def assign_def
        member_text_def one_var_eq ConfigVar_ctor_def text_type_def getValue_def)
qed

text \<open>A listener that throws vetoes the change: the value stays, the listeners after it do not
  run, and \<open>fromString\<close> reports the failure as an unsuccessful conversion.\<close>

theorem throwing_listener_vetoes:
  "a < length (cf_vars c) \<Longrightarrow> cv_cbs (cf_vars c ! a) = (k, cb) # cbs \<Longrightarrow>
   cb (getValue a c) val (cf_ext c) = (Some (Throws what), s) \<Longrightarrow>
   \<not> vt_eq (cv_type (cf_vars c ! a)) val (getValue a c) \<Longrightarrow>
   vt_from (cv_type (cf_vars c ! a)) txt = Inr val \<Longrightarrow>
     fromString txt a c = (Inr False, c\<lparr>cf_ext := s\<rparr>)"
  by (simp add: fromString_def setValue_def getValue_def)

theorem throwing_listener_vetoes_witness:
  "fromString ''y'' 0 (snd (addListener (\<lambda>_ _ s. (Some (Throws ''no''), s)) 0 one_var))
   = (Inr False, snd (addListener (\<lambda>_ _ s. (Some (Throws ''no''), s)) 0 one_var))"
proof -
  let ?c = "snd (addListener (\<lambda>_ _ s. (Some (Throws ''no''), s)) 0 one_var)"
  have "fromString ''y'' 0 ?c = (Inr False, ?c\<lparr>cf_ext := ()\<rparr>)"
    by (rule throwing_listener_vetoes [where k = 1 and cbs = "[]" and val = "''y''" and what = "''no''"])
      (simp_all add: addListener_def Let_def one_var_eq ConfigVar_ctor_def text_type_def getValue_def)
  then show ?thesis by simp
qed


end
