(* ===== verification/Log_Config.thy ===== *)
theory Log_Config
  imports Logger Config
begin

text \<open>
  Configuration of the loggers (\<open>log.cc\<close>): the definitions read from YAML, their conversions and
  comparisons, the listener that applies a changed set of definitions to the loggers, and the
  functions that write loggers back as YAML.  The definitions' conversions and order satisfy
  the contracts of \<open>Lexical_Cast\<close> and \<open>Std_Set\<close>, so the conversion of a \<open>std::set\<close> of them does.
  The console messages of the conversions are left out.
\<close>

section \<open>Definitions\<close>

record log_appender_define =
  la_type :: int
  la_level :: level
  la_formatter :: string
  la_file :: string

record log_define =
  ld_name :: string
  ld_level :: level
  ld_formatter :: string
  ld_appenders :: "log_appender_define list"

definition LogAppenderDefine_eq :: "log_appender_define \<Rightarrow> log_appender_define \<Rightarrow> bool" where
  "LogAppenderDefine_eq a oth \<longleftrightarrow>
     la_type a = la_type oth \<and> la_level a = la_level oth \<and> la_formatter a = la_formatter oth
     \<and> la_file a = la_file oth"

definition LogDefine_eq :: "log_define \<Rightarrow> log_define \<Rightarrow> bool" where
  "LogDefine_eq d oth \<longleftrightarrow>
     ld_name d = ld_name oth \<and> ld_level d = ld_level oth \<and> ld_formatter d = ld_formatter oth
     \<and> list_all2 LogAppenderDefine_eq (ld_appenders d) (ld_appenders oth)"

definition LogDefine_less :: "log_define \<Rightarrow> log_define \<Rightarrow> bool" where
  "LogDefine_less d oth \<longleftrightarrow> ld_name d < ld_name oth"

definition LogDefine_isValid :: "log_define \<Rightarrow> bool" where
  "LogDefine_isValid d \<longleftrightarrow> ld_name d \<noteq> []"

section \<open>Conversions\<close>

text \<open>\<open>n[key].IsDefined() ? n[key].as<std::string>() : ""\<close>.\<close>

definition opt_string :: "yaml_lib \<Rightarrow> yaml \<Rightarrow> string \<Rightarrow> string res" where
  "opt_string lib n key =
     res_bind (node_key n key) (\<lambda>m. case m of None \<Rightarrow> Inr [] | Some m \<Rightarrow> as_string lib m)"

text \<open>One round of the loop over the appenders; \<open>None\<close> where the code continues.\<close>

definition appender_from :: "yaml_lib \<Rightarrow> yaml \<Rightarrow> log_appender_define option res" where
  "appender_from lib a =
     res_bind (node_key a ''type'') (\<lambda>t.
       case t of
         None \<Rightarrow> Inr None
       | Some t \<Rightarrow> res_bind (as_string lib t) (\<lambda>ty.
           if ty = ''FileLogAppender'' then
             res_bind (node_key a ''file'') (\<lambda>f.
               case f of
                 None \<Rightarrow> Inr None
               | Some f \<Rightarrow>
                   res_bind (as_string lib f) (\<lambda>file.
                   res_bind (opt_string lib a ''formatter'') (\<lambda>fm.
                     Inr (Some \<lparr>la_type = 1, la_level = UNKNOW, la_formatter = fm, la_file = file\<rparr>))))
           else if ty = ''StdoutLogAppender'' then
             res_bind (opt_string lib a ''formatter'') (\<lambda>fm.
               Inr (Some \<lparr>la_type = 2, la_level = UNKNOW, la_formatter = fm, la_file = []\<rparr>))
           else Inr None))"

definition appenders_from :: "yaml_lib \<Rightarrow> yaml \<Rightarrow> log_appender_define list res" where
  "appenders_from lib aps =
     res_bind
       (res_map (\<lambda>x. case node_index lib aps x of None \<Rightarrow> Inr None | Some a \<Rightarrow> appender_from lib a)
          [0..<node_size aps])
       (\<lambda>ds. Inr (List.map_filter (\<lambda>d. d) ds))"

definition LogDefine_from :: "yaml_lib \<Rightarrow> string \<Rightarrow> log_define res" where
  "LogDefine_from lib v =
     res_bind (load_node lib v) (\<lambda>n.
     res_bind (node_key n ''name'') (\<lambda>nm.
       case nm of
         None \<Rightarrow> Inl (Throws ''log config name is null'')
       | Some nm \<Rightarrow>
           res_bind (as_string lib nm) (\<lambda>name.
           res_bind (opt_string lib n ''level'') (\<lambda>lvl.
           res_bind (opt_string lib n ''formatter'') (\<lambda>fm.
           res_bind (node_key n ''appenders'') (\<lambda>aps.
           res_bind (case aps of None \<Rightarrow> Inr [] | Some aps \<Rightarrow> appenders_from lib aps) (\<lambda>ds.
             Inr \<lparr>ld_name = name, ld_level = FromString lvl, ld_formatter = fm,
                  ld_appenders = ds\<rparr>)))))))"

definition entry :: "string \<Rightarrow> string \<Rightarrow> yaml \<times> yaml" where
  "entry k s = (Scalar k, Scalar s)"

definition appender_node :: "log_appender_define \<Rightarrow> yaml" where
  "appender_node a =
     (let kvs =
        (if la_type a = 1 then [entry ''type'' ''FileLogAppender'', entry ''file'' (la_file a)]
         else if la_type a = 2 then [entry ''type'' ''StdoutLogAppender''] else [])
        @ (if la_level a \<noteq> UNKNOW then [entry ''level'' (ToString (la_level a))] else [])
        @ (if la_formatter a \<noteq> [] then [entry ''formatter'' (la_formatter a)] else [])
      in if kvs = [] then Null else Map kvs)"

definition define_node :: "log_define \<Rightarrow> yaml" where
  "define_node i =
     Map
       ([entry ''name'' (ld_name i)]
        @ (if ld_level i \<noteq> UNKNOW then [entry ''level'' (ToString (ld_level i))] else [])
        @ (if ld_formatter i \<noteq> [] then [entry ''formatter'' (ld_formatter i)] else [])
        @ (if ld_appenders i = [] then []
           else [(Scalar ''appenders'', Seq (map appender_node (ld_appenders i)))]))"

definition LogDefine_to :: "yaml_lib \<Rightarrow> log_define \<Rightarrow> string res" where
  "LogDefine_to lib i = Inr (Emit lib (define_node i))"

section \<open>The listener\<close>

text \<open>The appender of a definition: a type other than 1 and 2 leaves the pointer null.\<close>

definition make_appender :: "(string \<Rightarrow> bool) \<Rightarrow> log_appender_define \<Rightarrow> appender option" where
  "make_appender ok a =
     (if la_type a = 1 then Some (FileLogAppender_ctor (la_file a) (ok (la_file a)))
      else if la_type a = 2 then Some (LogAppender_init StdoutLogAppender)
      else None)"

definition configure_appender ::
  "(string \<Rightarrow> bool) \<Rightarrow> string \<Rightarrow> addr \<Rightarrow> log_appender_define \<Rightarrow> log_state \<Rightarrow> log_state res" where
  "configure_appender ok name l a s =
     (case make_appender ok a of
        None \<Rightarrow> Inl (Undefined ''null appender'')
      | Some ap0 \<Rightarrow>
          (let ap1 = LogAppender_setLevel (la_level a) ap0;
               fmt = LogFormatter_ctor (la_formatter a);
               (ap2, s1) =
                 (if la_formatter a = [] then (ap1, s)
                  else if \<not> fm_error fmt then (LogAppender_setFormatter (Some fmt) ap1, s)
                  else (ap1, print (''log.name='' @ name @ '' appender type='' @ dec_int (la_type a)
                               @ '' formatter='' @ la_formatter a @ '' is invalid'' @ endl) s));
               (p, s2) = new_appender ap2 s1
           in addAppender p l s2))"

fun configure_appenders ::
  "(string \<Rightarrow> bool) \<Rightarrow> string \<Rightarrow> addr \<Rightarrow> log_appender_define list \<Rightarrow> log_state \<Rightarrow> log_state res" where
  "configure_appenders ok name l [] s = Inr s"
| "configure_appenders ok name l (a # bs) s =
     res_bind (configure_appender ok name l a s) (configure_appenders ok name l bs)"

definition configure_logger :: "(string \<Rightarrow> bool) \<Rightarrow> log_define \<Rightarrow> log_state \<Rightarrow> log_state res" where
  "configure_logger ok i s =
     (let (l, s1) = getLogger (ld_name i) s;
          s2 = upd_logger l (Logger_setLevel (ld_level i)) s1
      in res_bind (if ld_formatter i \<noteq> [] then setFormatter_str (ld_formatter i) l s2 else Inr s2) (\<lambda>s3.
         res_bind (clearAppenders l s3)
           (configure_appenders ok (ld_name i) l (ld_appenders i))))"

definition delete_logger :: "log_define \<Rightarrow> log_state \<Rightarrow> log_state res" where
  "delete_logger i s =
     (let (l, s1) = getLogger (ld_name i) s
      in clearAppenders l (upd_logger l (Logger_setLevel 100) s1))"

fun delete_missing :: "log_define list \<Rightarrow> log_define list \<Rightarrow> log_state \<Rightarrow> log_state res" where
  "delete_missing new_value [] s = Inr s"
| "delete_missing new_value (i # old) s =
     res_bind (if sset_find LogDefine_less i new_value = length new_value then delete_logger i s else Inr s)
       (delete_missing new_value old)"

text \<open>Whether the loop continues with the next definition at once: an equal old one exists.\<close>

definition unchanged :: "log_define list \<Rightarrow> log_define \<Rightarrow> bool" where
  "unchanged old_value i \<longleftrightarrow>
     (let p = sset_find LogDefine_less i old_value
      in p \<noteq> length old_value \<and> LogDefine_eq i (old_value ! p))"

text \<open>The loop over the new definitions; the loop that deletes is inside it, as in the code.\<close>

fun conf_loop ::
  "(string \<Rightarrow> bool) \<Rightarrow> log_define list \<Rightarrow> log_define list \<Rightarrow> log_define list \<Rightarrow> log_state \<Rightarrow> log_state res" where
  "conf_loop ok old_value new_value [] s = Inr s"
| "conf_loop ok old_value new_value (i # js) s =
     (if unchanged old_value i then conf_loop ok old_value new_value js s
      else res_bind (configure_logger ok i s) (\<lambda>s1.
           res_bind (delete_missing new_value old_value s1)
             (conf_loop ok old_value new_value js)))"

record log_env =
  en_strftime :: "string \<Rightarrow> u64 \<Rightarrow> string"
  en_file :: string
  en_tid :: int
  en_fiber :: u32
  en_now :: u64
  en_thread :: string
  en_opens :: "string \<Rightarrow> bool"

definition on_logger_conf_changed ::
  "log_env \<Rightarrow> log_define list \<Rightarrow> log_define list \<Rightarrow> log_state \<Rightarrow> log_state res option" where
  "on_logger_conf_changed env old_value new_value s =
     (case AWCOTN_LOG_LEVEL 2 (en_strftime env) (lg_root s) INFO (en_file env) 781 (en_tid env)
             (en_fiber env) (en_now env) (en_thread env) ''on_logger_conf_changed'' s of
        None \<Rightarrow> None
      | Some r \<Rightarrow> Some (res_bind r (conf_loop (en_opens env) old_value new_value new_value)))"

section \<open>Writing loggers\<close>

definition own_formatter :: "appender \<Rightarrow> (yaml \<times> yaml) list" where
  "own_formatter ap =
     (case ap_formatter ap of
        Some f \<Rightarrow> if ap_hasFormatter ap then [entry ''formatter'' (fm_pattern f)] else []
      | None \<Rightarrow> [])"

definition own_level :: "appender \<Rightarrow> (yaml \<times> yaml) list" where
  "own_level ap =
     (if ap_level ap \<noteq> UNKNOW then [entry ''level'' (ToString (ap_level ap))] else [])"

definition StdoutLogAppender_toYamlString ::
  "yaml_lib \<Rightarrow> appender \<Rightarrow> log_state \<Rightarrow> string \<times> log_state" where
  "StdoutLogAppender_toYamlString lib ap s =
     (Emit lib (Map ([entry ''type'' ''StdoutLogAppender''] @ own_level ap @ own_formatter ap)),
      print (''=========='' @ dec_int (ap_level ap) @ endl) s)"

definition FileLogAppender_toYamlString ::
  "yaml_lib \<Rightarrow> string \<Rightarrow> appender \<Rightarrow> log_state \<Rightarrow> string \<times> log_state" where
  "FileLogAppender_toYamlString lib filename ap s =
     (Emit lib (Map ([entry ''type'' ''FileLogAppender'', entry ''file'' filename]
                     @ own_level ap @ own_formatter ap)), s)"

definition appender_toYamlString :: "yaml_lib \<Rightarrow> appender \<Rightarrow> log_state \<Rightarrow> string \<times> log_state" where
  "appender_toYamlString lib ap s =
     (case ap_kind ap of
        StdoutLogAppender \<Rightarrow> StdoutLogAppender_toYamlString lib ap s
      | FileLogAppender filename \<Rightarrow> FileLogAppender_toYamlString lib filename ap s)"

fun appender_nodes :: "yaml_lib \<Rightarrow> addr list \<Rightarrow> log_state \<Rightarrow> (yaml list \<times> log_state) res" where
  "appender_nodes lib [] s = Inr ([], s)"
| "appender_nodes lib (p # ps) s =
     res_bind (deref (lg_appenders s) p) (\<lambda>ap.
       case appender_toYamlString lib ap s of
         (t, s1) \<Rightarrow>
           res_bind (load_node lib t) (\<lambda>n.
           res_bind (appender_nodes lib ps s1) (\<lambda>(ns, s2). Inr (n # ns, s2))))"

definition Logger_toYamlString :: "yaml_lib \<Rightarrow> addr \<Rightarrow> log_state \<Rightarrow> (string \<times> log_state) res" where
  "Logger_toYamlString lib a s =
     res_bind (deref (lg_loggers s) a) (\<lambda>l.
     res_bind (appender_nodes lib (lo_appenders l) s) (\<lambda>(ns, s1).
       Inr (Emit lib (Map
         ([entry ''name'' (lo_name l), entry ''level'' (ToString (lo_level l))]
          @ (case lo_formatter l of Some f \<Rightarrow> [entry ''formatter'' (fm_pattern f)] | None \<Rightarrow> [])
          @ (if ns = [] then [] else [(Scalar ''appenders'', Seq ns)]))), s1)))"

fun logger_nodes :: "yaml_lib \<Rightarrow> (string \<times> addr) list \<Rightarrow> log_state \<Rightarrow> (yaml list \<times> log_state) res" where
  "logger_nodes lib [] s = Inr ([], s)"
| "logger_nodes lib ((_, a) # ls) s =
     res_bind (Logger_toYamlString lib a s) (\<lambda>(t, s1).
     res_bind (load_node lib t) (\<lambda>n.
     res_bind (logger_nodes lib ls s1) (\<lambda>(ns, s2). Inr (n # ns, s2))))"

definition LoggerManager_toYamlString :: "yaml_lib \<Rightarrow> log_state \<Rightarrow> (string \<times> log_state) res" where
  "LoggerManager_toYamlString lib s =
     res_bind (logger_nodes lib (lg_names s) s) (\<lambda>(ns, s1).
       Inr (Emit lib (if ns = [] then Null else Seq ns), s1))"

section \<open>The contracts of the definitions\<close>

interpretation define_order: strict_weak_order LogDefine_less
  by unfold_locales (auto simp: LogDefine_less_def)

lemma LogAppenderDefine_eq_iff [simp]: "LogAppenderDefine_eq a b \<longleftrightarrow> a = b"
  by (cases a; cases b) (simp add: LogAppenderDefine_eq_def)

lemma LogDefine_eq_iff [simp]: "LogDefine_eq d e \<longleftrightarrow> d = e"
proof -
  have "list_all2 LogAppenderDefine_eq xs ys \<longleftrightarrow> xs = ys" for xs ys
    by (simp add: list_all2_eq [symmetric] list_all2_conv_all_nth list_eq_iff_nth_eq)
  then show ?thesis by (cases d; cases e) (simp add: LogDefine_eq_def)
qed

lemma node_simps [simp]:
  "as_string lib (Scalar t) = Inr t" "node_key (Map kvs) k = Inr (map_of kvs (Scalar k))"
  "node_size (Seq ns) = length ns"
  by (simp_all add: as_string_def node_key_def node_size_def)

text \<open>A definition that can be stored: types the code knows, a level it can print.\<close>

definition storable_appender :: "log_appender_define \<Rightarrow> bool" where
  "storable_appender a \<longleftrightarrow> la_type a = 1 \<or> la_type a = 2 \<and> la_file a = []"

definition storable :: "log_define \<Rightarrow> bool" where
  "storable d \<longleftrightarrow>
     UNKNOW \<le> ld_level d \<and> ld_level d \<le> FATAL \<and> list_all storable_appender (ld_appenders d)"

text \<open>What is lost: the levels of the appenders.\<close>

definition forget_level :: "log_appender_define \<Rightarrow> log_appender_define" where
  "forget_level a = a\<lparr>la_level := UNKNOW\<rparr>"

definition forget_levels :: "log_define \<Rightarrow> log_define" where
  "forget_levels d = d\<lparr>ld_appenders := map forget_level (ld_appenders d)\<rparr>"

lemma appender_round_trip:
  "storable_appender a \<Longrightarrow> appender_from lib (appender_node a) = Inr (Some (forget_level a))"
  by (cases a) (auto simp: storable_appender_def appender_node_def appender_from_def opt_string_def
      forget_level_def entry_def Let_def)

lemma appenders_from_seq:
  "res_map (appender_from lib) ns = Inr ds \<Longrightarrow>
   appenders_from lib (Seq ns) = Inr (List.map_filter (\<lambda>d. d) ds)"
proof -
  assume r: "res_map (appender_from lib) ns = Inr ds"
  have c: "res_map f js = res_map g js" if "\<forall>i\<in>set js. f i = g i"
    for f g :: "nat \<Rightarrow> log_appender_define option res" and js
    using that by (induction js) auto
  have "res_map (\<lambda>x. case node_index lib (Seq ns) x of None \<Rightarrow> Inr None | Some a \<Rightarrow> appender_from lib a)
          [0..<length ns]
      = res_map (\<lambda>i. appender_from lib (ns ! i)) [0..<length ns]"
    by (rule c) (simp add: node_index_def)
  also have "\<dots> = res_map (appender_from lib) (map ((!) ns) [0..<length ns])"
    by (simp add: res_map_map)
  finally show ?thesis using r by (simp add: appenders_from_def map_nth)
qed

lemma map_filter_Some: "List.map_filter (\<lambda>d. d) (map (\<lambda>a. Some (f a)) xs) = map f xs"
  by (induction xs) (simp_all add: List.map_filter_simps)

lemma level_round_trip:
  "UNKNOW \<le> l \<Longrightarrow> l \<le> FATAL \<Longrightarrow> l \<noteq> UNKNOW \<Longrightarrow> FromString (ToString l) = l"
  by (rule FromString_ToString)

lemma FromString_Nil [simp]: "FromString [] = UNKNOW"
  by (simp add: FromString_def)

lemma define_round_trip_base:
  assumes y: "yaml_ok lib" and s: "storable d"
  shows "LogDefine_from lib (Emit lib (define_node d)) = Inr (forget_levels d)"
proof -
  have "res_map (appender_from lib) (map appender_node (ld_appenders d))
      = Inr (map (\<lambda>a. Some (forget_level a)) (ld_appenders d))"
    using s by (auto simp: res_map_map storable_def list_all_iff appender_round_trip intro: res_map_Inr)
  from appenders_from_seq [OF this]
  have aps: "appenders_from lib (Seq (map appender_node (ld_appenders d)))
      = Inr (map forget_level (ld_appenders d))"
    by (simp add: map_filter_Some)
  show ?thesis
    using y s aps level_round_trip [of "ld_level d"]
    by (cases d) (auto simp: LogDefine_from_def opt_string_def entry_def forget_levels_def storable_def
        define_node_def)
qed

interpretation define_cast:
  lexical_cast lib "LogDefine_to lib" "LogDefine_from lib" "\<lambda>d. storable d \<and> forget_levels d = d"
  for lib
  by (rule emitting_cast) (use define_round_trip_base in \<open>fastforce simp: LogDefine_to_def\<close>)

interpretation define_set:
  set_cast lib "LogDefine_to lib" "LogDefine_from lib" "\<lambda>d. storable d \<and> forget_levels d = d"
    LogDefine_less
  for lib
  by unfold_locales

lemma appender_from_shape:
  "appender_from lib a = Inr (Some d) \<Longrightarrow> storable_appender d \<and> la_level d = UNKNOW"
  by (auto simp: appender_from_def storable_appender_def split: option.splits if_splits)

lemma res_map_mem: "res_map f xs = Inr ys \<Longrightarrow> y \<in> set ys \<Longrightarrow> \<exists>x\<in>set xs. f x = Inr y"
  by (induction xs arbitrary: ys) auto

lemma appenders_from_shape:
  assumes "appenders_from lib n = Inr ds" and "d \<in> set ds"
  shows "storable_appender d \<and> la_level d = UNKNOW"
proof -
  obtain os where os: "res_map (\<lambda>x. case node_index lib n x of None \<Rightarrow> Inr None
        | Some a \<Rightarrow> appender_from lib a) [0..<node_size n] = Inr os"
    and ds: "ds = List.map_filter (\<lambda>d. d) os"
    using assms(1) by (auto simp: appenders_from_def)
  have "Some d \<in> set os" using assms(2) ds by (auto simp: List.map_filter_def)
  from res_map_mem [OF os this] show ?thesis
    using appender_from_shape by (auto split: option.splits)
qed

lemma define_from_shape:
  assumes "LogDefine_from lib v = Inr d" and "a \<in> set (ld_appenders d)"
  shows "storable_appender a \<and> la_level a = UNKNOW"
  using assms appenders_from_shape by (auto simp: LogDefine_from_def split: option.splits)


section \<open>Properties\<close>

text \<open>A logger definition written as YAML and read back keeps everything but the levels of
  its appenders: they are written but never read, so they come back as \<open>UNKNOW\<close>.\<close>

theorem define_text_forgets_appender_levels:
  "yaml_ok lib \<Longrightarrow> storable d \<Longrightarrow>
     res_bind (LogDefine_to lib d) (LogDefine_from lib) = Inr (forget_levels d)"
  by (simp add: LogDefine_to_def define_round_trip_base)

definition two_appenders :: log_define where
  "two_appenders =
     \<lparr>ld_name = ''web'', ld_level = WARN, ld_formatter = [],
      ld_appenders = [\<lparr>la_type = 1, la_level = FATAL, la_formatter = ''%m'', la_file = ''web.log''\<rparr>,
                      \<lparr>la_type = 2, la_level = UNKNOW, la_formatter = [], la_file = []\<rparr>]\<rparr>"

theorem define_text_forgets_appender_levels_witness:
  "res_bind (LogDefine_to plain_lib two_appenders) (LogDefine_from plain_lib)
     = Inr (forget_levels two_appenders)
   \<and> forget_levels two_appenders \<noteq> two_appenders"
  using define_text_forgets_appender_levels [OF plain_ok, of two_appenders]
  by (simp add: two_appenders_def storable_def storable_appender_def level_defs forget_levels_def
      forget_level_def)

text \<open>The type of the variable \<open>logs\<close>, a \<open>std::set<LogDefine>\<close>.\<close>

definition logs_type :: "yaml_lib \<Rightarrow> log_define list var_type" where
  "logs_type lib =
     \<lparr>vt_name = ''set<LogDefine>'', vt_from = set_from lib LogDefine_less (LogDefine_from lib),
      vt_to = set_to lib (LogDefine_to lib), vt_eq = list_all2 LogDefine_eq\<rparr>"

text \<open>Writing the logger configuration out with \<open>toString\<close> and loading it again with
  \<open>fromString\<close> succeeds and changes nothing, so no listener runs, provided no definition gives
  an appender a level of its own.\<close>

theorem logs_text_reload_is_neutral:
  "yaml_ok lib \<Longrightarrow> cv_type (cf_vars c ! a) = logs_type lib \<Longrightarrow>
   sorted_wrt LogDefine_less (getValue a c) \<Longrightarrow>
   list_all (\<lambda>d. storable d \<and> forget_levels d = d) (getValue a c) \<Longrightarrow>
     \<exists>t. toString (cf_vars c ! a) = Inr t \<and> fromString t a c = (Inr True, c)"
proof -
  assume y: "yaml_ok lib" and ty: "cv_type (cf_vars c ! a) = logs_type lib"
    and v: "sorted_wrt LogDefine_less (getValue a c)"
      "list_all (\<lambda>d. storable d \<and> forget_levels d = d) (getValue a c)"
  obtain t where t: "set_to lib (LogDefine_to lib) (getValue a c) = Inr t"
    "set_from lib LogDefine_less (LogDefine_from lib) t = Inr (getValue a c)"
    using lexical_cast.round_trip [OF define_set.set_cast y, of "getValue a c"] v by auto
  have "list_all2 LogDefine_eq (getValue a c) (getValue a c)"
    by (simp add: list_all2_same)
  then have "fromString t a c = (Inr True, c)"
    using t ty by (simp add: fromString_def setValue_def logs_type_def getValue_def)
  then show ?thesis using t ty by (simp add: toString_def logs_type_def getValue_def)
qed

definition web_define :: log_define where
  "web_define = \<lparr>ld_name = ''web'', ld_level = INFO, ld_formatter = ''%m%n'',
     ld_appenders = [\<lparr>la_type = 2, la_level = UNKNOW, la_formatter = [], la_file = []\<rparr>]\<rparr>"

definition web_config :: "(log_define list, log_state) config" where
  "web_config =
     \<lparr>cf_vars = [ConfigVar_ctor (logs_type plain_lib) ''logs'' [web_define] []],
      cf_datas = [(''logs'', 0)], cf_fun_id = (\<lambda>_. 0),
      cf_ext = \<lparr>lg_loggers = [], lg_appenders = [], lg_out = [], lg_names = [], lg_root = 0\<rparr>\<rparr>"

theorem logs_text_reload_is_neutral_witness:
  "\<exists>t. toString (cf_vars web_config ! 0) = Inr t \<and> fromString t 0 web_config = (Inr True, web_config)"
  by (rule logs_text_reload_is_neutral [OF plain_ok])
    (simp_all add: web_config_def ConfigVar_ctor_def getValue_def web_define_def storable_def
      storable_appender_def level_defs forget_levels_def forget_level_def)


section \<open>What the listener does\<close>

text \<open>The appender a definition makes for a logger with the formatter \<open>fm\<close>.\<close>

definition configured ::
  "(string \<Rightarrow> bool) \<Rightarrow> formatter option \<Rightarrow> log_appender_define \<Rightarrow> appender" where
  "configured ok fm a =
     (let ap = LogAppender_setLevel (la_level a) (the (make_appender ok a));
          own = LogFormatter_ctor (la_formatter a)
      in if la_formatter a \<noteq> [] \<and> \<not> fm_error own
         then ap\<lparr>ap_formatter := Some own, ap_hasFormatter := True\<rparr>
         else ap\<lparr>ap_formatter := fm\<rparr>)"

lemma make_appender_fresh:
  "make_appender ok a = Some ap \<Longrightarrow> ap_formatter ap = None"
  by (auto simp: make_appender_def FileLogAppender_ctor_def LogAppender_init_def reopen_def Let_def
      close_stream_def open_stream_def split: if_splits)

lemma make_appender_known: "storable_appender a \<Longrightarrow> \<exists>ap. make_appender ok a = Some ap"
  by (auto simp: storable_appender_def make_appender_def)

lemma configure_appender_spec:
  assumes a: "storable_appender a" and l: "l < length (lg_loggers s)"
  shows "\<exists>t. configure_appender ok name l a s = Inr
    (s\<lparr>lg_out := lg_out s @ t,
       lg_appenders := lg_appenders s @ [configured ok (lo_formatter (lg_loggers s ! l)) a],
       lg_loggers := (lg_loggers s)[l := (lg_loggers s ! l)
         \<lparr>lo_appenders := lo_appenders (lg_loggers s ! l) @ [length (lg_appenders s)]\<rparr>]\<rparr>)"
proof -
  obtain ap where ap: "make_appender ok a = Some ap" using make_appender_known a by blast
  have n: "ap_formatter (LogAppender_setLevel lv ap) = None" for lv
    using make_appender_fresh [OF ap] by (simp add: LogAppender_setLevel_def)
  have step: "\<exists>t. addAppender (length (lg_appenders s))
        l (snd (new_appender ap2 (print t0 s))) = Inr
      (s\<lparr>lg_out := lg_out s @ t,
         lg_appenders := lg_appenders s @
           [if ap_formatter ap2 = None then ap2\<lparr>ap_formatter := lo_formatter (lg_loggers s ! l)\<rparr> else ap2],
         lg_loggers := (lg_loggers s)[l := (lg_loggers s ! l)
           \<lparr>lo_appenders := lo_appenders (lg_loggers s ! l) @ [length (lg_appenders s)]\<rparr>]\<rparr>)"
    for ap2 t0
    using l by (intro exI [of _ t0])
      (auto simp: addAppender_def new_appender_def deref_def upd_logger_def upd_appender_def print_def Let_def)
  have nil: "print [] s = s" by (simp add: print_def)
  let ?own = "LogFormatter_ctor (la_formatter a)"
  consider "la_formatter a = []" | "la_formatter a \<noteq> []" "\<not> fm_error ?own"
    | "la_formatter a \<noteq> []" "fm_error ?own" by blast
  then show ?thesis
  proof cases
    case 1
    then show ?thesis
      using step [of "LogAppender_setLevel (la_level a) ap" "[]"] n ap nil
      by (simp add: configure_appender_def configured_def new_appender_def Let_def)
  next
    case 2
    then show ?thesis
      using step [of "LogAppender_setFormatter (Some ?own) (LogAppender_setLevel (la_level a) ap)" "[]"]
        ap nil
      by (simp add: configure_appender_def configured_def new_appender_def Let_def
          LogAppender_setFormatter_def)
  next
    case 3
    then show ?thesis
      using step [of "LogAppender_setLevel (la_level a) ap"] n ap
      by (simp add: configure_appender_def configured_def new_appender_def Let_def)
  qed
qed

lemma configure_appenders_spec:
  assumes "list_all storable_appender as" and "l < length (lg_loggers s)"
  shows "\<exists>t. configure_appenders ok name l as s = Inr
    (s\<lparr>lg_out := lg_out s @ t,
       lg_appenders := lg_appenders s @ map (configured ok (lo_formatter (lg_loggers s ! l))) as,
       lg_loggers := (lg_loggers s)[l := (lg_loggers s ! l)
         \<lparr>lo_appenders := lo_appenders (lg_loggers s ! l)
            @ [length (lg_appenders s)..<length (lg_appenders s) + length as]\<rparr>]\<rparr>)"
  using assms
proof (induction as arbitrary: s)
  case Nil
  then show ?case by (intro exI [of _ "[]"]) simp
next
  case (Cons a as)
  let ?s = "\<lambda>t. s\<lparr>lg_out := lg_out s @ t,
       lg_appenders := lg_appenders s @ [configured ok (lo_formatter (lg_loggers s ! l)) a],
       lg_loggers := (lg_loggers s)[l := (lg_loggers s ! l)
         \<lparr>lo_appenders := lo_appenders (lg_loggers s ! l) @ [length (lg_appenders s)]\<rparr>]\<rparr>"
  obtain t where t: "configure_appender ok name l a s = Inr (?s t)"
    using configure_appender_spec Cons.prems by fastforce
  have l: "l < length (lg_loggers (?s t))" using Cons.prems by simp
  obtain u where "configure_appenders ok name l as (?s t) = Inr
    ((?s t)\<lparr>lg_out := lg_out (?s t) @ u,
       lg_appenders := lg_appenders (?s t) @ map (configured ok (lo_formatter (lg_loggers (?s t) ! l))) as,
       lg_loggers := (lg_loggers (?s t))[l := (lg_loggers (?s t) ! l)
         \<lparr>lo_appenders := lo_appenders (lg_loggers (?s t) ! l)
            @ [length (lg_appenders (?s t))..<length (lg_appenders (?s t)) + length as]\<rparr>]\<rparr>)"
    using Cons.IH [OF _ l] Cons.prems(1) by auto
  then show ?case
    using t Cons.prems(2)
    by (intro exI [of _ "t @ u"]) (simp add: upt_conv_Cons del: upt_Suc)
qed

lemma configure_appender_inv:
  assumes "log_inv s" and "configure_appender ok name l a s = Inr s'"
  shows "log_inv s'"
  using assms print_inv new_appender_inv addAppender_inv
  by (auto simp: configure_appender_def Let_def split: option.splits if_splits prod.splits)
    (metis new_appender_inv print_inv snd_conv addAppender_inv)+

lemma configure_appenders_inv:
  "log_inv s \<Longrightarrow> configure_appenders ok name l as s = Inr s' \<Longrightarrow> log_inv s'"
proof (induction as arbitrary: s)
  case (Cons a as)
  then show ?case using configure_appender_inv by (auto simp del: not_None_eq) blast
qed simp

lemma setFormatter_str_ok:
  assumes inv: "log_inv s" and a: "a < length (lg_loggers s)"
  shows "\<exists>s'. setFormatter_str v a s = Inr s' \<and> length (lg_loggers s') = length (lg_loggers s)
    \<and> length (lg_appenders s') = length (lg_appenders s)
    \<and> lg_loggers s' ! a = (if fm_error (LogFormatter_ctor v) then lg_loggers s ! a
         else (lg_loggers s ! a)\<lparr>lo_formatter := Some (LogFormatter_ctor v)\<rparr>)"
proof -
  have len: "follow_all w ps s1 = Inr s' \<Longrightarrow> length (lg_appenders s') = length (lg_appenders s1)"
    for w ps s1 s'
    by (induction ps arbitrary: s1) auto
  let ?ps = "lo_appenders (lg_loggers s ! a)" and ?v = "Some (LogFormatter_ctor v)"
  let ?s = "upd_logger a (\<lambda>l. l\<lparr>lo_formatter := ?v\<rparr>) s"
  have "list_all (\<lambda>p. p < length (lg_appenders s)) ?ps"
    using inv_logger [OF inv a] by (auto simp: good_logger_def good_appender_def list_all_iff)
  then obtain s' where s': "follow_all ?v ?ps ?s = Inr s'" "lg_loggers s' = lg_loggers ?s"
    using follow_all_spec [of ?s ?ps ?v] by auto
  then show ?thesis
    using a len [OF s'(1)] by (auto simp: setFormatter_str_def setFormatter_ptr_def deref_def)
qed


lemma setFormatter_str_names:
  assumes "setFormatter_str str l s = Inr s'"
  shows "lg_names s' = lg_names s"
proof -
  have "follow_all v ps x = Inr y \<Longrightarrow> lg_names y = lg_names x" for v ps x y
    by (induction ps arbitrary: x) auto
  then show ?thesis using assms
    by (auto simp: setFormatter_str_def setFormatter_ptr_def Let_def split: if_splits)
qed

text \<open>The level and the formatter of the definition.\<close>

lemma configure_format_spec:
  fixes d :: log_define
  assumes inv: "log_inv s" and l: "l < length (lg_loggers s)"
  defines "s2 \<equiv> upd_logger l (Logger_setLevel (ld_level d)) s" and "fm \<equiv> LogFormatter_ctor (ld_formatter d)"
  obtains s3 where "(if ld_formatter d \<noteq> [] then setFormatter_str (ld_formatter d) l s2 else Inr s2) = Inr s3"
    "log_inv s3" "length (lg_loggers s3) = length (lg_loggers s)"
    "lo_level (lg_loggers s3 ! l) = ld_level d" "lo_name (lg_loggers s3 ! l) = lo_name (lg_loggers s ! l)"
    "ld_formatter d \<noteq> [] \<and> \<not> fm_error fm \<longrightarrow> lo_formatter (lg_loggers s3 ! l) = Some fm"
    "lg_names s3 = lg_names s"
proof (cases "ld_formatter d = []")
  case True
  then show thesis using that [of s2] l setLevel_inv [OF inv l]
    by (simp add: Logger_setLevel_def s2_def)
next
  case False
  have inv2: "log_inv s2" unfolding s2_def using inv l by (rule setLevel_inv)
  obtain s' where s': "setFormatter_str (ld_formatter d) l s2 = Inr s'"
    "length (lg_loggers s') = length (lg_loggers s2)"
    "lg_loggers s' ! l = (if fm_error fm then lg_loggers s2 ! l
       else (lg_loggers s2 ! l)\<lparr>lo_formatter := Some fm\<rparr>)"
    using setFormatter_str_ok [OF inv2, of l "ld_formatter d"] l by (auto simp: s2_def fm_def)
  then show thesis
    using that [of s'] False l setFormatter_str_inv [OF inv2] setFormatter_str_names [OF s'(1)]
    by (simp add: Logger_setLevel_def s2_def)
qed

lemma configure_logger_spec:
  assumes inv: "log_inv s" and st: "list_all storable_appender (ld_appenders d)"
  obtains s' l where "configure_logger ok d s = Inr s'" "log_inv s'"
    "map_of (lg_names s') (ld_name d) = Some l"
    "lo_level (lg_loggers s' ! l) = ld_level d"
    "map ((!) (lg_appenders s')) (lo_appenders (lg_loggers s' ! l))
       = map (configured ok (lo_formatter (lg_loggers s' ! l))) (ld_appenders d)"
    "ld_formatter d \<noteq> [] \<Longrightarrow> \<not> fm_error (LogFormatter_ctor (ld_formatter d)) \<Longrightarrow>
       lo_formatter (lg_loggers s' ! l) = Some (LogFormatter_ctor (ld_formatter d))"
proof -
  obtain l s1 where g: "getLogger (ld_name d) s = (l, s1)" by (cases "getLogger (ld_name d) s")
  have inv1: "log_inv s1" using getLogger_inv [OF inv, of "ld_name d"] g by simp
  have m: "map_of (lg_names s1) (ld_name d) = Some l" using inv g by (rule getLogger_named)
  then have l: "l < length (lg_loggers s1)" "lo_name (lg_loggers s1 ! l) = ld_name d"
    using named [OF inv1] by blast+
  let ?s2 = "upd_logger l (Logger_setLevel (ld_level d)) s1"
  let ?fm = "LogFormatter_ctor (ld_formatter d)"
  obtain s3 where s3: "(if ld_formatter d \<noteq> [] then setFormatter_str (ld_formatter d) l ?s2 else Inr ?s2) = Inr s3"
    "log_inv s3" "length (lg_loggers s3) = length (lg_loggers s1)"
    "lo_level (lg_loggers s3 ! l) = ld_level d" "lo_name (lg_loggers s3 ! l) = ld_name d"
    "ld_formatter d \<noteq> [] \<and> \<not> fm_error ?fm \<longrightarrow> lo_formatter (lg_loggers s3 ! l) = Some ?fm"
    "lg_names s3 = lg_names s1"
    using configure_format_spec [OF inv1 l(1)] l(2) by metis
  note inv3 = s3(2)
  let ?s4 = "upd_logger l (\<lambda>l. l\<lparr>lo_appenders := []\<rparr>) s3"
  have c: "clearAppenders l s3 = Inr ?s4" using l s3(3) by (simp add: clearAppenders_def deref_def)
  have inv4: "log_inv ?s4" using inv3 c by (rule clearAppenders_inv)
  obtain t where t: "configure_appenders ok (ld_name d) l (ld_appenders d) ?s4 = Inr
    (?s4\<lparr>lg_out := lg_out ?s4 @ t,
       lg_appenders := lg_appenders ?s4
         @ map (configured ok (lo_formatter (lg_loggers ?s4 ! l))) (ld_appenders d),
       lg_loggers := (lg_loggers ?s4)[l := (lg_loggers ?s4 ! l)
         \<lparr>lo_appenders := lo_appenders (lg_loggers ?s4 ! l)
            @ [length (lg_appenders ?s4)..<length (lg_appenders ?s4) + length (ld_appenders d)]\<rparr>]\<rparr>)"
    (is "_ = Inr ?s5")
    using configure_appenders_spec [OF st, of l ?s4 ok "ld_name d"] l s3(3) by auto
  have conf: "configure_logger ok d s = Inr ?s5"
    using g s3(1) c t by (simp add: configure_logger_def)
  have inv5: "log_inv ?s5" using inv4 t by (rule configure_appenders_inv)
  have log5: "lg_loggers ?s5 ! l = (lg_loggers s3 ! l)\<lparr>lo_appenders :=
      [length (lg_appenders s3)..<length (lg_appenders s3) + length (ld_appenders d)]\<rparr>"
    using l s3(3) by simp
  have aps: "map ((!) (lg_appenders ?s5)) (lo_appenders (lg_loggers ?s5 ! l))
       = map (configured ok (lo_formatter (lg_loggers ?s5 ! l))) (ld_appenders d)"
    using l s3(3) by (intro nth_equalityI) (simp_all add: log5 nth_append)
  have names: "map_of (lg_names ?s5) (ld_name d) = Some l" using m s3(7) by simp
  have lev: "lo_level (lg_loggers ?s5 ! l) = ld_level d" using log5 s3(4) by simp
  have fmt: "ld_formatter d \<noteq> [] \<Longrightarrow> \<not> fm_error ?fm \<Longrightarrow> lo_formatter (lg_loggers ?s5 ! l) = Some ?fm"
    using log5 s3(6) by simp
  show thesis by (rule that [OF conf inv5 names lev aps fmt])
qed

lemma delete_logger_ok:
  assumes "log_inv s"
  shows "\<exists>s'. delete_logger i s = Inr s' \<and> log_inv s'"
proof -
  obtain l s1 where g: "getLogger (ld_name i) s = (l, s1)" by (cases "getLogger (ld_name i) s")
  have inv1: "log_inv s1" using getLogger_inv [OF assms, of "ld_name i"] g by simp
  have l: "l < length (lg_loggers s1)"
    using getLogger_named [OF assms g] named [OF inv1] by blast
  let ?s2 = "upd_logger l (Logger_setLevel 100) s1"
  have "clearAppenders l ?s2 = Inr (upd_logger l (\<lambda>l. l\<lparr>lo_appenders := []\<rparr>) ?s2)"
    using l by (simp add: clearAppenders_def deref_def)
  then show ?thesis
    using g setLevel_inv [OF inv1 l] clearAppenders_inv by (auto simp: delete_logger_def)
qed

lemma delete_missing_ok:
  "log_inv s \<Longrightarrow> \<exists>s'. delete_missing new old s = Inr s' \<and> log_inv s'"
proof (induction old arbitrary: s)
  case (Cons i old)
  obtain s1 where "(if sset_find LogDefine_less i new = length new then delete_logger i s else Inr s) = Inr s1"
    "log_inv s1"
    using delete_logger_ok [OF Cons.prems, of i] Cons.prems
    by (cases "sset_find LogDefine_less i new = length new") auto
  then show ?case using Cons.IH [of s1] by simp
qed simp

lemma conf_loop_ok:
  "log_inv s \<Longrightarrow> list_all (\<lambda>d. list_all storable_appender (ld_appenders d)) js \<Longrightarrow>
   \<exists>s'. conf_loop ok old new js s = Inr s' \<and> log_inv s'"
proof (induction js arbitrary: s)
  case (Cons d js)
  show ?case
  proof (cases "unchanged old d")
    case True
    then show ?thesis using Cons by simp
  next
    case False
    obtain s1 where s1: "configure_logger ok d s = Inr s1" "log_inv s1"
      using configure_logger_spec [OF Cons.prems(1), of d ok] Cons.prems(2) by auto
    obtain s2 where "delete_missing new old s1 = Inr s2" "log_inv s2"
      using delete_missing_ok [OF s1(2)] by blast
    then show ?thesis using Cons.IH [of s2] Cons.prems(2) s1 False by simp
  qed
qed simp

lemma listener_start:
  assumes "log_inv s"
  shows "\<exists>e. on_logger_conf_changed env old new s = Some
    (let s0 = delivered (en_strftime env) INFO e (targets s (lg_root s) INFO) s
     in conf_loop (en_opens env) old new new s0)"
proof -
  have r: "lg_root s < length (lg_loggers s)" using assms by (simp add: log_inv_def)
  obtain e where "AWCOTN_LOG_LEVEL 2 (en_strftime env) (lg_root s) INFO (en_file env) 781 (en_tid env)
      (en_fiber env) (en_now env) (en_thread env) ''on_logger_conf_changed'' s
    = Logger_log 2 (en_strftime env) (lg_root s) INFO e s"
    using macro_base [OF r] by blast
  then show ?thesis
    using log_delivers_base [OF assms r, of 0, folded numeral_2_eq_2]
    by (auto simp: on_logger_conf_changed_def simp del: Logger_log.simps)
qed

lemma find_same:
  assumes s: "sorted_wrt LogDefine_less xs" and x: "x \<in> set xs"
  shows "sset_find LogDefine_less x xs < length xs \<and> xs ! sset_find LogDefine_less x xs = x"
proof -
  have eq: "y = z" if "y \<in> set xs" "z \<in> set xs" "define_order.equiv_keys y z" for y z
    using that s by (auto simp: in_set_conv_nth define_order.equiv_keys_def sorted_wrt_iff_nth_less)
      (metis linorder_neqE_nat)
  have "define_order.equiv_keys x x" by (simp add: define_order.equiv_keys_def LogDefine_less_def)
  then have f: "sset_find LogDefine_less x xs < length xs"
    using define_order.find_iff [OF s] x by blast
  then show ?thesis
    using define_order.find_equiv [OF f] eq x nth_mem by metis
qed

lemma conf_loop_unchanged: "list_all (unchanged old) js \<Longrightarrow> conf_loop ok old new js s = Inr s"
  by (induction js) auto

lemma foldl_insert_subset:
  "set (foldl (\<lambda>s x. fst (sset_insert LogDefine_less x s)) s0 xs) \<subseteq> set s0 \<union> set xs"
proof (induction xs arbitrary: s0)
  case (Cons x xs)
  then show ?case using define_order.insert_set_subset [of x s0] by fastforce
qed simp

lemma parsed_storable:
  assumes "set_from lib LogDefine_less (LogDefine_from lib) v = Inr new"
  shows "list_all (\<lambda>d. list_all storable_appender (ld_appenders d)) new"
proof -
  obtain node ds where ds: "read_elems lib (LogDefine_from lib) node = Inr ds"
    and new: "new = foldl (\<lambda>s x. fst (sset_insert LogDefine_less x s)) [] ds"
    using assms by (auto simp: set_from_def)
  have "list_all storable_appender (ld_appenders d)" if "d \<in> set new" for d
  proof -
    have "d \<in> set ds" using that new foldl_insert_subset [of "[]" ds] by auto
    then show ?thesis
      using ds define_from_shape
      by (fastforce simp: read_elems_def list_all_iff dest: res_map_mem)
  qed
  then show ?thesis by (simp add: list_all_iff)
qed

text \<open>Applying a definition: the logger of its name exists afterwards, has the definition's
  level, its formatter if that is a valid pattern, and exactly the definition's appenders in
  order, each of the defined kind and level, with its own formatter if that is valid and the
  logger's otherwise.\<close>

theorem definition_configures_logger:
  "log_reachable f s \<Longrightarrow> list_all storable_appender (ld_appenders d) \<Longrightarrow>
     \<exists>s' l. configure_logger ok d s = Inr s' \<and> fst (getLogger (ld_name d) s') = l
       \<and> lo_level (lg_loggers s' ! l) = ld_level d
       \<and> map ((!) (lg_appenders s')) (lo_appenders (lg_loggers s' ! l))
           = map (configured ok (lo_formatter (lg_loggers s' ! l))) (ld_appenders d)
       \<and> (ld_formatter d \<noteq> [] \<and> \<not> fm_error (LogFormatter_ctor (ld_formatter d)) \<longrightarrow>
            lo_formatter (lg_loggers s' ! l) = Some (LogFormatter_ctor (ld_formatter d)))"
proof -
  assume "log_reachable f s" and "list_all storable_appender (ld_appenders d)"
  then obtain s' l where "configure_logger ok d s = Inr s'"
    "map_of (lg_names s') (ld_name d) = Some l"
    "lo_level (lg_loggers s' ! l) = ld_level d"
    "map ((!) (lg_appenders s')) (lo_appenders (lg_loggers s' ! l))
       = map (configured ok (lo_formatter (lg_loggers s' ! l))) (ld_appenders d)"
    "ld_formatter d \<noteq> [] \<Longrightarrow> \<not> fm_error (LogFormatter_ctor (ld_formatter d)) \<Longrightarrow>
       lo_formatter (lg_loggers s' ! l) = Some (LogFormatter_ctor (ld_formatter d))"
    using configure_logger_spec [OF log_reachable_inv] by metis
  then show ?thesis by (intro exI [of _ s'] exI [of _ l]) (simp add: getLogger_def)
qed

lemma manager_reachable: "\<exists>s. LoggerManager_ctor = Inr s \<and> log_reachable f s"
  using manager_state r_init by blast

theorem definition_configures_logger_witness:
  "\<exists>s s' :: log_state. LoggerManager_ctor = Inr s \<and> configure_logger (\<lambda>_. True) web_define s = Inr s'
     \<and> lo_level (lg_loggers s' ! fst (getLogger ''web'' s')) = INFO"
proof -
  obtain s where s: "LoggerManager_ctor = Inr s" "log_reachable (\<lambda>_ _. []) s"
    using manager_reachable by blast
  show ?thesis
    using s(1) definition_configures_logger [OF s(2), of web_define "\<lambda>_. True"]
    by (auto simp: web_define_def storable_appender_def)
qed


definition some_env :: log_env where
  "some_env = \<lparr>en_strftime = (\<lambda>_ _. []), en_file = ''log.cc'', en_tid = 1, en_fiber = 0, en_now = 0,
     en_thread = ''main'', en_opens = (\<lambda>_. True)\<rparr>"


text \<open>Removing definitions has no effect of its own: the loop that deletes runs only after a
  definition that is new or changed, so if every new definition is an unchanged old one the
  loggers removed from the configuration keep their level and their appenders.\<close>

theorem removed_definitions_stay:
  "log_reachable f s \<Longrightarrow> sorted_wrt LogDefine_less old \<Longrightarrow> set new \<subseteq> set old \<Longrightarrow>
     \<exists>s'. on_logger_conf_changed env old new s = Some (Inr s') \<and> lg_loggers s' = lg_loggers s"
proof -
  assume r: "log_reachable f s" and o: "sorted_wrt LogDefine_less old" "set new \<subseteq> set old"
  have "list_all (unchanged old) new"
    using o find_same [OF o(1)] by (fastforce simp: list_all_iff unchanged_def Let_def)
  then have "conf_loop (en_opens env) old new new s0 = Inr s0" for s0 by (rule conf_loop_unchanged)
  then show ?thesis using listener_start [OF log_reachable_inv [OF r], of env old new] by (auto simp: Let_def)
qed

theorem removed_definitions_stay_witness:
  "\<exists>s s'. LoggerManager_ctor = Inr s \<and>
     on_logger_conf_changed some_env [web_define] [] s = Some (Inr s') \<and> lg_loggers s' = lg_loggers s"
proof -
  obtain s where s: "LoggerManager_ctor = Inr s" "log_reachable (\<lambda>_ _. []) s"
    using manager_reachable by blast
  show ?thesis
    using s(1) removed_definitions_stay [OF s(2), of "[web_define]" "[]" some_env] by auto
qed


subsection \<open>Saved loggers\<close>

text \<open>The definition that describes a logger as it is.\<close>

definition describe_appender :: "appender \<Rightarrow> log_appender_define" where
  "describe_appender ap =
     \<lparr>la_type = (case ap_kind ap of FileLogAppender _ \<Rightarrow> 1 | StdoutLogAppender \<Rightarrow> 2),
      la_level = ap_level ap,
      la_formatter = (if ap_hasFormatter ap then fm_pattern (the (ap_formatter ap)) else []),
      la_file = (case ap_kind ap of FileLogAppender file \<Rightarrow> file | StdoutLogAppender \<Rightarrow> [])\<rparr>"

definition describe :: "log_state \<Rightarrow> addr \<Rightarrow> log_define" where
  "describe s a =
     (let l = lg_loggers s ! a in
      \<lparr>ld_name = lo_name l, ld_level = lo_level l, ld_formatter = fm_pattern (the (lo_formatter l)),
       ld_appenders = map (\<lambda>p. describe_appender (lg_appenders s ! p)) (lo_appenders l)\<rparr>)"

definition saved_appender :: "appender \<Rightarrow> yaml" where
  "saved_appender ap =
     (case ap_kind ap of
        StdoutLogAppender \<Rightarrow>
          Map ([entry ''type'' ''StdoutLogAppender''] @ own_level ap @ own_formatter ap)
      | FileLogAppender filename \<Rightarrow>
          Map ([entry ''type'' ''FileLogAppender'', entry ''file'' filename]
               @ own_level ap @ own_formatter ap))"

lemma saved_appender_read:
  "ap_formatter ap \<noteq> None \<Longrightarrow>
   appender_from lib (saved_appender ap) = Inr (Some (forget_level (describe_appender ap)))"
  by (auto simp: saved_appender_def appender_from_def opt_string_def entry_def own_level_def
      own_formatter_def describe_appender_def forget_level_def split: appender_kind.split)

lemma appender_nodes_saved:
  assumes "yaml_ok lib" and "list_all (\<lambda>p. p < length (lg_appenders s)) ps"
  shows "\<exists>t. appender_nodes lib ps s
    = Inr (map (\<lambda>p. saved_appender (lg_appenders s ! p)) ps, print t s)"
  using assms
proof (induction ps arbitrary: s)
  case Nil
  then show ?case by (intro exI [of _ "[]"]) (simp add: print_def)
next
  case (Cons p ps)
  obtain u where u: "appender_toYamlString lib (lg_appenders s ! p) s
      = (Emit lib (saved_appender (lg_appenders s ! p)), print u s)"
    by (cases "ap_kind (lg_appenders s ! p)")
      (auto simp: appender_toYamlString_def saved_appender_def StdoutLogAppender_toYamlString_def
        FileLogAppender_toYamlString_def print_def intro: that [of "[]"])
  obtain t where "appender_nodes lib ps (print u s)
      = Inr (map (\<lambda>p. saved_appender (lg_appenders s ! p)) ps, print t (print u s))"
    using Cons.IH [of "print u s"] Cons.prems by auto
  moreover have "print t (print u s) = print (u @ t) s" by (simp add: print_def)
  ultimately show ?case using u Cons.prems by (auto simp: deref_def)
qed

text \<open>A logger written by \<open>Logger::toYamlString\<close> and read back as a definition is described by
  it completely, except for the levels of its appenders: name, level, formatter, and for each
  appender in order its kind, its file and the formatter of its own.\<close>

theorem saved_logger_describes_it:
  "log_reachable f s \<Longrightarrow> a < length (lg_loggers s) \<Longrightarrow> yaml_ok lib \<Longrightarrow>
   UNKNOW \<le> lo_level (lg_loggers s ! a) \<Longrightarrow> lo_level (lg_loggers s ! a) \<le> FATAL \<Longrightarrow>
     \<exists>t s'. Logger_toYamlString lib a s = Inr (t, s')
       \<and> LogDefine_from lib t = Inr (forget_levels (describe s a))"
proof -
  assume r: "log_reachable f s" and a: "a < length (lg_loggers s)" and y: "yaml_ok lib"
    and lv: "UNKNOW \<le> lo_level (lg_loggers s ! a)" "lo_level (lg_loggers s ! a) \<le> FATAL"
  let ?l = "lg_loggers s ! a"
  have good: "good_logger s ?l" using inv_logger [OF log_reachable_inv [OF r] a] .
  then obtain fm where fm: "lo_formatter ?l = Some fm" by (auto simp: good_logger_def)
  let ?ns = "map (\<lambda>p. saved_appender (lg_appenders s ! p)) (lo_appenders ?l)"
  have ps: "list_all (\<lambda>p. p < length (lg_appenders s)) (lo_appenders ?l)"
    using good by (auto simp: good_logger_def good_appender_def list_all_iff)
  obtain t where t: "appender_nodes lib (lo_appenders ?l) s = Inr (?ns, print t s)"
    using appender_nodes_saved [OF y ps] by blast
  have "res_map (appender_from lib) ?ns
      = Inr (map (\<lambda>p. Some (forget_level (describe_appender (lg_appenders s ! p)))) (lo_appenders ?l))"
    using good by (auto simp: res_map_map good_logger_def good_appender_def list_all_iff
        intro!: res_map_Inr saved_appender_read)
  from appenders_from_seq [OF this]
  have aps: "appenders_from lib (Seq ?ns)
      = Inr (map (\<lambda>p. forget_level (describe_appender (lg_appenders s ! p))) (lo_appenders ?l))"
    by (simp add: map_filter_Some)
  let ?n = "Map ([entry ''name'' (lo_name ?l), entry ''level'' (ToString (lo_level ?l)),
      entry ''formatter'' (fm_pattern fm)] @ (if ?ns = [] then [] else [(Scalar ''appenders'', Seq ?ns)]))"
  have "Logger_toYamlString lib a s = Inr (Emit lib ?n, print t s)"
    using t fm a by (simp add: Logger_toYamlString_def deref_def)
  moreover have "LogDefine_from lib (Emit lib ?n) = Inr (forget_levels (describe s a))"
    using y aps lv FromString_ToString [OF lv] fm
    by (cases "lo_appenders ?l")
      (auto simp: LogDefine_from_def opt_string_def entry_def forget_levels_def describe_def Let_def)
  ultimately show ?thesis by blast
qed

theorem saved_logger_describes_it_witness:
  "\<exists>s t s'. LoggerManager_ctor = Inr s \<and> Logger_toYamlString plain_lib 0 s = Inr (t, s')
     \<and> LogDefine_from plain_lib t = Inr
         \<lparr>ld_name = ''root'', ld_level = DEBUG, ld_formatter = default_pattern,
          ld_appenders = [\<lparr>la_type = 2, la_level = UNKNOW, la_formatter = [], la_file = []\<rparr>]\<rparr>"
proof -
  obtain s where s: "LoggerManager_ctor = Inr s" "log_reachable (\<lambda>_ _. []) s"
    using manager_reachable by blast
  have p: "fm_pattern (LogFormatter_ctor x) = x" for x
    by (simp add: LogFormatter_ctor_def split: prod.split)
  have l: "0 < length (lg_loggers s)" "UNKNOW \<le> lo_level (lg_loggers s ! 0)"
    "lo_level (lg_loggers s ! 0) \<le> FATAL"
    using s(1) by (auto simp: manager_state Logger_ctor_def level_defs)
  have "forget_levels (describe s 0) =
      \<lparr>ld_name = ''root'', ld_level = DEBUG, ld_formatter = default_pattern,
       ld_appenders = [\<lparr>la_type = 2, la_level = UNKNOW, la_formatter = [], la_file = []\<rparr>]\<rparr>"
    using s(1) by (auto simp: manager_state describe_def forget_levels_def forget_level_def
        describe_appender_def Logger_ctor_def LogAppender_init_def p)
  then show ?thesis
    using s(1) saved_logger_describes_it [OF s(2) l(1) plain_ok l(2,3)] by auto
qed


end
