(* ===== verification/Mutex_Lock.thy ===== *)
theory Mutex_Lock
  imports Prelude
begin

text \<open>
  Semaphores, mutexes and their scoped guards (\<open>mutex.h\<close>, \<open>mutex.cc\<close>).  The POSIX objects behind
  them are modelled by what their documentation says a program can rely on: a mutex or spin
  lock is free or taken, a read-write lock has readers or one writer, a semaphore counts.  An
  operation that would block is \<open>None\<close>; unlocking what is not locked is undefined.  What a guard
  needs of the object it locks is the locale \<open>lockable\<close>.
\<close>

section \<open>The locks\<close>

type_synonym mutex = bool

definition Mutex_ctor :: mutex where "Mutex_ctor = False"

definition Mutex_lock :: "mutex \<Rightarrow> mutex option" where
  "Mutex_lock m = (if m then None else Some True)"

definition Mutex_unlock :: "mutex \<Rightarrow> mutex res" where
  "Mutex_unlock m = (if m then Inr False else Inl (Undefined ''unlock of a free mutex''))"

definition Spinlock_ctor :: mutex where "Spinlock_ctor = False"

definition Spinlock_lock :: "mutex \<Rightarrow> mutex option" where
  "Spinlock_lock m = (if m then None else Some True)"

definition Spinlock_unlock :: "mutex \<Rightarrow> mutex res" where
  "Spinlock_unlock m = (if m then Inr False else Inl (Undefined ''unlock of a free lock''))"

record rwmutex =
  rw_readers :: nat
  rw_writer :: bool

definition RWMutex_ctor :: rwmutex where
  "RWMutex_ctor = \<lparr>rw_readers = 0, rw_writer = False\<rparr>"

definition rdlock :: "rwmutex \<Rightarrow> rwmutex option" where
  "rdlock m = (if rw_writer m then None else Some (m\<lparr>rw_readers := rw_readers m + 1\<rparr>))"

definition wrlock :: "rwmutex \<Rightarrow> rwmutex option" where
  "wrlock m = (if rw_writer m \<or> rw_readers m > 0 then None else Some (m\<lparr>rw_writer := True\<rparr>))"

definition RWMutex_unlock :: "rwmutex \<Rightarrow> rwmutex res" where
  "RWMutex_unlock m =
     (if rw_writer m then Inr (m\<lparr>rw_writer := False\<rparr>)
      else if rw_readers m > 0 then Inr (m\<lparr>rw_readers := rw_readers m - 1\<rparr>)
      else Inl (Undefined ''unlock of a free lock''))"

section \<open>Scoped guards\<close>

text \<open>A guard is its flag \<open>m_locked\<close>; its operations act on the mutex it refers to.  The three
  classes differ in the operation that locks.\<close>

definition ScopedLockImpl_ctor :: "('m \<Rightarrow> 'm option) \<Rightarrow> 'm \<Rightarrow> ('m \<times> bool) option" where
  "ScopedLockImpl_ctor lock m = (case lock m of None \<Rightarrow> None | Some m' \<Rightarrow> Some (m', True))"

definition ScopedLockImpl_lock :: "('m \<Rightarrow> 'm option) \<Rightarrow> 'm \<times> bool \<Rightarrow> ('m \<times> bool) option" where
  "ScopedLockImpl_lock lock g =
     (case g of
        (m, locked) \<Rightarrow>
          if \<not> locked then (case lock m of None \<Rightarrow> None | Some m' \<Rightarrow> Some (m', True)) else Some g)"

definition ScopedLockImpl_unlock :: "('m \<Rightarrow> 'm res) \<Rightarrow> 'm \<times> bool \<Rightarrow> ('m \<times> bool) res" where
  "ScopedLockImpl_unlock unlock g =
     (case g of
        (m, locked) \<Rightarrow> if locked then res_bind (unlock m) (\<lambda>m'. Inr (m', False)) else Inr g)"

definition ScopedLockImpl_dtor :: "('m \<Rightarrow> 'm res) \<Rightarrow> 'm \<times> bool \<Rightarrow> 'm res" where
  "ScopedLockImpl_dtor unlock g = res_bind (ScopedLockImpl_unlock unlock g) (\<lambda>(m, _). Inr m)"

definition ReadScopedLockImpl_ctor :: "rwmutex \<Rightarrow> (rwmutex \<times> bool) option" where
  "ReadScopedLockImpl_ctor = ScopedLockImpl_ctor rdlock"

definition ReadScopedLockImpl_lock :: "rwmutex \<times> bool \<Rightarrow> (rwmutex \<times> bool) option" where
  "ReadScopedLockImpl_lock = ScopedLockImpl_lock rdlock"

definition ReadScopedLockImpl_unlock :: "rwmutex \<times> bool \<Rightarrow> (rwmutex \<times> bool) res" where
  "ReadScopedLockImpl_unlock = ScopedLockImpl_unlock RWMutex_unlock"

definition ReadScopedLockImpl_dtor :: "rwmutex \<times> bool \<Rightarrow> rwmutex res" where
  "ReadScopedLockImpl_dtor = ScopedLockImpl_dtor RWMutex_unlock"

definition WriteScopedLockImpl_ctor :: "rwmutex \<Rightarrow> (rwmutex \<times> bool) option" where
  "WriteScopedLockImpl_ctor = ScopedLockImpl_ctor wrlock"

definition WriteScopedLockImpl_lock :: "rwmutex \<times> bool \<Rightarrow> (rwmutex \<times> bool) option" where
  "WriteScopedLockImpl_lock = ScopedLockImpl_lock wrlock"

definition WriteScopedLockImpl_unlock :: "rwmutex \<times> bool \<Rightarrow> (rwmutex \<times> bool) res" where
  "WriteScopedLockImpl_unlock = ScopedLockImpl_unlock RWMutex_unlock"

definition WriteScopedLockImpl_dtor :: "rwmutex \<times> bool \<Rightarrow> rwmutex res" where
  "WriteScopedLockImpl_dtor = ScopedLockImpl_dtor RWMutex_unlock"

section \<open>What a guard needs\<close>

text \<open>A body of code between a guard's construction and its destruction: a sequence of calls of
  \<open>lock\<close> and \<open>unlock\<close> on it, \<open>None\<close> where one blocks.\<close>

datatype guard_call = Lock | Unlock

fun guard_calls ::
  "('m \<Rightarrow> 'm option) \<Rightarrow> ('m \<Rightarrow> 'm res) \<Rightarrow> guard_call list \<Rightarrow> 'm \<times> bool \<Rightarrow> ('m \<times> bool) option res" where
  "guard_calls lock unlock [] g = Inr (Some g)"
| "guard_calls lock unlock (Lock # cs) g =
     (case ScopedLockImpl_lock lock g of
        None \<Rightarrow> Inr None
      | Some g' \<Rightarrow> guard_calls lock unlock cs g')"
| "guard_calls lock unlock (Unlock # cs) g =
     res_bind (ScopedLockImpl_unlock unlock g) (guard_calls lock unlock cs)"

definition guarded ::
  "('m \<Rightarrow> 'm option) \<Rightarrow> ('m \<Rightarrow> 'm res) \<Rightarrow> guard_call list \<Rightarrow> 'm \<Rightarrow> 'm option res" where
  "guarded lock unlock cs m =
     (case ScopedLockImpl_ctor lock m of
        None \<Rightarrow> Inr None
      | Some g \<Rightarrow>
          res_bind (guard_calls lock unlock cs g) (\<lambda>r.
            case r of
              None \<Rightarrow> Inr None
            | Some g' \<Rightarrow> res_bind (ScopedLockImpl_dtor unlock g') (\<lambda>m'. Inr (Some m'))))"

locale lockable =
  fixes lock :: "'m \<Rightarrow> 'm option" and unlock :: "'m \<Rightarrow> 'm res"
  assumes unlock_lock: "lock m = Some m' \<Longrightarrow> unlock m' = Inr m"
begin

lemma calls_balanced:
  assumes "lock m0 = Some m1" and "g = (m1, True) \<or> g = (m0, False)"
  shows "\<exists>g'. guard_calls lock unlock cs g = Inr (Some g') \<and> (g' = (m1, True) \<or> g' = (m0, False))"
  using assms(2)
proof (induction cs arbitrary: g)
  case (Cons c cs)
  have l: "ScopedLockImpl_lock lock g = Some (m1, True)"
    using Cons.prems assms(1) by (auto simp: ScopedLockImpl_lock_def)
  have u: "ScopedLockImpl_unlock unlock g = Inr (m0, False)"
    using Cons.prems unlock_lock [OF assms(1)] by (auto simp: ScopedLockImpl_unlock_def)
  show ?case
    using Cons.IH [of "(m1, True)"] Cons.IH [of "(m0, False)"] l u by (cases c) simp_all
qed auto

lemma balanced:
  "guarded lock unlock cs m = Inr (case lock m of None \<Rightarrow> None | Some _ \<Rightarrow> Some m)"
proof (cases "lock m")
  case (Some m1)
  obtain g' where "guard_calls lock unlock cs (m1, True) = Inr (Some g')"
    "g' = (m1, True) \<or> g' = (m, False)"
    using calls_balanced [OF Some, of "(m1, True)" cs] by blast
  then show ?thesis
    using Some unlock_lock [OF Some]
    by (auto simp: guarded_def ScopedLockImpl_ctor_def ScopedLockImpl_dtor_def ScopedLockImpl_unlock_def)
qed (simp add: guarded_def ScopedLockImpl_ctor_def)

end

interpretation mutex: lockable Mutex_lock Mutex_unlock
  by unfold_locales (auto simp: Mutex_lock_def Mutex_unlock_def split: if_splits)

interpretation spinlock: lockable Spinlock_lock Spinlock_unlock
  by unfold_locales (auto simp: Spinlock_lock_def Spinlock_unlock_def split: if_splits)

interpretation reader: lockable rdlock RWMutex_unlock
  by unfold_locales (auto simp: rdlock_def RWMutex_unlock_def split: if_splits)

interpretation writer: lockable wrlock RWMutex_unlock
  by unfold_locales (auto simp: wrlock_def RWMutex_unlock_def split: if_splits)

section \<open>Many guards on one lock\<close>

text \<open>A read-write lock and the guards that exist on it, each a reader's or a writer's; the
  steps of different threads interleave at the guards' operations.\<close>

datatype guard_kind = Reader | Writer

record rw_system =
  sy_lock :: rwmutex
  sy_guards :: "(guard_kind \<times> bool) list"

definition kind_ctor :: "guard_kind \<Rightarrow> rwmutex \<Rightarrow> (rwmutex \<times> bool) option" where
  "kind_ctor k = (case k of Reader \<Rightarrow> ReadScopedLockImpl_ctor | Writer \<Rightarrow> WriteScopedLockImpl_ctor)"

definition kind_lock :: "guard_kind \<Rightarrow> rwmutex \<times> bool \<Rightarrow> (rwmutex \<times> bool) option" where
  "kind_lock k = (case k of Reader \<Rightarrow> ReadScopedLockImpl_lock | Writer \<Rightarrow> WriteScopedLockImpl_lock)"

definition kind_unlock :: "guard_kind \<Rightarrow> rwmutex \<times> bool \<Rightarrow> (rwmutex \<times> bool) res" where
  "kind_unlock k =
     (case k of Reader \<Rightarrow> ReadScopedLockImpl_unlock | Writer \<Rightarrow> WriteScopedLockImpl_unlock)"

inductive rw_step :: "rw_system \<Rightarrow> rw_system \<Rightarrow> bool" where
  s_ctor:
    "kind_ctor k (sy_lock s) = Some (m, b) \<Longrightarrow>
     rw_step s (s\<lparr>sy_lock := m, sy_guards := sy_guards s @ [(k, b)]\<rparr>)"
| s_lock:
    "i < length (sy_guards s) \<Longrightarrow> sy_guards s ! i = (k, b) \<Longrightarrow>
     kind_lock k (sy_lock s, b) = Some (m, b') \<Longrightarrow>
     rw_step s (s\<lparr>sy_lock := m, sy_guards := (sy_guards s)[i := (k, b')]\<rparr>)"
| s_unlock:
    "i < length (sy_guards s) \<Longrightarrow> sy_guards s ! i = (k, b) \<Longrightarrow>
     kind_unlock k (sy_lock s, b) = Inr (m, b') \<Longrightarrow>
     rw_step s (s\<lparr>sy_lock := m, sy_guards := (sy_guards s)[i := (k, b')]\<rparr>)"

definition rw_start :: rw_system where
  "rw_start = \<lparr>sy_lock = RWMutex_ctor, sy_guards = []\<rparr>"

definition holders :: "guard_kind \<Rightarrow> (guard_kind \<times> bool) list \<Rightarrow> nat" where
  "holders k gs = length (filter (\<lambda>g. g = (k, True)) gs)"

definition rw_inv :: "rw_system \<Rightarrow> bool" where
  "rw_inv s \<longleftrightarrow>
     rw_readers (sy_lock s) = holders Reader (sy_guards s)
     \<and> of_bool (rw_writer (sy_lock s)) = holders Writer (sy_guards s)
     \<and> (rw_writer (sy_lock s) \<longrightarrow> rw_readers (sy_lock s) = 0)"

lemma holders_append: "holders k (gs @ [g]) = holders k gs + of_bool (g = (k, True))"
  by (simp add: holders_def)

lemma holders_update:
  "i < length gs \<Longrightarrow>
   holders k (gs[i := g]) + of_bool (gs ! i = (k, True)) = holders k gs + of_bool (g = (k, True))"
proof (induction gs arbitrary: i)
  case (Cons h gs)
  then show ?case by (cases i) (auto simp: holders_def)
qed simp

lemma holders_pos: "g \<in> set gs \<Longrightarrow> g = (k, True) \<Longrightarrow> holders k gs > 0"
  by (auto simp: holders_def filter_empty_conv)

lemmas kind_ops =
  kind_ctor_def kind_lock_def kind_unlock_def ReadScopedLockImpl_ctor_def ReadScopedLockImpl_lock_def
  ReadScopedLockImpl_unlock_def WriteScopedLockImpl_ctor_def WriteScopedLockImpl_lock_def
  WriteScopedLockImpl_unlock_def ScopedLockImpl_ctor_def ScopedLockImpl_lock_def
  ScopedLockImpl_unlock_def rdlock_def wrlock_def RWMutex_unlock_def


lemma rw_inv_start: "rw_inv rw_start"
  by (simp add: rw_inv_def rw_start_def RWMutex_ctor_def holders_def)

lemma rw_inv_step: "rw_step s s' \<Longrightarrow> rw_inv s \<Longrightarrow> rw_inv s'"
proof (induction rule: rw_step.induct)
  case (s_ctor k s m b)
  then show ?case
    by (cases k) (auto simp: rw_inv_def holders_append kind_ops split: if_splits)
next
  case (s_lock i s k b m b')
  then show ?case
    using holders_update [of i "sy_guards s" Reader "(k, b')"]
      holders_update [of i "sy_guards s" Writer "(k, b')"]
    by (cases k; cases b) (auto simp: rw_inv_def kind_ops split: if_splits)
next
  case (s_unlock i s k b m b')
  have pos: "b \<Longrightarrow> holders k (sy_guards s) > 0"
    using s_unlock(1,2) nth_mem [OF s_unlock(1)] by (auto intro: holders_pos)
  show ?case
    using s_unlock pos holders_update [of i "sy_guards s" Reader "(k, b')"]
      holders_update [of i "sy_guards s" Writer "(k, b')"]
    by (cases k; cases b) (auto simp: rw_inv_def kind_ops split: if_splits)
qed

lemma rw_reachable_inv: "rw_step\<^sup>*\<^sup>* rw_start s \<Longrightarrow> rw_inv s"
  by (induction rule: rtranclp_induct) (auto intro: rw_inv_start rw_inv_step)

lemma holders_two:
  "i < length gs \<Longrightarrow> j < length gs \<Longrightarrow> i \<noteq> j \<Longrightarrow> gs ! i = (k, True) \<Longrightarrow> gs ! j = (k, True) \<Longrightarrow>
   holders k gs \<ge> 2"
proof -
  assume a: "i < length gs" "j < length gs" "i \<noteq> j" "gs ! i = (k, True)" "gs ! j = (k, True)"
  have "{i, j} \<subseteq> {x. x < length gs \<and> gs ! x = (k, True)}" using a by auto
  then have "card {i, j} \<le> card {x. x < length gs \<and> gs ! x = (k, True)}"
    by (rule card_mono [rotated]) simp
  then show ?thesis using a(3) by (simp add: holders_def length_filter_conv_card)
qed

section \<open>Semaphores\<close>

text \<open>\<open>wait\<close> returns at once when \<open>sem_wait\<close> fails (a signal interrupts it), without having
  taken a unit; \<open>None\<close> where it blocks.  \<open>sem_max\<close> is \<open>SEM_VALUE_MAX\<close>.\<close>

type_synonym semaphore = nat

definition Semaphore_ctor :: "nat \<Rightarrow> nat \<Rightarrow> semaphore res" where
  "Semaphore_ctor sem_max count =
     (if count \<le> sem_max then Inr count else Inl (Throws ''sem_init error''))"

definition Semaphore_wait :: "bool \<Rightarrow> semaphore \<Rightarrow> semaphore option" where
  "Semaphore_wait interrupted s =
     (if interrupted then Some s else if s > 0 then Some (s - 1) else None)"

definition Semaphore_notify :: "nat \<Rightarrow> semaphore \<Rightarrow> semaphore res" where
  "Semaphore_notify sem_max s =
     (if s < sem_max then Inr (s + 1) else Inl (Throws ''sem_post error''))"

section \<open>Properties\<close>



text \<open>A scope with a guard is balanced on every lock of the code: if the constructor gets the
  lock, no sequence of \<open>lock\<close> and \<open>unlock\<close> calls on the guard blocks or unlocks twice, and after
  the destructor the lock is as it was before.\<close>

theorem guards_are_balanced:
  "guarded Mutex_lock Mutex_unlock cs m = Inr (case Mutex_lock m of None \<Rightarrow> None | Some _ \<Rightarrow> Some m)
   \<and> guarded Spinlock_lock Spinlock_unlock cs m = Inr (case Spinlock_lock m of None \<Rightarrow> None | Some _ \<Rightarrow> Some m)
   \<and> guarded rdlock RWMutex_unlock cs rw = Inr (case rdlock rw of None \<Rightarrow> None | Some _ \<Rightarrow> Some rw)
   \<and> guarded wrlock RWMutex_unlock cs rw = Inr (case wrlock rw of None \<Rightarrow> None | Some _ \<Rightarrow> Some rw)"
  by (intro conjI mutex.balanced spinlock.balanced reader.balanced writer.balanced)

end
