(* ===== verification/Thread_Util.thy ===== *)
theory Thread_Util
  imports Mutex_Lock
begin

text \<open>
  Threads (\<open>thread.h\<close>, \<open>thread.cc\<close>) and the helper functions of \<open>util.cc\<close>.  Starting a thread is a
  protocol between the creator, which waits on the object's semaphore, and the new thread,
  which fills in the object before it posts it; both are step by step here.  The results of
  the \<open>pthread\<close> and system calls are arguments.
\<close>

section \<open>Threads\<close>

text \<open>A function is an identifier; 0 stands for an empty \<open>pthread_t\<close>, \<open>None\<close> for an empty
  \<open>std::function\<close>.\<close>

record thread =
  th_id :: int
  th_thread :: nat
  th_cb :: "nat option"
  th_name :: string
  th_semaphore :: semaphore

text \<open>The thread-local variables.\<close>

record thread_local =
  t_thread :: "addr option"
  t_thread_name :: string

definition initial_local :: thread_local where
  "initial_local = \<lparr>t_thread = None, t_thread_name = ''UNKOWN''\<rparr>"

definition Thread_GetThis :: "thread_local \<Rightarrow> addr option" where
  "Thread_GetThis loc = t_thread loc"

definition GetName :: "thread_local \<Rightarrow> string" where
  "GetName loc = t_thread_name loc"

text \<open>\<open>SetName\<close> on the thread objects (a pointer is a position) and the caller's variables.\<close>

definition SetName :: "string \<Rightarrow> thread list \<times> thread_local \<Rightarrow> thread list \<times> thread_local" where
  "SetName name st =
     (case st of
        (ths, loc) \<Rightarrow>
          ((case t_thread loc of Some a \<Rightarrow> ths[a := (ths ! a)\<lparr>th_name := name\<rparr>] | None \<Rightarrow> ths),
           loc\<lparr>t_thread_name := name\<rparr>))"

text \<open>The constructor up to \<open>pthread_create\<close>, which returns \<open>rt\<close> and stores \<open>handle\<close>.\<close>

definition Thread_ctor :: "nat \<Rightarrow> string \<Rightarrow> int \<Rightarrow> nat \<Rightarrow> thread res" where
  "Thread_ctor cb name rt handle =
     (let th = \<lparr>th_id = - 1, th_thread = 0, th_cb = Some cb,
                th_name = (if name = [] then ''UNKNOW'' else name), th_semaphore = 0\<rparr>
      in if rt \<noteq> 0 then Inl (Throws ''pthread_create error'')
         else Inr (th\<lparr>th_thread := handle\<rparr>))"

text \<open>\<open>run\<close> on the object at \<open>self\<close> up to the post: the object, the thread's variables, the name
  given to the kernel and the callback it will call.\<close>

definition run_init ::
  "addr \<Rightarrow> int \<Rightarrow> thread \<Rightarrow> thread_local \<Rightarrow> thread \<times> thread_local \<times> string \<times> nat option" where
  "run_init self tid th loc =
     (let loc1 = loc\<lparr>t_thread := Some self\<rparr>;
          th1 = th\<lparr>th_id := tid\<rparr>;
          loc2 = loc1\<lparr>t_thread_name := th_name th1\<rparr>;
          system_name = take 15 (th_name th1);
          cb = th_cb th1
      in (th1\<lparr>th_cb := None\<rparr>, loc2, system_name, cb))"

definition run_notify :: "nat \<Rightarrow> thread \<Rightarrow> thread res" where
  "run_notify sem_max th =
     res_bind (Semaphore_notify sem_max (th_semaphore th)) (\<lambda>s. Inr (th\<lparr>th_semaphore := s\<rparr>))"

definition Thread_join :: "int \<Rightarrow> thread \<Rightarrow> thread res" where
  "Thread_join rt th =
     (if th_thread th \<noteq> 0 then
        (if rt \<noteq> 0 then Inl (Throws ''pthread_join error'') else Inr (th\<lparr>th_thread := 0\<rparr>))
      else Inr th)"

text \<open>The destructor: the thread it detaches, if any.\<close>

definition Thread_dtor :: "thread \<Rightarrow> nat option" where
  "Thread_dtor th = (if th_thread th \<noteq> 0 then Some (th_thread th) else None)"

section \<open>The start protocol\<close>

text \<open>Where the creator and the new thread are: the creator waits in the constructor or has
  returned from it, the thread has done nothing, has filled in the object, or has posted and
  runs the callback.\<close>

datatype creator = Waiting | Returned
datatype runner = Fresh | Filled | Running

record start_state =
  ss_thread :: thread
  ss_local :: thread_local
  ss_creator :: creator
  ss_runner :: runner
  ss_callback :: "nat option"
  ss_interrupted :: bool

inductive start_step :: "nat \<Rightarrow> addr \<Rightarrow> int \<Rightarrow> start_state \<Rightarrow> start_state \<Rightarrow> bool"
  for sem_max self tid where
  fill:
    "ss_runner s = Fresh \<Longrightarrow> run_init self tid (ss_thread s) (ss_local s) = (th, loc, sysname, cb) \<Longrightarrow>
     start_step sem_max self tid s
       (s\<lparr>ss_thread := th, ss_local := loc, ss_runner := Filled, ss_callback := cb\<rparr>)"
| post:
    "ss_runner s = Filled \<Longrightarrow> run_notify sem_max (ss_thread s) = Inr th \<Longrightarrow>
     start_step sem_max self tid s (s\<lparr>ss_thread := th, ss_runner := Running\<rparr>)"
| wait:
    "ss_creator s = Waiting \<Longrightarrow>
     Semaphore_wait interrupted (th_semaphore (ss_thread s)) = Some n \<Longrightarrow>
     start_step sem_max self tid s
       (s\<lparr>ss_thread := (ss_thread s)\<lparr>th_semaphore := n\<rparr>, ss_creator := Returned,
          ss_interrupted := ss_interrupted s \<or> interrupted\<rparr>)"

definition start_of :: "thread \<Rightarrow> start_state" where
  "start_of th =
     \<lparr>ss_thread = th, ss_local = initial_local, ss_creator = Waiting, ss_runner = Fresh,
      ss_callback = None, ss_interrupted = False\<rparr>"

definition start_inv :: "nat \<Rightarrow> string \<Rightarrow> int \<Rightarrow> start_state \<Rightarrow> bool" where
  "start_inv cb name tid s \<longleftrightarrow>
     th_name (ss_thread s) = name
     \<and> (case ss_runner s of
          Fresh \<Rightarrow> th_cb (ss_thread s) = Some cb \<and> th_semaphore (ss_thread s) = 0
        | Filled \<Rightarrow> th_semaphore (ss_thread s) = 0
        | Running \<Rightarrow> True)
     \<and> (ss_runner s \<noteq> Fresh \<longrightarrow>
          th_id (ss_thread s) = tid \<and> th_cb (ss_thread s) = None \<and> ss_callback s = Some cb
          \<and> GetName (ss_local s) = name)
     \<and> (ss_creator s = Returned \<and> \<not> ss_interrupted s \<longrightarrow> ss_runner s = Running)"

lemma start_inv_step: "start_step sem_max self tid s s' \<Longrightarrow> start_inv cb name tid s \<Longrightarrow> start_inv cb name tid s'"
proof (induction rule: start_step.induct)
  case (fill s th loc sysname cb')
  then show ?case by (auto simp: start_inv_def run_init_def Let_def GetName_def)
next
  case (post s th)
  then show ?case by (auto simp: start_inv_def run_notify_def Semaphore_notify_def split: if_splits)
next
  case (wait s interrupted n)
  then show ?case
    by (auto simp: start_inv_def Semaphore_wait_def split: if_splits runner.splits)
qed

section \<open>Helper functions\<close>

text \<open>\<open>Backtrace\<close>: \<open>symbols\<close> is what \<open>backtrace_symbols\<close> returned for the frames; the index is a
  \<open>size_t\<close>, so a negative \<open>skip\<close> is a huge one.\<close>

definition Backtrace :: "string list option \<Rightarrow> int \<Rightarrow> string list \<Rightarrow> string list" where
  "Backtrace symbols skip bt =
     (case symbols of
        None \<Rightarrow> bt
      | Some frames \<Rightarrow> bt @ drop (unat (word_of_int skip :: u64)) frames)"

definition BacktraceToString :: "string list option \<Rightarrow> int \<Rightarrow> string \<Rightarrow> string" where
  "BacktraceToString symbols skip prefix =
     concat (map (\<lambda>i. prefix @ i @ [char_of (10 :: nat)]) (Backtrace symbols skip []))"

text \<open>\<open>gettimeofday\<close> gives the seconds and microseconds.\<close>

definition GetCurrentMS :: "u64 \<Rightarrow> u64 \<Rightarrow> u64" where
  "GetCurrentMS tv_sec tv_usec = tv_sec * 1000 + tv_usec div 1000"

definition GetCurrentUS :: "u64 \<Rightarrow> u64 \<Rightarrow> u64" where
  "GetCurrentUS tv_sec tv_usec = tv_sec * 1000000 + tv_usec"

section \<open>Properties\<close>

text \<open>C40: The constructor of a thread returns only when the new thread has filled in its object:
  the kernel id is known, the callback has been taken over exactly once, and the thread's
  name is set; unless the wait was interrupted by a signal, in which case nothing of this is
  guaranteed.\<close>

theorem thread_start_handshake:
  "Thread_ctor cb name 0 handle = Inr th \<Longrightarrow> (start_step sem_max self tid)\<^sup>*\<^sup>* (start_of th) s \<Longrightarrow>
   ss_creator s = Returned \<Longrightarrow> \<not> ss_interrupted s \<Longrightarrow>
     th_id (ss_thread s) = tid \<and> ss_callback s = Some cb \<and> th_cb (ss_thread s) = None
     \<and> GetName (ss_local s) = (if name = [] then ''UNKNOW'' else name)"
proof -
  assume c: "Thread_ctor cb name 0 handle = Inr th"
    and r: "(start_step sem_max self tid)\<^sup>*\<^sup>* (start_of th) s"
    and e: "ss_creator s = Returned" "\<not> ss_interrupted s"
  let ?name = "if name = [] then ''UNKNOW'' else name"
  have i: "start_inv cb ?name tid (start_of th)"
    using c by (auto simp: start_inv_def start_of_def Thread_ctor_def Let_def)
  from r have "start_inv cb ?name tid s"
    by (induction rule: rtranclp_induct) (use i in \<open>auto intro: start_inv_step\<close>)
  then show ?thesis using e by (simp add: start_inv_def)
qed

theorem thread_start_handshake_witness:
  "\<exists>th s. Thread_ctor 5 ''io'' 0 77 = Inr th \<and> (start_step 10 0 42)\<^sup>*\<^sup>* (start_of th) s
     \<and> ss_creator s = Returned \<and> th_id (ss_thread s) = 42"
proof -
  let ?th = "\<lparr>th_id = - 1, th_thread = 77, th_cb = Some 5, th_name = ''io'', th_semaphore = 0\<rparr>"
  let ?th2 = "\<lparr>th_id = 42, th_thread = 77, th_cb = None, th_name = ''io'', th_semaphore = 0\<rparr>"
  let ?loc = "\<lparr>t_thread = Some 0, t_thread_name = ''io''\<rparr>"
  let ?s1 = "\<lparr>ss_thread = ?th2, ss_local = ?loc, ss_creator = Waiting, ss_runner = Filled,
      ss_callback = Some 5, ss_interrupted = False\<rparr>"
  let ?s2 = "?s1\<lparr>ss_thread := ?th2\<lparr>th_semaphore := 1\<rparr>, ss_runner := Running\<rparr>"
  let ?s3 = "?s2\<lparr>ss_thread := ?th2, ss_creator := Returned\<rparr>"
  have c: "Thread_ctor 5 ''io'' 0 77 = Inr ?th" by (simp add: Thread_ctor_def)
  have "start_step 10 0 42 (start_of ?th) ?s1"
    using fill [of "start_of ?th" 0 42 ?th2 ?loc "''io''" "Some 5" 10]
    by (simp add: start_of_def run_init_def initial_local_def Let_def)
  moreover have "start_step 10 0 42 ?s1 ?s2"
    using post [of ?s1 10 "?th2\<lparr>th_semaphore := 1\<rparr>" 0 42]
    by (simp add: run_notify_def Semaphore_notify_def)
  moreover have "start_step 10 0 42 ?s2 ?s3"
    using wait [of ?s2 False 0 10 0 42] by (simp add: Semaphore_wait_def)
  ultimately have r: "(start_step 10 0 42)\<^sup>*\<^sup>* (start_of ?th) ?s3"
    by (meson r_into_rtranclp rtranclp_trans)
  show ?thesis
    using c r thread_start_handshake [OF c r] by (intro exI [of _ ?th] exI [of _ ?s3]) simp
qed

text \<open>A thread object gives up its handle exactly once: after a successful \<open>join\<close> another one
  does nothing whatever it would return, and the destructor detaches nothing; without a
  \<open>join\<close> the destructor detaches the thread.\<close>

theorem join_or_detach_once:
  "Thread_join 0 th = Inr (th\<lparr>th_thread := 0\<rparr>)
   \<and> Thread_join rt (th\<lparr>th_thread := 0\<rparr>) = Inr (th\<lparr>th_thread := 0\<rparr>)
   \<and> Thread_dtor (th\<lparr>th_thread := 0\<rparr>) = None
   \<and> (th_thread th \<noteq> 0 \<longrightarrow> Thread_dtor th = Some (th_thread th))"
  by (cases th) (simp add: Thread_join_def Thread_dtor_def)

lemma clocks_agree:
  assumes "unat tv_sec < 2 ^ 43" and "unat tv_usec < 1000000"
  shows "unat (GetCurrentMS tv_sec tv_usec) = unat (GetCurrentUS tv_sec tv_usec) div 1000"
proof -
  have s: "unat (tv_sec * 1000) = unat tv_sec * 1000" "unat (tv_sec * 1000000) = unat tv_sec * 1000000"
    using assms(1) by (simp_all add: unat_mult_lem [THEN iffD1])
  have u: "unat (tv_usec div 1000) = unat tv_usec div 1000" by (simp add: unat_div)
  have "unat (GetCurrentMS tv_sec tv_usec) = unat tv_sec * 1000 + unat tv_usec div 1000"
    unfolding GetCurrentMS_def using assms s(1) u by (subst unat_add_lem [THEN iffD1]) simp_all
  moreover have "unat (GetCurrentUS tv_sec tv_usec) = unat tv_sec * 1000000 + unat tv_usec"
    unfolding GetCurrentUS_def using assms s(2) by (subst unat_add_lem [THEN iffD1]) simp_all
  ultimately show ?thesis by simp
qed

end
