(* ===== verification/IO_Registry.thy ===== *)
theory IO_Registry
  imports IO_Properties "HOL-Library.Multiset"
begin

text \<open>
  The abstract specification of the IO manager: a registry of waiters.  A waiter is a task with
  the scheduler it belongs to; it is registered for a descriptor and an event, and leaves the
  registry when it is deleted or when it is handed to its scheduler.  The calls of the IO
  manager refine the operations of the registry, their failures included; so no waiter is
  lost and none is handed over twice.
\<close>

section \<open>The registry\<close>

type_synonym 'cb waiter = "addr \<times> 'cb timer_fn task"

text \<open>The registry of the manager at address \<open>rg_this\<close>: its waiters, its own scheduler and the
  tasks given to other schedulers.\<close>

record 'cb registry =
  rg_this :: addr
  rg_wait :: "nat \<times> u32 \<rightharpoonup> 'cb waiter"
  rg_sched :: "'cb timer_fn scheduler"
  rg_out :: "'cb waiter list"

fun hand_over :: "'cb waiter \<Rightarrow> 'cb registry \<Rightarrow> 'cb registry" where
  "hand_over (sc, t) R =
     (if sc = rg_this R then R\<lparr>rg_sched := schedule t (rg_sched R)\<rparr>
      else R\<lparr>rg_out := rg_out R @ [(sc, t)]\<rparr>)"

definition forget :: "nat \<Rightarrow> u32 \<Rightarrow> 'cb registry \<Rightarrow> 'cb registry" where
  "forget n e R = R\<lparr>rg_wait := (rg_wait R)((n, e) := None)\<rparr>"

definition resume :: "nat \<Rightarrow> u32 \<Rightarrow> 'cb registry \<Rightarrow> 'cb registry" where
  "resume n e R =
     (case rg_wait R (n, e) of None \<Rightarrow> R | Some w \<Rightarrow> hand_over w (forget n e R))"

text \<open>A call of the IO manager, with the results of the system call it makes.\<close>

datatype 'cb io_call =
    Add fd u32 "'cb timer_fn option" "addr option" "addr \<times> fiber_state" int
  | Del fd u32 int
  | Cancel fd u32 int
  | Cancel_all fd int

text \<open>What each call promises; \<open>rt\<close> is the kernel's answer.\<close>

fun spec_do :: "'cb io_call \<Rightarrow> 'cb registry \<Rightarrow> (int \<times> 'cb registry) res" where
  "spec_do (Add fd e cb sched cur rt) R =
     (if rg_wait R (nat fd, e) \<noteq> None then Inl (Abort ''!(fd_ctx->events & event)'')
      else if rt \<noteq> 0 then Inr (-1, R)
      else if cb = None \<and> snd cur \<noteq> EXEC then
        Inl (Abort ''event_ctx.fiber->getState() == Fiber::EXEC'')
      else Inr (0, R\<lparr>rg_wait := (rg_wait R)((nat fd, e) \<mapsto> (the sched, resumption cb (fst cur)))\<rparr>))"
| "spec_do (Del fd e rt) R =
     (if rg_wait R (nat fd, e) = None \<or> rt \<noteq> 0 then Inr (0, R) else Inr (1, forget (nat fd) e R))"
| "spec_do (Cancel fd e rt) R =
     (if rg_wait R (nat fd, e) = None \<or> rt \<noteq> 0 then Inr (0, R) else Inr (1, resume (nat fd) e R))"
| "spec_do (Cancel_all fd rt) R =
     (if rg_wait R (nat fd, READ) = None \<and> rg_wait R (nat fd, WRITE) = None \<or> rt \<noteq> 0 then Inr (0, R)
      else Inr (1, resume (nat fd) WRITE (resume (nat fd) READ R)))"

text \<open>The calls of the manager, a Boolean result as 0 or 1.\<close>

fun io_do :: "'cb io_call \<Rightarrow> 'cb io_manager \<Rightarrow> (int \<times> 'cb io_manager) res" where
  "io_do (Add fd e cb sched cur rt) io = addEvent fd e cb sched cur rt io"
| "io_do (Del fd e rt) io = res_bind (delEvent fd e rt io) (\<lambda>(r, io). Inr (of_bool r, io))"
| "io_do (Cancel fd e rt) io = res_bind (cancelEvent fd e rt io) (\<lambda>(r, io). Inr (of_bool r, io))"
| "io_do (Cancel_all fd rt) io = res_bind (cancelAll fd rt io) (\<lambda>(r, io). Inr (of_bool r, io))"

text \<open>A valid call names a descriptor and one of the two events, and is made under a scheduler.\<close>

fun valid_call :: "'cb io_call \<Rightarrow> bool" where
  "valid_call (Add fd e cb sched cur rt) \<longleftrightarrow> 0 \<le> fd \<and> e \<in> {READ, WRITE} \<and> sched \<noteq> None"
| "valid_call (Del fd e rt) \<longleftrightarrow> 0 \<le> fd \<and> e \<in> {READ, WRITE}"
| "valid_call (Cancel fd e rt) \<longleftrightarrow> 0 \<le> fd \<and> e \<in> {READ, WRITE}"
| "valid_call (Cancel_all fd rt) \<longleftrightarrow> 0 \<le> fd"

section \<open>The registry a manager implements\<close>

definition waiter_of :: "'cb event_context \<Rightarrow> 'cb waiter" where
  "waiter_of ec = (the (ec_scheduler ec), waiter_task ec)"

definition ctx_waits :: "'cb fd_context \<Rightarrow> u32 \<rightharpoonup> 'cb waiter" where
  "ctx_waits fc e =
     (if (e = READ \<or> e = WRITE) \<and> has fc e then Some (waiter_of (ectx fc e)) else None)"

definition waits :: "'cb io_manager \<Rightarrow> nat \<times> u32 \<rightharpoonup> 'cb waiter" where
  "waits io = (\<lambda>(n, e). if n < length (m_fdContexts io)
                         then ctx_waits (io_ctx io (m_fdContexts io ! n)) e else None)"

definition abs_io :: "'cb io_manager \<Rightarrow> 'cb registry" where
  "abs_io io = \<lparr>rg_this = io_this io, rg_wait = waits io, rg_sched = io_sched io, rg_out = io_posted io\<rparr>"

abbreviation abs_result :: "('x \<times> 'cb io_manager) res \<Rightarrow> ('x \<times> 'cb registry) res" where
  "abs_result \<equiv> map_sum id (map_prod id abs_io)"

lemma ctx_waits_registered:
  assumes "fc_inv fc" and "e = READ \<or> e = WRITE" and "\<not> has fc e"
  shows "ctx_waits (registered e w fc) = (ctx_waits fc)(e \<mapsto> waiter_of w)"
  using assms by (elim fc_cases; elim disjE)
    (auto simp: fun_eq_iff ctx_waits_def registered_def setContext_def ectx_def has_def ev_defs)

lemma ctx_waits_cleared:
  assumes "fc_inv fc" and "e = READ \<or> e = WRITE"
  shows "ctx_waits (cleared e fc) = (ctx_waits fc)(e := None)"
  using assms by (elim fc_cases; elim disjE)
    (auto simp: fun_eq_iff ctx_waits_def cleared_def setContext_def ectx_def has_def ev_defs)

lemma ctx_waits_None:
  assumes "fc_inv fc" and "e = READ \<or> e = WRITE"
  shows "ctx_waits fc e = None \<longleftrightarrow> \<not> has fc e"
  using assms by (auto simp: ctx_waits_def)

text \<open>The operations on the parts the registry sees.\<close>

lemma waits_cong:
  "m_fdContexts io' = m_fdContexts io \<Longrightarrow> io_ctx io' = io_ctx io \<Longrightarrow> waits io' = waits io"
  by (simp add: waits_def cong: if_cong)

lemma waits_set_ctx:
  assumes "distinct (m_fdContexts io)" and "n < length (m_fdContexts io)" and "p = m_fdContexts io ! n"
  shows "waits (set_ctx p fc io) = (\<lambda>(m, e). if m = n then ctx_waits fc e else waits io (m, e))"
  using assms by (auto simp: fun_eq_iff waits_def nth_eq_iff_index_eq)

lemma io_tickles_fields [simp]:
  "io_sched ((io_tickle ^^ k) io) = io_sched io" "io_posted ((io_tickle ^^ k) io) = io_posted io"
  "io_this ((io_tickle ^^ k) io) = io_this io"
  by (induction k) (simp_all add: io_tickle_def)

lemma abs_post: "abs_io (post sc t io) = hand_over (sc, t) (abs_io io)"
proof -
  have "waits (post sc t io) = waits io"
    using post_same_table [of io sc t] by (intro waits_cong) (simp_all add: same_table_def)
  moreover have "io_this (post sc t io) = io_this io"
    "io_sched (post sc t io) = (if sc = io_this io then schedule t (io_sched io) else io_sched io)"
    "io_posted (post sc t io) = (if sc = io_this io then io_posted io else io_posted io @ [(sc, t)])"
    by (simp_all add: post_def on_sched_def Let_def)
  ultimately show ?thesis by (simp add: abs_io_def)
qed

lemma abs_cong:
  assumes "io_this io' = io_this io" "io_sched io' = io_sched io" "io_posted io' = io_posted io"
    "m_fdContexts io' = m_fdContexts io" "io_ctx io' = io_ctx io"
  shows "abs_io io' = abs_io io"
  using assms waits_cong [of io' io] by (simp add: abs_io_def)

lemma abs_log [simp]:
  "abs_io (epoll_ctl op n evs rt io) = abs_io io" "abs_io (del_call p fd e rt io) = abs_io io"
  "abs_io (io\<lparr>m_pendingEventCount := k\<rparr>) = abs_io io"
  "abs_io (set_ctx q fc (io\<lparr>m_pendingEventCount := k\<rparr>)) = abs_io (set_ctx q fc io)"
  "abs_io (set_ctx q fc (epoll_ctl op n evs rt io)) = abs_io (set_ctx q fc io)"
  "abs_io (set_ctx q fc (del_call p fd e rt io)) = abs_io (set_ctx q fc io)"
  by (rule abs_cong; simp add: del_call_def set_ctx_def epoll_ctl_def)+

lemma waits_grow:
  assumes inv: "io_inv io" and n: "length (m_fdContexts io) \<le> k"
  shows "waits (contextResize k io) = waits io"
proof (rule ext, clarify)
  fix n e
  let ?io = "contextResize k io"
  have old: "io_ctx ?io q = io_ctx io q" if "q \<in> set (m_fdContexts io)" for q
    using inv that by (auto simp: contextResize_grow [OF n] with_new_def io_inv_def)
  have new: "io_ctx ?io (m_fdContexts ?io ! n) = new_fd_context n"
    if "length (m_fdContexts io) \<le> n" "n < k"
    using that by (auto simp: contextResize_grow [OF n] with_new_def nth_append)
  have nth: "m_fdContexts ?io ! n = m_fdContexts io ! n" if "n < length (m_fdContexts io)"
    using that by (simp add: contextResize_grow [OF n] nth_append)
  have len: "length (m_fdContexts ?io) = k" by (rule io_inv_grow(2) [OF inv n])
  have emp: "ctx_waits (new_fd_context n) e = None" by (simp add: ctx_waits_def has_def fc_inv_new)
  consider "n < length (m_fdContexts io)" | "length (m_fdContexts io) \<le> n" "n < k" | "k \<le> n" by linarith
  then show "waits ?io (n, e) = waits io (n, e)"
  proof cases
    case 1
    then show ?thesis using old [of "m_fdContexts io ! n"] nth n len by (simp add: waits_def)
  next
    case 2
    then show ?thesis using new emp by (simp add: waits_def len)
  next
    case 3
    then show ?thesis using n by (simp add: waits_def len)
  qed
qed

section \<open>Each call refines its specification\<close>

text \<open>The context of a descriptor in the table.\<close>

lemma waits_at:
  assumes "n < length (m_fdContexts io)" and "p = m_fdContexts io ! n"
  shows "waits io (n, e) = ctx_waits (io_ctx io p) e"
  using assms by (simp add: waits_def)

lemma abs_set_ctx:
  assumes "distinct (m_fdContexts io)" and "n < length (m_fdContexts io)" and "p = m_fdContexts io ! n"
    and "ctx_waits fc = (ctx_waits (io_ctx io p))(e := w)"
  shows "abs_io (set_ctx p fc io) = (abs_io io)\<lparr>rg_wait := (rg_wait (abs_io io))((n, e) := w)\<rparr>"
proof -
  have "waits (set_ctx p fc io) = (waits io)((n, e) := w)"
    unfolding waits_set_ctx [OF assms(1-3)] assms(4)
    using waits_at [OF assms(2,3)] by (auto simp: fun_eq_iff)
  then show ?thesis by (simp add: abs_io_def) (simp add: set_ctx_def)
qed

lemma abs_cleared:
  assumes d: "distinct (m_fdContexts io)" and n: "n < length (m_fdContexts io)" "p = m_fdContexts io ! n"
    and fc: "fc_inv (io_ctx io p)" and e: "e = READ \<or> e = WRITE"
  shows "abs_io (set_ctx p (cleared e (io_ctx io p)) io) = forget n e (abs_io io)"
  using abs_set_ctx [OF d n ctx_waits_cleared [OF fc e]] by (simp add: forget_def)

lemma rg_wait_at:
  assumes "n < length (m_fdContexts io)" and "p = m_fdContexts io ! n"
    and "fc_inv (io_ctx io p)" and "e = READ \<or> e = WRITE"
  shows "rg_wait (abs_io io) (n, e)
    = (if has (io_ctx io p) e then Some (waiter_of (ectx (io_ctx io p) e)) else None)"
  using waits_at [OF assms(1,2), of e] assms(4) by (auto simp: abs_io_def ctx_waits_def)

text \<open>Handing the waiter of a registered event over.\<close>

lemma resume_at:
  assumes "distinct (m_fdContexts io)" and "n < length (m_fdContexts io)" "p = m_fdContexts io ! n"
    and "fc_inv (io_ctx io p)" and "e = READ \<or> e = WRITE" and "has (io_ctx io p) e"
  shows "hand_over (waiter_of (ectx (io_ctx io p) e)) (abs_io (set_ctx p (cleared e (io_ctx io p)) io))
    = resume n e (abs_io io)"
  using assms(6) by (simp add: resume_def rg_wait_at [OF assms(2-5)] abs_cleared [OF assms(1-5)])

lemma io_inv_at:
  assumes "io_inv io" and "n < length (m_fdContexts io)" and "p = m_fdContexts io ! n"
  shows "distinct (m_fdContexts io)" "fc_inv (io_ctx io p)"
  using assms io_inv_ctx(1) [OF assms(1,2)] by (simp_all add: io_inv_def)

lemma addEvent_on_refines:
  assumes inv: "io_inv io" and n: "nat fd < length (m_fdContexts io)" "p = m_fdContexts io ! nat fd"
    and e: "e = READ \<or> e = WRITE"
  shows "abs_result (addEvent_on p fd e cb sched cur rt io) = spec_do (Add fd e cb sched cur rt) (abs_io io)"
proof -
  let ?fc = "io_ctx io p"
  note d = io_inv_at(1) [OF inv n] and fc = io_inv_at(2) [OF inv n]
  have w: "rg_wait (abs_io io) (nat fd, e) = ctx_waits ?fc e" using waits_at [OF n] by (simp add: abs_io_def)
  show ?thesis
  proof (cases "has ?fc e")
    case True
    then show ?thesis using ctx_waits_None [OF fc e]
      by (simp add: w) (simp add: addEvent_on_def has_def Let_def)
  next
    case False
    then have none: "rg_wait (abs_io io) (nat fd, e) = None" using ctx_waits_None [OF fc e] by (simp add: w)
    show ?thesis
    proof (cases "cb = None \<and> snd cur \<noteq> EXEC")
      case True
      have ec: "ectx ?fc e = empty_ectx" by (rule fc_inv_has(2) [OF fc e False])
      then show ?thesis using True False none
        by (simp add: addEvent_on_def has_def Let_def getContext_ok [OF e] empty_ectx_def)
    next
      case c: False
      have "waiter_of (new_waiter cb sched (fst cur)) = (the sched, resumption cb (fst cur))"
        by (simp add: waiter_of_def new_waiter_def waiter_task_def resumption_def)
      with abs_set_ctx [OF d n ctx_waits_registered [OF fc e False], of "new_waiter cb sched (fst cur)"]
      show ?thesis using c none addEvent_on_ok [OF fc e False, of cb cur fd sched rt]
        by (auto simp del: fun_upd_apply)
    qed
  qed
qed

lemma addEvent_refines:
  assumes inv: "io_inv io" and fd: "0 \<le> fd" and e: "e = READ \<or> e = WRITE"
  shows "abs_result (addEvent fd e cb sched cur rt io) = spec_do (Add fd e cb sched cur rt) (abs_io io)"
proof (cases "fd < int (length (m_fdContexts io))")
  case True
  then have n: "nat fd < length (m_fdContexts io)" using fd by simp
  show ?thesis using addEvent_on_refines [OF inv n refl e] True context_at_in [OF fd True]
    by (simp add: addEvent_def addEvent_lookup_def)
next
  case False
  from addEvent_grow_result [OF inv False] obtain io1 where
    g: "addEvent_grow fd io = Inr (m_fdContexts io1 ! nat fd, io1)" "io_inv io1"
      "nat fd < length (m_fdContexts io1)" "io1 = contextResize (nat (3 * fd div 2)) io" .
  have "length (m_fdContexts io) \<le> nat (3 * fd div 2)" using False fd by linarith
  then have "abs_io io1 = abs_io io"
    using waits_grow [OF inv, of "nat (3 * fd div 2)"]
    by (simp add: g(4) abs_io_def) (simp add: contextResize_grow with_new_def)
  then show ?thesis using addEvent_on_refines [OF g(2,3) refl e] g(1) False
    by (simp add: addEvent_def addEvent_lookup_def)
qed

lemma delEvent_refines:
  assumes inv: "io_inv io" and fd: "0 \<le> fd" and e: "e = READ \<or> e = WRITE"
  shows "abs_result (io_do (Del fd e rt) io) = spec_do (Del fd e rt) (abs_io io)"
proof (cases "fd < int (length (m_fdContexts io))")
  case True
  then have n: "nat fd < length (m_fdContexts io)" using fd by simp
  note at = io_inv_at [OF inv n refl]
  show ?thesis
    using True context_at_in [OF fd True] rg_wait_at [OF n refl at(2) e] abs_cleared [OF at(1) n refl at(2) e]
    by (simp add: delEvent_def delEvent_on_ok [OF e])
next
  case False
  then show ?thesis using fd by (simp add: delEvent_def abs_io_def waits_def nat_less_iff)
qed

lemma cancelEvent_refines:
  assumes inv: "io_inv io" and fd: "0 \<le> fd" and e: "e = READ \<or> e = WRITE"
  shows "abs_result (io_do (Cancel fd e rt) io) = spec_do (Cancel fd e rt) (abs_io io)"
proof (cases "fd < int (length (m_fdContexts io))")
  case True
  then have n: "nat fd < length (m_fdContexts io)" using fd by simp
  note at = io_inv_at [OF inv n refl]
  show ?thesis
    using True context_at_in [OF fd True] rg_wait_at [OF n refl at(2) e]
      resume_at [OF at(1) n refl at(2) e]
    by (simp add: cancelEvent_def cancelEvent_on_ok [OF at(2) e] abs_post waiter_of_def del: hand_over.simps)
next
  case False
  then show ?thesis using fd by (simp add: cancelEvent_def abs_io_def waits_def nat_less_iff)
qed

text \<open>Triggering an event, when the context has it.\<close>

lemma trigger_if_refines:
  assumes "distinct (m_fdContexts io)" and n: "n < length (m_fdContexts io)" "p = m_fdContexts io ! n"
    and fc: "fc_inv (io_ctx io p)" and e: "e = READ \<or> e = WRITE" and h: "c \<Longrightarrow> has (io_ctx io p) e"
  obtains io' where "trigger_if c p e io = Inr io'"
    "abs_io io' = (if c then resume n e (abs_io io) else abs_io io)"
    "m_fdContexts io' = m_fdContexts io"
    "io_ctx io' = (if c then (io_ctx io)(p := cleared e (io_ctx io p)) else io_ctx io)"
proof -
  obtain io' where t: "trigger_if c p e io = Inr io'"
    using trigger_ok [OF fc e] h by (cases c) (auto simp: trigger_if_def)
  have "abs_io io' = (if c then resume n e (abs_io io) else abs_io io)"
    using t h trigger_ok [OF fc e] resume_at [OF assms(1) n fc e]
    by (auto simp: trigger_if_def abs_post waiter_of_def simp del: hand_over.simps split: if_splits)
  with t trigger_if_result(2,6) [OF fc e t] show thesis by (intro that) auto
qed

lemma resume_none: "rg_wait R (n, e) = None \<Longrightarrow> resume n e R = R"
  by (simp add: resume_def)

lemma rg_wait_resume [simp]:
  "rg_wait (resume n e R) = (rg_wait R)((n, e) := None)"
proof (cases "rg_wait R (n, e)")
  case None
  then show ?thesis by (auto simp: resume_def)
next
  case (Some w)
  then show ?thesis by (cases w) (simp add: resume_def forget_def)
qed

text \<open>Handing over the waiter of an event that may have none.\<close>

lemma trigger_resumes:
  assumes d: "distinct (m_fdContexts io)" and n: "n < length (m_fdContexts io)" "p = m_fdContexts io ! n"
    and fc: "fc_inv (io_ctx io p)" and e: "e = READ \<or> e = WRITE"
  obtains io' where "trigger_if (has (io_ctx io p) e) p e io = Inr io'" "abs_io io' = resume n e (abs_io io)"
    "m_fdContexts io' = m_fdContexts io"
    "io_ctx io' = (if has (io_ctx io p) e then (io_ctx io)(p := cleared e (io_ctx io p)) else io_ctx io)"
    "fc_inv (io_ctx io' p)"
proof -
  obtain io' where t: "trigger_if (has (io_ctx io p) e) p e io = Inr io'"
    "abs_io io' = (if has (io_ctx io p) e then resume n e (abs_io io) else abs_io io)"
    "m_fdContexts io' = m_fdContexts io"
    "io_ctx io' = (if has (io_ctx io p) e then (io_ctx io)(p := cleared e (io_ctx io p)) else io_ctx io)"
    by (rule trigger_if_refines [OF d n fc e]) auto
  have "abs_io io' = resume n e (abs_io io)"
    using t(2) rg_wait_at [OF n fc e] by (auto simp: resume_none)
  moreover have "fc_inv (io_ctx io' p)" using fc fc_inv_cleared [OF fc e] by (simp add: t(4))
  ultimately show thesis using that t by blast
qed

lemma cancelAll_on_resumes:
  assumes d: "distinct (m_fdContexts io)" and n: "nat fd < length (m_fdContexts io)" "p = m_fdContexts io ! nat fd"
    and fc: "fc_inv (io_ctx io p)" and some: "fc_events (io_ctx io p) \<noteq> 0" and rt: "rt = 0"
  shows "\<exists>io'. cancelAll_on p fd rt io = Inr (True, io')
    \<and> abs_io io' = resume (nat fd) WRITE (resume (nat fd) READ (abs_io io))"
proof -
  let ?io1 = "epoll_ctl CTL_DEL (nat fd) 0 rt io"
  have at1: "distinct (m_fdContexts ?io1)" "nat fd < length (m_fdContexts ?io1)"
    "p = m_fdContexts ?io1 ! nat fd" "fc_inv (io_ctx ?io1 p)" using d n fc by simp_all
  obtain io2 where t2: "trigger_if (has (io_ctx ?io1 p) READ) p READ ?io1 = Inr io2"
    "abs_io io2 = resume (nat fd) READ (abs_io ?io1)" "m_fdContexts io2 = m_fdContexts ?io1"
    "io_ctx io2 = (if has (io_ctx ?io1 p) READ then (io_ctx ?io1)(p := cleared READ (io_ctx ?io1 p)) else io_ctx ?io1)"
    "fc_inv (io_ctx io2 p)"
    by (rule trigger_resumes [OF at1, of READ]) simp
  have at2: "distinct (m_fdContexts io2)" "nat fd < length (m_fdContexts io2)" "p = m_fdContexts io2 ! nat fd"
    using d n by (simp_all add: t2(3))
  obtain io3 where t3: "trigger_if (has (io_ctx io2 p) WRITE) p WRITE io2 = Inr io3"
    "abs_io io3 = resume (nat fd) WRITE (abs_io io2)"
    "io_ctx io3 = (if has (io_ctx io2 p) WRITE then (io_ctx io2)(p := cleared WRITE (io_ctx io2 p)) else io_ctx io2)"
    by (rule trigger_resumes [OF at2 t2(5), of WRITE]) simp
  have "fc_events (io_ctx io3 p) = 0"
    using fc by (elim fc_cases) (simp_all add: t3(3) t2(4) has_def READ_def WRITE_def)
  then have "cancelAll_on p fd rt io = Inr (True, io3)"
    using some rt t2(1) t3(1) by (simp add: cancelAll_on_def Let_def has_def)
  then show ?thesis using t2(2) t3(2) by simp
qed

lemma cancelAll_refines:
  assumes inv: "io_inv io" and fd: "0 \<le> fd"
  shows "abs_result (io_do (Cancel_all fd rt) io) = spec_do (Cancel_all fd rt) (abs_io io)"
proof (cases "fd < int (length (m_fdContexts io))")
  case True
  define p where "p = m_fdContexts io ! nat fd"
  have n: "nat fd < length (m_fdContexts io)" using fd True by simp
  note at = io_inv_at [OF inv n p_def]
  have none: "rg_wait (abs_io io) (nat fd, READ) = None \<and> rg_wait (abs_io io) (nat fd, WRITE) = None
      \<longleftrightarrow> fc_events (io_ctx io p) = 0"
    using at(2) rg_wait_at [OF n p_def at(2), of READ] rg_wait_at [OF n p_def at(2), of WRITE]
    by (elim fc_cases) (simp_all add: has_def READ_def WRITE_def)
  have call: "io_do (Cancel_all fd rt) io = res_bind (cancelAll_on p fd rt io) (\<lambda>(r, io). Inr (of_bool r, io))"
    using True context_at_in [OF fd True] by (simp add: cancelAll_def p_def)
  show ?thesis
  proof (cases "fc_events (io_ctx io p) = 0 \<or> rt \<noteq> 0")
    case True
    then show ?thesis unfolding call using none by (auto simp: cancelAll_on_def Let_def)
  next
    case False
    let ?io1 = "epoll_ctl CTL_DEL (nat fd) 0 rt io"
    obtain io3 where "cancelAll_on p fd rt io = Inr (True, io3)"
      "abs_io io3 = resume (nat fd) WRITE (resume (nat fd) READ (abs_io io))"
      using cancelAll_on_resumes [OF at(1) n p_def at(2), of rt] False by auto
    then show ?thesis unfolding call using False none by auto
  qed
next
  case False
  then show ?thesis using fd by (simp add: cancelAll_def abs_io_def waits_def nat_less_iff)
qed

text \<open>The interface: a set of calls that keeps the invariant and refines the specification.\<close>

lemma io_do_refines:
  assumes "io_inv io" and "valid_call c"
  shows "abs_result (io_do c io) = spec_do c (abs_io io)"
  using assms by (cases c)
    (auto simp only: valid_call.simps insert_iff empty_iff simp_thms io_do.simps(1)
      intro!: addEvent_refines delEvent_refines cancelEvent_refines cancelAll_refines)

lemma io_do_inv:
  assumes "io_inv io" and "valid_call c" and "io_do c io = Inr (r, io')"
  shows "io_inv io'"
proof -
  have "io_step io io'" using assms(2,3) by (cases c) (auto intro: io_step.intros)
  then show ?thesis using assms(1) by (rule io_step_inv)
qed

section \<open>The reports of the kernel\<close>

text \<open>The loop acts on a report for descriptor \<open>n\<close> with the events \<open>m\<close>: nothing if none of them is
  registered, otherwise each is handed over; one that is not registered aborts.\<close>

definition spec_report :: "nat \<Rightarrow> u32 \<Rightarrow> int \<Rightarrow> 'cb registry \<Rightarrow> 'cb registry res" where
  "spec_report n m rt R =
     (let hit = (\<lambda>e. m AND e \<noteq> 0 \<and> rg_wait R (n, e) \<noteq> None);
          miss = (\<lambda>e. m AND e \<noteq> 0 \<and> rg_wait R (n, e) = None)
      in if \<not> hit READ \<and> \<not> hit WRITE \<or> rt \<noteq> 0 then Inr R
         else if miss READ \<or> miss WRITE then Inl (Abort ''events & event'')
         else
           let R1 = (if m AND READ \<noteq> 0 then resume n READ R else R)
           in Inr (if m AND WRITE \<noteq> 0 then resume n WRITE R1 else R1))"

lemma trigger_if_miss:
  "c \<Longrightarrow> \<not> has (io_ctx io p) e \<Longrightarrow> trigger_if c p e io = Inl (Abort ''events & event'')"
  by (simp add: trigger_if_def trigger_def triggerEvent_not)

text \<open>Triggering both events, the missing ones included.\<close>

lemma trigger_both_refines:
  assumes d: "distinct (m_fdContexts io)" and n: "n < length (m_fdContexts io)" "p = m_fdContexts io ! n"
    and fc: "fc_inv (io_ctx io p)"
  shows "map_sum id abs_io (res_bind (trigger_if r p READ io) (trigger_if w p WRITE)) =
     (if r \<and> \<not> has (io_ctx io p) READ \<or> w \<and> \<not> has (io_ctx io p) WRITE then Inl (Abort ''events & event'')
      else let R1 = (if r then resume n READ (abs_io io) else abs_io io)
           in Inr (if w then resume n WRITE R1 else R1))"
proof (cases "r \<and> \<not> has (io_ctx io p) READ")
  case True
  then show ?thesis by (simp add: trigger_if_miss)
next
  case rok: False
  obtain io2 where t2: "trigger_if r p READ io = Inr io2"
    "abs_io io2 = (if r then resume n READ (abs_io io) else abs_io io)"
    "m_fdContexts io2 = m_fdContexts io"
    "io_ctx io2 = (if r then (io_ctx io)(p := cleared READ (io_ctx io p)) else io_ctx io)"
    by (rule trigger_if_refines [OF d n fc, of READ r]) (use rok in simp_all)
  have at2: "distinct (m_fdContexts io2)" "fc_inv (io_ctx io2 p)"
    using d fc fc_inv_cleared [OF fc, of READ] by (simp_all add: t2)
  have h: "has (io_ctx io2 p) WRITE \<longleftrightarrow> has (io_ctx io p) WRITE"
    using fc by (elim fc_cases) (simp_all add: t2(4) has_def READ_def WRITE_def)
  show ?thesis
  proof (cases "w \<and> \<not> has (io_ctx io p) WRITE")
    case True
    then show ?thesis using t2(1) by (simp add: trigger_if_miss h)
  next
    case wok: False
    obtain io3 where "trigger_if w p WRITE io2 = Inr io3"
      "abs_io io3 = (if w then resume n WRITE (abs_io io2) else abs_io io2)"
      by (rule trigger_if_refines [OF at2(1) _ _ at2(2), of n WRITE w]) (use n wok h t2(3) in simp_all)
    then show ?thesis using rok wok t2(1,2) by (simp add: Let_def)
  qed
qed

lemma process_event_refines:
  assumes inv: "io_inv io" and n: "n < length (m_fdContexts io)" "p = m_fdContexts io ! n"
  shows "map_sum id abs_io (process_event (Ctx p, evs, rt) io) = spec_report n (report_mask evs) rt (abs_io io)"
proof -
  let ?fc = "io_ctx io p" and ?m = "report_mask evs"
  let ?r = "reported evs EPOLLIN" and ?w = "reported evs EPOLLOUT"
  let ?left = "fc_events ?fc AND NOT ?m"
  let ?io1 = "epoll_ctl (if ?left \<noteq> 0 then CTL_MOD else CTL_DEL) (fc_fd ?fc) (EPOLLET OR ?left) rt io"
  note at = io_inv_at [OF inv n]
  have none: "fc_events ?fc AND ?m = 0 \<longleftrightarrow> \<not> (?r \<and> has ?fc READ) \<and> \<not> (?w \<and> has ?fc WRITE)"
    using at(2) by (elim fc_cases) (simp_all add: report_mask_def has_def READ_def WRITE_def)
  have R: "rg_wait (abs_io io) (n, READ) = None \<longleftrightarrow> \<not> has ?fc READ"
    and W: "rg_wait (abs_io io) (n, WRITE) = None \<longleftrightarrow> \<not> has ?fc WRITE"
    by (simp_all add: rg_wait_at [OF n at(2)])
  have m: "?m AND READ \<noteq> 0 \<longleftrightarrow> ?r" "?m AND WRITE \<noteq> 0 \<longleftrightarrow> ?w"
    by (simp_all add: report_mask_def mask_bits)
  have "map_sum id abs_io (process_event (Ctx p, evs, rt) io) =
      (if \<not> (?r \<and> has ?fc READ) \<and> \<not> (?w \<and> has ?fc WRITE) \<or> rt \<noteq> 0 then Inr (abs_io io)
       else map_sum id abs_io (res_bind (trigger_if ?r p READ ?io1) (trigger_if ?w p WRITE)))"
    unfolding process_event_Ctx Let_def none by auto
  also have "map_sum id abs_io (res_bind (trigger_if ?r p READ ?io1) (trigger_if ?w p WRITE)) =
      (if ?r \<and> \<not> has ?fc READ \<or> ?w \<and> \<not> has ?fc WRITE then Inl (Abort ''events & event'')
       else let R1 = (if ?r then resume n READ (abs_io io) else abs_io io)
            in Inr (if ?w then resume n WRITE R1 else R1))"
    by (subst trigger_both_refines [of _ n]) (use at n in simp_all)
  finally show ?thesis
    unfolding spec_report_def Let_def m R W not_not .
qed

section \<open>Runs\<close>

text \<open>A sequence of operations with the values they return.\<close>

fun run_calls :: "('c \<Rightarrow> 's \<Rightarrow> (int \<times> 's) res) \<Rightarrow> 'c list \<Rightarrow> 's \<Rightarrow> (int list \<times> 's) res" where
  "run_calls f [] s = Inr ([], s)"
| "run_calls f (c # cs) s =
     res_bind (f c s) (\<lambda>(r, s1). res_bind (run_calls f cs s1) (\<lambda>(rs, s2). Inr (r # rs, s2)))"

text \<open>The contract of a set of operations of the manager: they keep the invariant and refine
  their specification.\<close>

locale waiter_registry =
  fixes exec :: "'c \<Rightarrow> 'cb io_manager \<Rightarrow> (int \<times> 'cb io_manager) res"
    and spec :: "'c \<Rightarrow> 'cb registry \<Rightarrow> (int \<times> 'cb registry) res"
    and ok :: "'c \<Rightarrow> bool"
  assumes exec_inv: "io_inv io \<Longrightarrow> ok c \<Longrightarrow> exec c io = Inr (r, io') \<Longrightarrow> io_inv io'"
    and exec_refines: "io_inv io \<Longrightarrow> ok c \<Longrightarrow> abs_result (exec c io) = spec c (abs_io io)"
begin

lemma run_inv:
  "io_inv io \<Longrightarrow> list_all ok cs \<Longrightarrow> run_calls exec cs io = Inr (rs, io') \<Longrightarrow> io_inv io'"
proof (induction cs arbitrary: io rs)
  case (Cons c cs)
  then obtain r io1 rs' where "exec c io = Inr (r, io1)" "run_calls exec cs io1 = Inr (rs', io')"
    by auto
  with Cons show ?case using exec_inv [of io c r io1] by simp
qed simp

lemma run_refines:
  "io_inv io \<Longrightarrow> list_all ok cs \<Longrightarrow>
     map_sum id (map_prod id abs_io) (run_calls exec cs io) = run_calls spec cs (abs_io io)"
proof (induction cs arbitrary: io)
  case (Cons c cs)
  have s: "spec c (abs_io io) = abs_result (exec c io)" using exec_refines Cons.prems by simp
  show ?case
  proof (cases "exec c io")
    case (Inl f)
    then show ?thesis by (simp add: s)
  next
    case (Inr ri)
    then obtain r io1 where e: "exec c io = Inr (r, io1)" by (cases ri) auto
    then have "io_inv io1" using exec_inv Cons.prems by auto
    then have i: "run_calls spec cs (abs_io io1) = map_sum id (map_prod id abs_io) (run_calls exec cs io1)"
      using Cons.IH Cons.prems by (intro sym [OF Cons.IH]) simp_all
    show ?thesis by (cases "run_calls exec cs io1") (auto simp: e s i)
  qed
qed simp

lemma run_interest:
  assumes "io_inv io" and "list_all ok cs" and "run_calls exec cs io = Inr (rs, io')"
  shows "accepted (io_ctl io') \<and> interest (io_ctl io') i =
    (if i < length (m_fdContexts io') \<and> fc_events (io_ctx io' (m_fdContexts io' ! i)) \<noteq> 0
     then Some (EPOLLET OR fc_events (io_ctx io' (m_fdContexts io' ! i))) else None)"
  using run_inv [OF assms] unfolding io_inv_def by blast

end

interpretation calls: waiter_registry io_do spec_do valid_call
  by unfold_locales (blast intro: io_do_inv, rule io_do_refines)

text \<open>The calls together with the reports the event loop handles; the kernel reports only
  contexts it was given.\<close>

datatype 'cb io_act = Call "'cb io_call" | Report nat u32 int

fun act_do :: "'cb io_act \<Rightarrow> 'cb io_manager \<Rightarrow> (int \<times> 'cb io_manager) res" where
  "act_do (Call c) io = io_do c io"
| "act_do (Report n evs rt) io =
     (if n < length (m_fdContexts io)
      then res_bind (process_event (Ctx (m_fdContexts io ! n), evs, rt) io) (\<lambda>io1. Inr (0, io1))
      else Inr (0, io))"

fun spec_act :: "'cb io_act \<Rightarrow> 'cb registry \<Rightarrow> (int \<times> 'cb registry) res" where
  "spec_act (Call c) R = spec_do c R"
| "spec_act (Report n evs rt) R = res_bind (spec_report n (report_mask evs) rt R) (\<lambda>R1. Inr (0, R1))"

fun valid_act :: "'cb io_act \<Rightarrow> bool" where
  "valid_act (Call c) = valid_call c"
| "valid_act (Report n evs rt) = True"

lemma act_refines:
  assumes "io_inv io" and "valid_act a"
  shows "abs_result (act_do a io) = spec_act a (abs_io io)"
proof (cases a)
  case (Call c)
  then show ?thesis using assms by (simp add: io_do_refines)
next
  case (Report n evs rt)
  show ?thesis
  proof (cases "n < length (m_fdContexts io)")
    case True
    show ?thesis unfolding Report act_do.simps spec_act.simps
        process_event_refines [OF assms(1) True refl, symmetric]
      by (cases "process_event (Ctx (m_fdContexts io ! n), evs, rt) io") (simp_all add: True)
  next
    case False
    then have "rg_wait (abs_io io) (n, e) = None" for e by (simp add: abs_io_def waits_def)
    then show ?thesis using False by (simp add: Report spec_report_def)
  qed
qed

lemma act_inv:
  assumes "io_inv io" and "valid_act a" and "act_do a io = Inr (r, io')"
  shows "io_inv io'"
  using assms io_do_inv [OF assms(1)] process_event_inv [OF assms(1) nth_mem]
  by (cases a) (auto split: if_splits)

interpretation acts: waiter_registry act_do spec_act valid_act
  by unfold_locales (blast intro: act_inv, rule act_refines)

text \<open>C14: the IO manager implements the registry.  From construction on, any sequence of calls
  with valid arguments and of kernel reports returns the values, and ends in the failures, that
  the specification gives from the empty registry, and leaves exactly the waiters, queued tasks
  and tasks for other schedulers that it says.\<close>

theorem io_manager_refines_registry:
  assumes "IOManager_ctor this s tm epfd rp fds rf rc ids = Inr io0" and "list_all valid_act as"
  shows "map_sum id (map_prod id abs_io) (run_calls act_do as io0) = run_calls spec_act as (abs_io io0)
    \<and> rg_wait (abs_io io0) = Map.empty"
proof
  note inv = ctor_inv [OF assms(1)]
  show "map_sum id (map_prod id abs_io) (run_calls act_do as io0) = run_calls spec_act as (abs_io io0)"
    by (rule acts.run_refines [OF inv assms(2)])
  show "rg_wait (abs_io io0) = Map.empty"
    using ctor_fields [OF assms(1)] by (auto simp: abs_io_def waits_def ctx_waits_def has_def fc_inv_new)
qed


section \<open>No waiter is lost or handed over twice\<close>

text \<open>The waiters a registry accounts for: those registered, those handed to other schedulers and
  the tasks in the queue of its own.\<close>

definition wait_mset :: "('k \<rightharpoonup> 'w) \<Rightarrow> 'w multiset" where
  "wait_mset m = image_mset (\<lambda>k. the (m k)) (mset_set (dom m))"

definition pool :: "'cb registry \<Rightarrow> 'cb waiter multiset" where
  "pool R = wait_mset (rg_wait R) + mset (rg_out R) + image_mset (Pair (rg_this R)) (mset (m_fibers (rg_sched R)))"

definition reg_ok :: "'cb registry \<Rightarrow> bool" where
  "reg_ok R \<longleftrightarrow> finite (dom (rg_wait R)) \<and> (\<forall>k w. rg_wait R k = Some w \<longrightarrow> nonempty (snd w))"

lemma nonempty_tasks [simp]: "nonempty (fiber_task (Some f) i)" "nonempty (cb_task (Some c) i)"
  by (simp_all add: nonempty_def fiber_task_def cb_task_def)

lemma wait_mset_remove:
  assumes "finite (dom m)" and "m k = Some w"
  shows "wait_mset m = add_mset w (wait_mset (m(k := None)))"
proof -
  have k: "k \<in> dom m" using assms(2) by auto
  have "image_mset (\<lambda>x. the (m x)) (mset_set (dom m - {k})) = image_mset (\<lambda>x. the ((m(k := None)) x)) (mset_set (dom m - {k}))"
    using assms(1) by (intro image_mset_cong) auto
  moreover have "dom (m(k := None)) = dom m - {k}" by auto
  moreover have "mset_set (dom m) = add_mset k (mset_set (dom m - {k}))"
    by (rule mset_set.remove [OF assms(1) k])
  ultimately show ?thesis by (simp add: wait_mset_def assms(2))
qed

lemma wait_mset_add:
  assumes "finite (dom m)" and "m k = None"
  shows "wait_mset (m(k \<mapsto> w)) = add_mset w (wait_mset m)"
proof -
  have "(m(k \<mapsto> w))(k := None) = m" using assms(2) by auto
  then show ?thesis using wait_mset_remove [of "m(k \<mapsto> w)" k w] assms(1) by simp
qed

lemma hand_over_pool:
  assumes "nonempty (snd w)"
  shows "pool (hand_over w R) = add_mset w (pool R)" "rg_wait (hand_over w R) = rg_wait R"
  using assms by (cases w; simp add: pool_def schedule_def scheduleNoLock_def tickle_def)+

lemma resume_ok:
  assumes "reg_ok R"
  shows "reg_ok (resume n e R)" "pool (resume n e R) = pool R"
proof -
  have fin: "finite (dom (rg_wait R))" using assms by (simp add: reg_ok_def)
  then have "finite (dom ((rg_wait R)((n, e) := None)))" by simp
  then show "reg_ok (resume n e R)" using assms by (auto simp: reg_ok_def)
  show "pool (resume n e R) = pool R"
  proof (cases "rg_wait R (n, e)")
    case None
    then show ?thesis by (simp add: resume_none)
  next
    case (Some w)
    then have "nonempty (snd w)" using assms unfolding reg_ok_def by blast
    then show ?thesis using wait_mset_remove [OF fin Some] Some
      by (simp add: resume_def hand_over_pool) (simp add: pool_def forget_def)
  qed
qed

text \<open>The waiter an operation with result \<open>r\<close> registers.\<close>

fun enrolled :: "'cb io_act \<Rightarrow> int \<Rightarrow> 'cb waiter list" where
  "enrolled (Call (Add fd e cb sched cur rt)) r = (if r = 0 then [(the sched, resumption cb (fst cur))] else [])"
| "enrolled _ r = []"

fun deletes :: "'cb io_act \<Rightarrow> bool" where
  "deletes (Call (Del fd e rt)) \<longleftrightarrow> True"
| "deletes _ \<longleftrightarrow> False"

lemma spec_act_pool:
  assumes ok: "reg_ok R" and "\<not> deletes a" and "spec_act a R = Inr (r, R')"
  shows "reg_ok R' \<and> pool R' = pool R + mset (enrolled a r)"
proof (cases a)
  case (Report n evs rt)
  then show ?thesis using assms(3) ok
    by (auto simp: spec_report_def Let_def resume_ok split: if_splits)
next
  case (Call c)
  show ?thesis
  proof (cases c)
    case (Add fd e cb sched cur rt)
    have fin: "finite (dom (rg_wait R))" using ok by (simp add: reg_ok_def)
    have ne: "nonempty (resumption cb x)" for cb :: "'a timer_fn option" and x
      by (cases cb) (simp_all add: resumption_def)
    from assms(3) have none: "rg_wait R (nat fd, e) = None"
      by (cases "rg_wait R (nat fd, e)") (auto simp: Call Add)
    show ?thesis using assms(3) ok ne wait_mset_add [OF fin none]
      by (auto simp: Call Add reg_ok_def pool_def none split: if_splits)
  next
    case (Del fd e rt)
    then show ?thesis using assms(2) Call by simp
  next
    case (Cancel fd e rt)
    then show ?thesis using assms(3) ok by (auto simp: Call resume_ok split: if_splits)
  next
    case (Cancel_all fd rt)
    then show ?thesis using assms(3) ok by (auto simp: Call resume_ok split: if_splits)
  qed
qed

lemma run_pool:
  assumes "reg_ok R" and "\<forall>a\<in>set as. \<not> deletes a" and "run_calls spec_act as R = Inr (rs, R')"
  shows "pool R' = pool R + mset (concat (map2 enrolled as rs))"
  using assms
proof (induction "as" arbitrary: R rs)
  case (Cons a as)
  then obtain r R1 rs' where 1: "spec_act a R = Inr (r, R1)" "run_calls spec_act as R1 = Inr (rs', R')"
    "rs = r # rs'" by auto
  have "reg_ok R1 \<and> pool R1 = pool R + mset (enrolled a r)"
    using spec_act_pool [OF Cons.prems(1) _ 1(1)] Cons.prems(2) by simp
  with Cons.IH [of R1 rs'] Cons.prems(2) 1 show ?case by simp
qed simp

lemma abs_ok:
  assumes inv: "io_inv io"
  shows "reg_ok (abs_io io)"
proof -
  have "dom (waits io) \<subseteq> {..<length (m_fdContexts io)} \<times> {READ, WRITE}"
    by (auto simp: waits_def ctx_waits_def split: if_splits)
  then have "finite (dom (waits io))" by (rule finite_subset) simp
  moreover have "nonempty (snd w)" if "waits io k = Some w" for k w
  proof -
    obtain n e where k: "k = (n, e)" by (cases k)
    then have n: "n < length (m_fdContexts io)" and e: "e = READ \<or> e = WRITE"
      and h: "has (io_ctx io (m_fdContexts io ! n)) e"
      and w: "w = waiter_of (ectx (io_ctx io (m_fdContexts io ! n)) e)"
      using that by (auto simp: waits_def ctx_waits_def split: if_splits)
    have "waiting (ectx (io_ctx io (m_fdContexts io ! n)) e)"
      by (rule fc_inv_has(1) [OF io_inv_ctx(1) [OF inv n] e h])
    then show ?thesis by (auto simp: w waiter_of_def waiter_task_def waiting_def)
  qed
  ultimately show ?thesis by (simp add: reg_ok_def abs_io_def)
qed

text \<open>C15: in any sequence of valid calls without \<open>delEvent\<close> and of kernel reports, every waiter that
  was registered, at the start or by \<open>addEvent\<close>, is at the end either still registered or was
  handed to its scheduler, exactly once; and nothing else was handed over.\<close>

theorem waiters_conserved:
  assumes "io_inv io" and "list_all valid_act as" and "\<forall>a\<in>set as. \<not> deletes a"
    and "run_calls act_do as io = Inr (rs, io')"
  shows "pool (abs_io io') = pool (abs_io io) + mset (concat (map2 enrolled as rs))"
proof -
  have "run_calls spec_act as (abs_io io) = Inr (rs, abs_io io')"
    using acts.run_refines [OF assms(1,2)] assms(4) by simp
  then show ?thesis by (rule run_pool [OF abs_ok [OF assms(1)] assms(3)])
qed

text \<open>In the example a callback waits for descriptor 7 to become readable, and it does.\<close>

definition ex_acts :: "unit io_act list" where
  "ex_acts = [Call (Add 7 READ (Some (Fn ())) (Some 5) (0, EXEC) 0), Report 7 EPOLLIN 0]"

lemma ex_io_abs: "rg_this (abs_io ex_io) = 5" "rg_out (abs_io ex_io) = []"
  "m_fibers (rg_sched (abs_io ex_io)) = []"
  using ex_io_fields by (simp_all add: abs_io_def ex_io_def IOManager_ctor_def start_def Let_def ex_io_sched_def
      contextResize_grow with_new_def)

lemma ex_report: "report_mask EPOLLIN = READ"
  by (simp add: report_mask_def reported_def ev_defs)

lemma ex_acts_spec:
  assumes "rg_wait (abs_io ex_io) = Map.empty"
  shows "\<exists>R. run_calls spec_act ex_acts (abs_io ex_io) = Inr ([0, 0], R) \<and> rg_wait R = Map.empty
    \<and> m_fibers (rg_sched R) = [cb_task (Some (Fn ())) (-1)]"
proof -
  have e: "READ AND READ \<noteq> 0" "READ AND WRITE = 0" by (simp_all add: READ_def WRITE_def)
  show ?thesis using assms ex_io_abs e
    by (simp add: ex_acts_def spec_report_def ex_report resume_def forget_def resumption_def
        schedule_def scheduleNoLock_def tickle_def)
qed

theorem io_manager_refines_registry_witness:
  "\<exists>io. run_calls act_do ex_acts ex_io = Inr ([0, 0], io) \<and> waits io = Map.empty
     \<and> m_fibers (io_sched io) = [cb_task (Some (Fn ())) (-1)]"
proof -
  have "list_all valid_act ex_acts" by (simp add: ex_acts_def)
  note t = io_manager_refines_registry [OF ex_io_ctor this]
  obtain R where "run_calls spec_act ex_acts (abs_io ex_io) = Inr ([0, 0], R)" "rg_wait R = Map.empty"
    "m_fibers (rg_sched R) = [cb_task (Some (Fn ())) (-1)]"
    using ex_acts_spec t by blast
  with t show ?thesis
    by (cases "run_calls act_do ex_acts ex_io") (auto simp: abs_io_def)
qed

theorem waiters_conserved_witness:
  "\<exists>io. run_calls act_do ex_acts ex_io = Inr ([0, 0], io)
     \<and> pool (abs_io io) = pool (abs_io ex_io) + {#(5, cb_task (Some (Fn ())) (-1))#}"
proof -
  have v: "list_all valid_act ex_acts" "\<forall>a\<in>set ex_acts. \<not> deletes a" by (simp_all add: ex_acts_def)
  have "rg_wait (abs_io ex_io) = Map.empty"
    by (auto simp: abs_io_def waits_def ctx_waits_def has_def fc_inv_new ex_io_fields)
  then obtain R where "run_calls spec_act ex_acts (abs_io ex_io) = Inr ([0, 0], R)"
    using ex_acts_spec by blast
  with acts.run_refines [OF ex_io_inv v(1)]
  obtain io where r: "run_calls act_do ex_acts ex_io = Inr ([0, 0], io)"
    by (cases "run_calls act_do ex_acts ex_io") auto
  have "concat (map2 enrolled ex_acts [0, 0]) = [(5, cb_task (Some (Fn ())) (-1))]"
    by (simp add: ex_acts_def resumption_def)
  with waiters_conserved [OF ex_io_inv v r] r show ?thesis by auto
qed


end
