(* ===== verification/Nio.thy ===== *)
theory Nio
  imports IO_Registry
begin

text \<open>
  The earlier version of the IO manager (\<open>nio.cc\<close>), which the build does not use but
  \<open>iomanager.cc\<close> is derived from, on the same state.  It is translated on its own; the lemmas
  show where the two agree (registering, deleting and cancelling events) and what the later
  version changed: when idle threads are woken, how long the idle loop waits, and what an
  error report triggers.
\<close>

section \<open>Contexts\<close>

definition nio_getContext :: "'cb fd_context \<Rightarrow> u32 \<Rightarrow> 'cb event_context res" where
  "nio_getContext fc event =
     (if event = READ then Inr (fc_read fc)
      else if event = WRITE then Inr (fc_write fc)
      else Inl (Abort ''getContext''))"

definition nio_resetContext :: "'cb event_context \<Rightarrow> 'cb event_context" where
  "nio_resetContext ctx = ctx\<lparr>ec_scheduler := None, ec_fiber := None, ec_cb := None\<rparr>"

definition nio_triggerEvent ::
  "u32 \<Rightarrow> 'cb fd_context \<Rightarrow> ('cb fd_context \<times> addr \<times> 'cb timer_fn task) res" where
  "nio_triggerEvent event fc =
     (if fc_events fc AND event = 0 then Inl (Abort ''events & event'')
      else
        let fc1 = fc\<lparr>fc_events := fc_events fc AND NOT event\<rparr>
        in res_bind (nio_getContext fc1 event)
             (\<lambda>ctx. case ec_scheduler ctx of
                      None \<Rightarrow> Inl (Undefined ''ctx.scheduler is null'')
                    | Some sc \<Rightarrow>
                        if ec_cb ctx \<noteq> None then
                          Inr (setContext event (ctx\<lparr>ec_cb := None, ec_scheduler := None\<rparr>) fc1, sc,
                               cb_task (ec_cb ctx) (-1))
                        else
                          Inr (setContext event (ctx\<lparr>ec_fiber := None, ec_scheduler := None\<rparr>) fc1, sc,
                               fiber_task (ec_fiber ctx) (-1))))"

section \<open>Wake-ups\<close>

definition nio_tickle :: "'cb io_manager \<Rightarrow> 'cb io_manager" where
  "nio_tickle io = (if \<not> hasIdleThreads (io_sched io) then io else io\<lparr>io_pipe := Suc (io_pipe io)\<rparr>)"

definition nio_on_sched ::
  "('cb timer_fn scheduler \<Rightarrow> 'cb timer_fn scheduler) \<Rightarrow> 'cb io_manager \<Rightarrow> 'cb io_manager" where
  "nio_on_sched f io =
     (let s1 = f (io_sched io)
      in (nio_tickle ^^ (m_tickles s1 - m_tickles (io_sched io))) (io\<lparr>io_sched := s1\<rparr>))"

definition nio_post :: "addr \<Rightarrow> 'cb timer_fn task \<Rightarrow> 'cb io_manager \<Rightarrow> 'cb io_manager" where
  "nio_post sc t io =
     (if sc = io_this io then nio_on_sched (schedule t) io
      else io\<lparr>io_posted := io_posted io @ [(sc, t)]\<rparr>)"

definition nio_onTimerInsertedAtFront :: "'cb io_manager \<Rightarrow> 'cb io_manager" where
  "nio_onTimerInsertedAtFront io = nio_tickle io"

section \<open>Events\<close>

definition nio_contextResize :: "nat \<Rightarrow> 'cb io_manager \<Rightarrow> 'cb io_manager" where
  "nio_contextResize sz io =
     (case fill_contexts 0 (vec_resize sz None (map Some (m_fdContexts io))) io of
        (ps, io1) \<Rightarrow> io1\<lparr>m_fdContexts := ps\<rparr>)"

definition nio_addEvent_context :: "fd \<Rightarrow> 'cb io_manager \<Rightarrow> (addr \<times> 'cb io_manager) res" where
  "nio_addEvent_context fd io =
     (if int (length (m_fdContexts io)) > fd then res_bind (context_at fd io) (\<lambda>p. Inr (p, io))
      else
        let io1 = nio_contextResize (nat (3 * fd div 2)) io
        in res_bind (context_at fd io1) (\<lambda>p. Inr (p, io1)))"

definition nio_addEvent ::
  "fd \<Rightarrow> u32 \<Rightarrow> 'cb timer_fn option \<Rightarrow> addr option \<Rightarrow> addr \<times> fiber_state \<Rightarrow> int
    \<Rightarrow> 'cb io_manager \<Rightarrow> (int \<times> 'cb io_manager) res" where
  "nio_addEvent fd event cb sched cur rt io =
     res_bind (nio_addEvent_context fd io) (\<lambda>(p, io).
      let fc = io_ctx io p
      in if fc_events fc AND event \<noteq> 0 then Inl (Abort ''!(fd_ctx->events & event)'')
         else
           let op = (if fc_events fc \<noteq> 0 then CTL_MOD else CTL_ADD);
               io1 = epoll_ctl op (nat fd) (EPOLLET OR fc_events fc OR event) rt io
           in if rt \<noteq> 0 then Inr (-1, io1)
              else
                let io2 = io1\<lparr>m_pendingEventCount := m_pendingEventCount io1 + 1\<rparr>;
                    fc1 = fc\<lparr>fc_events := fc_events fc OR event\<rparr>
                in res_bind (nio_getContext fc1 event)
                     (\<lambda>ec. if ec_scheduler ec \<noteq> None \<or> ec_fiber ec \<noteq> None \<or> ec_cb ec \<noteq> None then
                             Inl (Abort ''!event_ctx.scheduler && !event_ctx.fiber && !event_ctx.cb'')
                           else if cb \<noteq> None then
                             Inr (0, set_ctx p (setContext event
                                      (ec\<lparr>ec_scheduler := sched, ec_cb := cb\<rparr>) fc1) io2)
                           else if snd cur \<noteq> EXEC then
                             Inl (Abort ''event_ctx.fiber->getState() == Fiber::EXEC'')
                           else
                             Inr (0, set_ctx p (setContext event
                                      (ec\<lparr>ec_scheduler := sched, ec_fiber := Some (fst cur)\<rparr>) fc1) io2)))"

text \<open>What \<open>delEvent\<close> and \<open>cancelEvent\<close> do up to the call of \<open>epoll_ctl\<close>: the context, or that the
  function returns false.\<close>

definition nio_lookup :: "fd \<Rightarrow> 'cb io_manager \<Rightarrow> addr option res" where
  "nio_lookup fd io =
     (if int (length (m_fdContexts io)) \<le> fd then Inr None
      else res_bind (context_at fd io) (\<lambda>p. Inr (Some p)))"

definition nio_delEvent :: "fd \<Rightarrow> u32 \<Rightarrow> int \<Rightarrow> 'cb io_manager \<Rightarrow> (bool \<times> 'cb io_manager) res" where
  "nio_delEvent fd event rt io =
     res_bind (nio_lookup fd io) (\<lambda>q.
       case q of
         None \<Rightarrow> Inr (False, io)
       | Some p \<Rightarrow>
           let fc = io_ctx io p
           in if fc_events fc AND event = 0 then Inr (False, io)
              else
                let new_events = fc_events fc AND NOT event;
                    op = (if new_events \<noteq> 0 then CTL_MOD else CTL_DEL);
                    io1 = epoll_ctl op (nat fd) (EPOLLET OR new_events) rt io
                in if rt \<noteq> 0 then Inr (False, io1)
                   else
                     let io2 = io1\<lparr>m_pendingEventCount := m_pendingEventCount io1 - 1\<rparr>;
                         fc1 = fc\<lparr>fc_events := new_events\<rparr>
                     in res_bind (nio_getContext fc1 event)
                          (\<lambda>ec. Inr (True, set_ctx p (setContext event (nio_resetContext ec) fc1) io2)))"

text \<open>\<open>triggerEvent\<close> on the context at \<open>p\<close>, followed by \<open>--m_pendingEventCount\<close>.\<close>

definition nio_trigger :: "addr \<Rightarrow> u32 \<Rightarrow> 'cb io_manager \<Rightarrow> 'cb io_manager res" where
  "nio_trigger p event io =
     res_bind (nio_triggerEvent event (io_ctx io p)) (\<lambda>(fc, sc, t).
       let io1 = nio_post sc t (set_ctx p fc io)
       in Inr (io1\<lparr>m_pendingEventCount := m_pendingEventCount io1 - 1\<rparr>))"

definition nio_trigger_if :: "bool \<Rightarrow> addr \<Rightarrow> u32 \<Rightarrow> 'cb io_manager \<Rightarrow> 'cb io_manager res" where
  "nio_trigger_if c p event io = (if c then nio_trigger p event io else Inr io)"

definition nio_cancelEvent :: "fd \<Rightarrow> u32 \<Rightarrow> int \<Rightarrow> 'cb io_manager \<Rightarrow> (bool \<times> 'cb io_manager) res" where
  "nio_cancelEvent fd event rt io =
     res_bind (nio_lookup fd io) (\<lambda>q.
       case q of
         None \<Rightarrow> Inr (False, io)
       | Some p \<Rightarrow>
           let fc = io_ctx io p
           in if fc_events fc AND event = 0 then Inr (False, io)
              else
                let new_events = fc_events fc AND NOT event;
                    op = (if new_events \<noteq> 0 then CTL_MOD else CTL_DEL);
                    io1 = epoll_ctl op (nat fd) (EPOLLET OR new_events) rt io
                in if rt \<noteq> 0 then Inr (False, io1)
                   else res_bind (nio_trigger p event io1) (\<lambda>io2. Inr (True, io2)))"

definition nio_cancelAll :: "fd \<Rightarrow> int \<Rightarrow> 'cb io_manager \<Rightarrow> (bool \<times> 'cb io_manager) res" where
  "nio_cancelAll fd rt io =
     res_bind (nio_lookup fd io) (\<lambda>q.
       case q of
         None \<Rightarrow> Inr (False, io)
       | Some p \<Rightarrow>
           if fc_events (io_ctx io p) = 0 then Inr (False, io)
           else
             let io1 = epoll_ctl CTL_DEL (nat fd) 0 rt io
             in if rt \<noteq> 0 then Inr (False, io1)
                else
                  res_bind (nio_trigger_if (fc_events (io_ctx io1 p) AND READ \<noteq> 0) p READ io1) (\<lambda>io2.
                  res_bind (nio_trigger_if (fc_events (io_ctx io2 p) AND WRITE \<noteq> 0) p WRITE io2) (\<lambda>io3.
                    if fc_events (io_ctx io3 p) \<noteq> 0 then Inl (Abort ''fd_ctx->events == 0'')
                    else Inr (True, io3))))"

section \<open>The idle loop\<close>

text \<open>\<open>stopping(timeout)\<close> with the timeout it leaves in its reference argument.\<close>

definition nio_stopping_timeout :: "u64 \<Rightarrow> 'cb io_manager \<Rightarrow> bool \<times> u64 \<times> 'cb io_manager" where
  "nio_stopping_timeout now io =
     (case getNextTimer now (io_timers io) of
        (timeout, tm) \<Rightarrow>
          (timeout = NOT 0 \<and> m_pendingEventCount io = 0 \<and> stopping (io_sched io), timeout,
           io\<lparr>io_timers := tm\<rparr>))"

definition nio_stopping :: "u64 \<Rightarrow> 'cb io_manager \<Rightarrow> bool \<times> 'cb io_manager" where
  "nio_stopping now io = (case nio_stopping_timeout now io of (b, _, io1) \<Rightarrow> (b, io1))"

definition nio_clamp :: "u64 \<Rightarrow> u64" where
  "nio_clamp next_timeout =
     (if next_timeout \<noteq> NOT 0 then
        if sint (ucast next_timeout :: i32) > 3000 then 3000 else next_timeout
      else 3000)"

definition nio_idle_begin :: "u64 \<Rightarrow> 'cb io_manager \<Rightarrow> idle_next \<times> 'cb io_manager" where
  "nio_idle_begin now io =
     (case nio_stopping_timeout now io of
        (stop, next_timeout, io1) \<Rightarrow>
          (if stop then Idle_exit else Idle_wait (ucast (nio_clamp next_timeout)), io1))"

definition nio_process_event :: "epoll_event \<Rightarrow> 'cb io_manager \<Rightarrow> 'cb io_manager res" where
  "nio_process_event e io =
     (case e of
        (Tickle_pipe, _, _) \<Rightarrow> Inr (io\<lparr>io_pipe := 0\<rparr>)
      | (Ctx p, evs0, rt2) \<Rightarrow>
          let fc = io_ctx io p;
              evs = (if evs0 AND (EPOLLERR OR EPOLLHUP) \<noteq> 0
                     then evs0 OR ((EPOLLIN OR EPOLLOUT) AND fc_events fc) else evs0);
              r1 = (if evs AND EPOLLIN \<noteq> 0 then NONE OR READ else NONE);
              real_events = (if evs AND EPOLLOUT \<noteq> 0 then r1 OR WRITE else r1)
          in if fc_events fc AND real_events = NONE then Inr io
             else
               let left_events = fc_events fc AND NOT real_events;
                   op = (if left_events \<noteq> 0 then CTL_MOD else CTL_DEL);
                   io1 = epoll_ctl op (fc_fd fc) (EPOLLET OR left_events) rt2 io
               in if rt2 \<noteq> 0 then Inr io1
                  else res_bind (nio_trigger_if (real_events AND READ \<noteq> 0) p READ io1)
                         (\<lambda>io2. nio_trigger_if (real_events AND WRITE \<noteq> 0) p WRITE io2))"

fun nio_process_events :: "epoll_event list \<Rightarrow> 'cb io_manager \<Rightarrow> 'cb io_manager res" where
  "nio_process_events [] io = Inr io"
| "nio_process_events (e # es) io = res_bind (nio_process_event e io) (nio_process_events es)"

definition nio_idle_end ::
  "u64 \<Rightarrow> addr \<Rightarrow> epoll_event list \<Rightarrow> 'cb io_manager \<Rightarrow> 'cb io_manager res" where
  "nio_idle_end now probe es io =
     res_bind (listExpiredCb now probe (io_timers io))
       (\<lambda>(cbs, tm).
          let io1 = io\<lparr>io_timers := tm\<rparr>;
              io2 = (if cbs \<noteq> [] then nio_on_sched (\<lambda>s. snd (schedule_range cb_task cbs s)) io1 else io1)
          in nio_process_events es io2)"

definition nio_IOManager_ctor ::
  "addr \<Rightarrow> 'cb timer_fn scheduler \<Rightarrow> 'cb timer_manager \<Rightarrow> int \<Rightarrow> int \<Rightarrow> int \<times> int \<Rightarrow> int \<Rightarrow> int
    \<Rightarrow> tid list \<Rightarrow> 'cb io_manager res" where
  "nio_IOManager_ctor this s tm epfd rt_pipe fds rt_fcntl rt_ctl ids =
     (if \<not> epfd > 0 then Inl (Abort ''m_epfd > 0'')
      else if rt_pipe \<noteq> 0 then Inl (Abort ''!rt'')
      else if rt_fcntl \<noteq> 0 then Inl (Abort ''!rt'')
      else if rt_ctl \<noteq> 0 then Inl (Abort ''!rt'')
      else
        let io = nio_contextResize 32
              \<lparr>io_this = this, io_sched = s, io_timers = tm, m_epfd = epfd, m_tickleFds = fds,
               m_pendingEventCount = 0, m_fdContexts = [], io_ctx = (\<lambda>_. new_fd_context 0),
               io_next = 0, io_ctl = [], io_pipe = 0, io_posted = []\<rparr>
        in res_bind (start ids (io_sched io)) (\<lambda>s1. Inr (io\<lparr>io_sched := s1\<rparr>)))"

definition nio_IOManager_dtor ::
  "addr option \<Rightarrow> 'cb io_manager \<Rightarrow> (int list \<times> addr list \<times> addr option) res" where
  "nio_IOManager_dtor tsched io =
     (let closed = [m_epfd io, fst (m_tickleFds io), snd (m_tickleFds io)];
          deleted = m_fdContexts io
      in res_bind (Scheduler_dtor (io_this io) (io_sched io) tsched)
           (\<lambda>tsched'. Inr (closed, deleted, tsched')))"

section \<open>Where the versions agree\<close>

lemma nio_getContext_eq: "nio_getContext fc e = getContext fc e"
  by (simp add: nio_getContext_def getContext_def)

lemma nio_triggerEvent_eq: "nio_triggerEvent e fc = triggerEvent e fc"
  unfolding nio_triggerEvent_def triggerEvent_def nio_getContext_eq Let_def
  by (rule if_cong [OF refl refl], rule arg_cong [of _ _ "res_bind _"])
    (auto simp: fun_eq_iff split: option.split)

lemma nio_resetContext_eq: "nio_resetContext ec = resetContext ec"
  by (simp add: nio_resetContext_def resetContext_def)

lemma nio_contextResize_eq: "nio_contextResize n io = contextResize n io"
  by (simp add: nio_contextResize_def contextResize_def)

lemma nio_addEvent_eq: "nio_addEvent fd e cb sched cur rt io = addEvent fd e cb sched cur rt io"
proof -
  have "nio_addEvent fd e cb sched cur rt io
      = res_bind (nio_addEvent_context fd io) (\<lambda>(p, io). addEvent_on p fd e cb sched cur rt io)"
    unfolding nio_addEvent_def addEvent_on_def nio_getContext_eq Let_def by (rule refl)
  then show ?thesis
    by (auto simp: nio_addEvent_context_def addEvent_def addEvent_lookup_def addEvent_grow_def
        nio_contextResize_eq Let_def context_at_def)
qed

lemma nio_delEvent_eq: "nio_delEvent fd e rt io = delEvent fd e rt io"
  unfolding nio_delEvent_def delEvent_def delEvent_on_def nio_getContext_eq nio_resetContext_eq Let_def
  by (simp add: nio_lookup_def context_at_def)

text \<open>The versions wake different threads, so states are compared up to the bytes in the pipe.\<close>

definition same_but_pipe :: "'cb io_manager \<Rightarrow> 'cb io_manager \<Rightarrow> bool" where
  "same_but_pipe a b \<longleftrightarrow> a\<lparr>io_pipe := 0\<rparr> = b\<lparr>io_pipe := 0\<rparr>"

abbreviation same_result :: "('x \<times> 'cb io_manager) res \<Rightarrow> ('x \<times> 'cb io_manager) res \<Rightarrow> bool" where
  "same_result \<equiv> rel_sum (=) (rel_prod (=) same_but_pipe)"

abbreviation same_state :: "'cb io_manager res \<Rightarrow> 'cb io_manager res \<Rightarrow> bool" where
  "same_state \<equiv> rel_sum (=) same_but_pipe"

lemma same_but_pipe_iff: "same_but_pipe a b \<longleftrightarrow> (\<exists>k. b = a\<lparr>io_pipe := k\<rparr>)"
proof
  assume "same_but_pipe a b"
  then have "b = a\<lparr>io_pipe := io_pipe b\<rparr>" by (cases a; cases b) (simp add: same_but_pipe_def)
  then show "\<exists>k. b = a\<lparr>io_pipe := k\<rparr>" ..
qed (auto simp: same_but_pipe_def)

lemma same_but_pipe_refl [simp]: "same_but_pipe a a" "same_but_pipe a (a\<lparr>io_pipe := k\<rparr>)"
  by (simp_all add: same_but_pipe_def)

lemma same_but_pipe_fields:
  assumes "same_but_pipe a b"
  shows "io_this b = io_this a" "io_sched b = io_sched a" "io_timers b = io_timers a"
    "m_pendingEventCount b = m_pendingEventCount a" "m_fdContexts b = m_fdContexts a"
    "io_ctx b = io_ctx a" "io_next b = io_next a" "io_ctl b = io_ctl a" "io_posted b = io_posted a"
  using assms by (auto simp: same_but_pipe_iff)

text \<open>The operations do not read the pipe: its update moves to the outside.\<close>

lemma pipe_out:
  fixes io :: "'cb io_manager"
  shows "io_ctx_update f (io_pipe_update g io) = io_pipe_update g (io_ctx_update f io)"
    "io_next_update h (io_pipe_update g io) = io_pipe_update g (io_next_update h io)"
    "io_sched_update i (io_pipe_update g io) = io_pipe_update g (io_sched_update i io)"
    "m_pendingEventCount_update j (io_pipe_update g io) = io_pipe_update g (m_pendingEventCount_update j io)"
    "m_fdContexts_update l (io_pipe_update g io) = io_pipe_update g (m_fdContexts_update l io)"
    "io_posted_update m (io_pipe_update g io) = io_pipe_update g (io_posted_update m io)"
    "io_ctl_update n (io_pipe_update g io) = io_pipe_update g (io_ctl_update n io)"
    "io_timers_update q (io_pipe_update g io) = io_pipe_update g (io_timers_update q io)"
  by simp_all

lemma fill_contexts_pipe:
  "fill_contexts i ps (io\<lparr>io_pipe := k\<rparr>)
     = (case fill_contexts i ps io of (qs, io') \<Rightarrow> (qs, io'\<lparr>io_pipe := k\<rparr>))"
proof (induction i ps io rule: fill_contexts.induct)
  case (3 i ps io)
  let ?io1 = "io\<lparr>io_ctx := (io_ctx io)(io_next io := new_fd_context i), io_next := Suc (io_next io)\<rparr>"
  have "fill_contexts (Suc i) ps (?io1\<lparr>io_pipe := k\<rparr>)
      = (case fill_contexts (Suc i) ps ?io1 of (qs, io') \<Rightarrow> (qs, io'\<lparr>io_pipe := k\<rparr>))"
    by (rule 3 [OF refl refl])
  then show ?case by (simp add: Let_def pipe_out split: prod.splits)
qed (auto split: prod.splits)

lemma contextResize_pipe: "contextResize n (io\<lparr>io_pipe := k\<rparr>) = (contextResize n io)\<lparr>io_pipe := k\<rparr>"
  by (simp add: contextResize_def fill_contexts_pipe split: prod.splits)

lemma epoll_ctl_pipe: "epoll_ctl op n evs rt (io\<lparr>io_pipe := k\<rparr>) = (epoll_ctl op n evs rt io)\<lparr>io_pipe := k\<rparr>"
  by (simp add: epoll_ctl_def)

lemma set_ctx_pipe: "set_ctx p fc (io\<lparr>io_pipe := k\<rparr>) = (set_ctx p fc io)\<lparr>io_pipe := k\<rparr>"
  by (simp add: set_ctx_def)

lemma context_at_pipe: "context_at fd (io\<lparr>io_pipe := k\<rparr>) = context_at fd io"
  by (simp add: context_at_def)

lemma rel_res_bind:
  assumes "rel_sum (=) R m m'" and "\<And>x y. R x y \<Longrightarrow> rel_sum (=) S (f x) (g y)"
  shows "rel_sum (=) S (res_bind m f) (res_bind m' g)"
  using assms by (cases m; cases m') auto

lemma if_rel: "(c \<Longrightarrow> R x y) \<Longrightarrow> (\<not> c \<Longrightarrow> R x' y') \<Longrightarrow> R (if c then x else x') (if c then y else y')"
  by simp

lemma addEvent_on_same:
  assumes "same_but_pipe a b"
  shows "same_result (addEvent_on p fd e cb sched cur rt a) (addEvent_on p fd e cb sched cur rt b)"
proof -
  from assms obtain k where b: "b = a\<lparr>io_pipe := k\<rparr>" by (auto simp: same_but_pipe_iff)
  show ?thesis
    unfolding b addEvent_on_def Let_def epoll_ctl_pipe
    by (cases "getContext (io_ctx a p\<lparr>fc_events := fc_events (io_ctx a p) OR e\<rparr>) e")
      (simp_all add: pipe_out set_ctx_pipe)
qed

lemma addEvent_same:
  assumes "same_but_pipe a b"
  shows "same_result (addEvent fd e cb sched cur rt a) (addEvent fd e cb sched cur rt b)"
proof -
  from assms obtain k where b: "b = a\<lparr>io_pipe := k\<rparr>" by (auto simp: same_but_pipe_iff)
  have l: "addEvent_lookup fd b = addEvent_lookup fd a"
    by (simp add: b addEvent_lookup_def context_at_pipe)
  have "same_result (addEvent_grow fd a) (addEvent_grow fd b)"
    unfolding addEvent_grow_def Let_def b contextResize_pipe context_at_pipe
    by (cases "context_at fd (contextResize (nat (3 * fd div 2)) a)") simp_all
  then have "same_result (res_bind (addEvent_grow fd a) (\<lambda>(p, io). addEvent_on p fd e cb sched cur rt io))
      (res_bind (addEvent_grow fd b) (\<lambda>(p, io). addEvent_on p fd e cb sched cur rt io))"
    by (rule rel_res_bind) (auto intro: addEvent_on_same)
  then show ?thesis unfolding addEvent_def l
    by (cases "addEvent_lookup fd a") (auto intro: addEvent_on_same [OF assms] split: option.split)
qed

lemma delEvent_same:
  assumes "same_but_pipe a b"
  shows "same_result (delEvent fd e rt a) (delEvent fd e rt b)"
proof -
  from assms obtain k where b: "b = a\<lparr>io_pipe := k\<rparr>" by (auto simp: same_but_pipe_iff)
  have "same_result (delEvent_on p fd e rt a) (delEvent_on p fd e rt b)" for p
    unfolding b delEvent_on_def Let_def epoll_ctl_pipe
      by (cases "getContext (io_ctx a p\<lparr>fc_events := fc_events (io_ctx a p) AND NOT e\<rparr>) e")
      (simp_all add: pipe_out set_ctx_pipe)
  then show ?thesis unfolding delEvent_def
    by (cases "context_at fd a") (simp_all add: b context_at_pipe)
qed

text \<open>Handing a task over differs in the wake-up only.\<close>

lemma same_but_pipe_trans: "same_but_pipe a b \<Longrightarrow> same_but_pipe b c \<Longrightarrow> same_but_pipe a c"
  by (simp add: same_but_pipe_def)

lemma tickles_same: "same_but_pipe io ((io_tickle ^^ n) io)" "same_but_pipe io ((nio_tickle ^^ n) io)"
proof -
  have "same_but_pipe a (io_tickle a)" "same_but_pipe a (nio_tickle a)" for a :: "'a io_manager"
    by (simp_all add: io_tickle_def nio_tickle_def)
  then show "same_but_pipe io ((io_tickle ^^ n) io)" "same_but_pipe io ((nio_tickle ^^ n) io)"
    by (induction n) (auto intro: same_but_pipe_trans)
qed

lemma on_sched_same:
  assumes "same_but_pipe a b"
  shows "same_but_pipe (on_sched f a) (nio_on_sched f b)"
proof -
  define s where "s = f (io_sched a)"
  define n where "n = m_tickles s - m_tickles (io_sched a)"
  have "same_but_pipe (a\<lparr>io_sched := s\<rparr>) (b\<lparr>io_sched := s\<rparr>)"
    using assms by (auto simp: same_but_pipe_iff pipe_out)
  then have "same_but_pipe ((io_tickle ^^ n) (a\<lparr>io_sched := s\<rparr>)) ((nio_tickle ^^ n) (b\<lparr>io_sched := s\<rparr>))"
    using tickles_same [where n = n] by (metis same_but_pipe_def)
  then show ?thesis
    unfolding on_sched_def nio_on_sched_def Let_def same_but_pipe_fields(2) [OF assms] s_def n_def .
qed

lemma post_same:
  assumes "same_but_pipe a b"
  shows "same_but_pipe (post sc t a) (nio_post sc t b)"
proof (cases "sc = io_this a")
  case True
  then show ?thesis using on_sched_same [OF assms]
    by (simp add: post_def nio_post_def same_but_pipe_fields [OF assms])
next
  case False
  then show ?thesis using assms
    by (auto simp: post_def nio_post_def same_but_pipe_iff pipe_out)
qed

lemma post_pending:
  "post sc t (io\<lparr>m_pendingEventCount := n\<rparr>) = (post sc t io)\<lparr>m_pendingEventCount := n\<rparr>"
proof (cases "sc = io_this io")
  case True
  have "io_tickle (a\<lparr>m_pendingEventCount := n\<rparr>) = (io_tickle a)\<lparr>m_pendingEventCount := n\<rparr>" for a :: "'a io_manager"
    by (simp add: io_tickle_def)
  then have t: "(io_tickle ^^ i) (a\<lparr>m_pendingEventCount := n\<rparr>) = ((io_tickle ^^ i) a)\<lparr>m_pendingEventCount := n\<rparr>"
    for a :: "'a io_manager" and i by (induction i) simp_all
  have u: "io\<lparr>m_pendingEventCount := n, io_sched := s\<rparr> = io\<lparr>io_sched := s, m_pendingEventCount := n\<rparr>" for s
    by simp
  show ?thesis using True unfolding post_def on_sched_def Let_def u t by simp
qed (simp add: post_def)

lemma post_pendingCount: "m_pendingEventCount (post sc t io) = m_pendingEventCount io"
  using post_same_table [of io sc t] by (simp add: same_table_def)

lemma set_ctx_pending:
  "set_ctx p fc (io\<lparr>m_pendingEventCount := n\<rparr>) = (set_ctx p fc io)\<lparr>m_pendingEventCount := n\<rparr>"
  by (simp add: set_ctx_def)

lemma trigger_if_same:
  assumes "same_but_pipe a b"
  shows "same_state (trigger_if c p e a) (nio_trigger_if c p e b)"
proof (cases c)
  case True
  have s: "same_but_pipe (set_ctx p fc a) (set_ctx p fc b)" for fc
    using assms by (auto simp: same_but_pipe_iff set_ctx_pipe)
  have d: "same_but_pipe (x\<lparr>m_pendingEventCount := m_pendingEventCount x - 1\<rparr>)
      (y\<lparr>m_pendingEventCount := m_pendingEventCount y - 1\<rparr>)" if "same_but_pipe x y" for x y :: "'a io_manager"
    using that by (auto simp: same_but_pipe_iff pipe_out)
  show ?thesis using True d [OF post_same [OF s]]
    by (cases "triggerEvent e (io_ctx a p)")
      (auto simp: trigger_if_def nio_trigger_if_def trigger_def nio_trigger_def nio_triggerEvent_eq
        same_but_pipe_fields [OF assms] Let_def split: prod.split)
qed (simp add: trigger_if_def nio_trigger_if_def assms)

text \<open>Looking up the context, for any continuation.\<close>

lemma lookup_same:
  assumes "same_but_pipe a b" and "\<And>p. same_result (f p) (g p)"
  shows "same_result
    (if int (length (m_fdContexts a)) \<le> fd then Inr (False, a) else res_bind (context_at fd a) f)
    (res_bind (nio_lookup fd b) (\<lambda>q. case q of None \<Rightarrow> Inr (False, b) | Some p \<Rightarrow> g p))"
proof -
  have c: "context_at fd b = context_at fd a" and l: "m_fdContexts b = m_fdContexts a"
    using same_but_pipe_fields [OF assms(1)] by (simp_all add: context_at_def)
  show ?thesis unfolding nio_lookup_def c l
    by (cases "context_at fd a") (simp_all add: assms)
qed

lemma nio_cancelEvent_same:
  assumes "same_but_pipe a b"
  shows "same_result (cancelEvent fd e rt a) (nio_cancelEvent fd e rt b)"
proof -
  let ?evs = "\<lambda>p. fc_events (io_ctx a p)"
  let ?io = "\<lambda>p x. epoll_ctl (if ?evs p AND NOT e \<noteq> 0 then CTL_MOD else CTL_DEL) (nat fd)
      (EPOLLET OR ?evs p AND NOT e) rt x"
  have io: "same_but_pipe (?io p a) (?io p b)" for p
    using assms by (auto simp: same_but_pipe_iff epoll_ctl_pipe)
  have tr: "same_result
      (res_bind (trigger p e (x\<lparr>m_pendingEventCount := m_pendingEventCount x - 1\<rparr>)) (\<lambda>io. Inr (True, io)))
      (res_bind (nio_trigger p e y) (\<lambda>io. Inr (True, io)))"
    if "same_but_pipe x y" for x y :: "'a io_manager" and p
  proof -
    have "trigger p e (x\<lparr>m_pendingEventCount := m_pendingEventCount x - 1\<rparr>) = trigger_if True p e x"
      by (cases "triggerEvent e (io_ctx x p)")
        (auto simp: trigger_if_def trigger_def set_ctx_pending post_pending post_pendingCount split: prod.split)
    moreover have "nio_trigger p e y = nio_trigger_if True p e y" by (simp add: nio_trigger_if_def)
    ultimately show ?thesis using trigger_if_same [OF that, of True p e] by (auto intro!: rel_res_bind)
  qed
  have "same_result (cancelEvent_on p fd e rt a)
      (if ?evs p AND e = 0 then Inr (False, b)
       else if rt \<noteq> 0 then Inr (False, ?io p b)
       else res_bind (nio_trigger p e (?io p b)) (\<lambda>io. Inr (True, io)))" for p
    unfolding cancelEvent_on_def Let_def
    by (rule if_rel, simp add: assms, rule if_rel, simp add: io, rule tr [OF io])
  from lookup_same [OF assms this] show ?thesis
    unfolding cancelEvent_def nio_cancelEvent_def Let_def same_but_pipe_fields(6) [OF assms] .
qed

lemma nio_cancelAll_same:
  assumes "same_but_pipe a b"
  shows "same_result (cancelAll fd rt a) (nio_cancelAll fd rt b)"
proof -
  have io: "same_but_pipe (epoll_ctl CTL_DEL (nat fd) 0 rt a) (epoll_ctl CTL_DEL (nat fd) 0 rt b)"
    using assms by (auto simp: same_but_pipe_iff epoll_ctl_pipe)
  have tr: "same_result
      (res_bind (trigger_if (fc_events (io_ctx x p) AND READ \<noteq> 0) p READ x) (\<lambda>io2.
       res_bind (trigger_if (fc_events (io_ctx io2 p) AND WRITE \<noteq> 0) p WRITE io2) (\<lambda>io3.
         if fc_events (io_ctx io3 p) \<noteq> 0 then Inl (Abort ''fd_ctx->events == 0'') else Inr (True, io3))))
      (res_bind (nio_trigger_if (fc_events (io_ctx y p) AND READ \<noteq> 0) p READ y) (\<lambda>io2.
       res_bind (nio_trigger_if (fc_events (io_ctx io2 p) AND WRITE \<noteq> 0) p WRITE io2) (\<lambda>io3.
         if fc_events (io_ctx io3 p) \<noteq> 0 then Inl (Abort ''fd_ctx->events == 0'') else Inr (True, io3))))"
    if "same_but_pipe x y" for x y :: "'a io_manager" and p
    unfolding same_but_pipe_fields(6) [OF that]
    by (rule rel_res_bind [OF trigger_if_same [OF that]], simp only: same_but_pipe_fields(6),
        rule rel_res_bind [OF trigger_if_same], assumption, simp add: same_but_pipe_fields(6))
  have "same_result (cancelAll_on p fd rt a)
      (if fc_events (io_ctx b p) = 0 then Inr (False, b)
       else let io1 = epoll_ctl CTL_DEL (nat fd) 0 rt b
         in if rt \<noteq> 0 then Inr (False, io1)
            else
              res_bind (nio_trigger_if (fc_events (io_ctx io1 p) AND READ \<noteq> 0) p READ io1) (\<lambda>io2.
              res_bind (nio_trigger_if (fc_events (io_ctx io2 p) AND WRITE \<noteq> 0) p WRITE io2) (\<lambda>io3.
                if fc_events (io_ctx io3 p) \<noteq> 0 then Inl (Abort ''fd_ctx->events == 0'')
                else Inr (True, io3))))" for p
    unfolding cancelAll_on_def Let_def same_but_pipe_fields(6) [OF assms]
    by (rule if_rel, simp add: assms, rule if_rel, simp add: io, rule tr [OF io])
  from lookup_same [OF assms this] show ?thesis
    unfolding cancelAll_def nio_cancelAll_def .
qed

text \<open>The calls of this version.\<close>

fun nio_do :: "'cb io_call \<Rightarrow> 'cb io_manager \<Rightarrow> (int \<times> 'cb io_manager) res" where
  "nio_do (Add fd e cb sched cur rt) io = nio_addEvent fd e cb sched cur rt io"
| "nio_do (Del fd e rt) io = res_bind (nio_delEvent fd e rt io) (\<lambda>(r, io). Inr (of_bool r, io))"
| "nio_do (Cancel fd e rt) io = res_bind (nio_cancelEvent fd e rt io) (\<lambda>(r, io). Inr (of_bool r, io))"
| "nio_do (Cancel_all fd rt) io = res_bind (nio_cancelAll fd rt io) (\<lambda>(r, io). Inr (of_bool r, io))"

lemma nio_do_same:
  assumes "same_but_pipe a b"
  shows "same_result (io_do c a) (nio_do c b)"
proof -
  have b: "same_result (res_bind m (\<lambda>(r, io). Inr (of_bool r, io))) (res_bind m' (\<lambda>(r, io). Inr (of_bool r, io)))"
    if "same_result m m'" for m m' :: "(bool \<times> 'a io_manager) res"
    by (rule rel_res_bind [OF that]) auto
  show ?thesis
    by (cases c) (simp_all add: nio_addEvent_eq nio_delEvent_eq addEvent_same [OF assms]
        b delEvent_same [OF assms] nio_cancelEvent_same [OF assms] nio_cancelAll_same [OF assms])
qed

text \<open>The two versions of the IO manager agree on any sequence of calls of \<open>addEvent\<close>,
  \<open>delEvent\<close>, \<open>cancelEvent\<close> and \<open>cancelAll\<close>, from any state and whatever \<open>epoll_ctl\<close> answers: both
  abort, or both return the same values and leave the same contexts, counter, \<open>epoll_ctl\<close> calls
  and scheduled tasks.  Only the bytes written to the wake-up pipe differ.\<close>

theorem versions_agree:
  "rel_sum (=) (rel_prod (=) same_but_pipe) (run_calls io_do cs io) (run_calls nio_do cs io)"
proof -
  have "same_result (run_calls io_do cs a) (run_calls nio_do cs b)" if "same_but_pipe a b"
    for a b :: "'a io_manager"
    using that
  proof (induction cs arbitrary: a b)
    case (Cons c cs)
    show ?case unfolding run_calls.simps
      by (rule rel_res_bind [OF nio_do_same [OF Cons.prems]])
        (auto intro!: rel_res_bind [OF Cons.IH])
  qed simp
  then show ?thesis by simp
qed

text \<open>Giving a task to the manager's own scheduler when its queue is empty writes one byte to the
  wake-up pipe: in the version that is built, if and only if no thread is idle, that is, when
  there is nobody to wake; in the earlier version if and only if some thread is.\<close>

theorem wake_ups_inverted:
  "io_pipe (post (io_this io) t io)
     = io_pipe io + of_bool (m_fibers (io_sched io) = [] \<and> \<not> hasIdleThreads (io_sched io))
   \<and> io_pipe (nio_post (io_this io) t io)
     = io_pipe io + of_bool (m_fibers (io_sched io) = [] \<and> hasIdleThreads (io_sched io))"
proof -
  have "hasIdleThreads (schedule t s) = hasIdleThreads s" for s :: "'a timer_fn scheduler"
    by (simp add: schedule_def scheduleNoLock_def tickle_def hasIdleThreads_def)
  moreover have "m_tickles (schedule t s) - m_tickles s = of_bool (m_fibers s = [])"
    for s :: "'a timer_fn scheduler"
    by (simp add: schedule_def scheduleNoLock_def tickle_def)
  ultimately show ?thesis
    by (auto simp: post_def nio_post_def on_sched_def nio_on_sched_def io_tickle_def nio_tickle_def Let_def)
qed


section \<open>What the idle loops do with a report\<close>

text \<open>A report as the earlier version reads it: an error or hang-up stands for the registered
  events only.\<close>

definition masked :: "u32 \<Rightarrow> u32 \<Rightarrow> u32" where
  "masked events evs =
     (if evs AND (EPOLLERR OR EPOLLHUP) \<noteq> 0 then evs OR ((EPOLLIN OR EPOLLOUT) AND events) else evs)
       AND (EPOLLIN OR EPOLLOUT)"

lemma masked_bits:
  "masked events evs AND (EPOLLERR OR EPOLLHUP) = 0"
  "masked events evs AND EPOLLIN =
     (if evs AND (EPOLLERR OR EPOLLHUP) \<noteq> 0 then evs OR ((EPOLLIN OR EPOLLOUT) AND events) else evs) AND EPOLLIN"
  "masked events evs AND EPOLLOUT =
     (if evs AND (EPOLLERR OR EPOLLHUP) \<noteq> 0 then evs OR ((EPOLLIN OR EPOLLOUT) AND events) else evs) AND EPOLLOUT"
  by (simp_all only: masked_def and.assoc EPOLLIN_def EPOLLOUT_def EPOLLERR_def EPOLLHUP_def) simp_all

lemma masked_no_error: "(if masked events evs AND (EPOLLERR OR EPOLLHUP) \<noteq> 0 then x else y) = y"
  by (simp add: masked_bits(1))

lemma nio_process_event_masked:
  "same_state (process_event (Ctx p, masked (fc_events (io_ctx io p)) evs, rt) io)
     (nio_process_event (Ctx p, evs, rt) io)"
  unfolding process_event_def nio_process_event_def prod.case ev_source.case Let_def masked_no_error
    masked_bits(2,3)
  by (rule if_rel, simp, rule if_rel, simp, rule rel_res_bind [OF trigger_if_same trigger_if_same], simp)

lemma io_inv_same: "same_but_pipe a b \<Longrightarrow> io_inv a \<Longrightarrow> io_inv b"
  by (rule io_inv_same_table) (auto simp: same_table_def same_but_pipe_fields)

text \<open>What \<open>process_event\<close> leaves registered.\<close>

lemma process_event_left:
  assumes "io_inv io" and "p \<in> set (m_fdContexts io)" and "process_event (Ctx p, evs, 0) io = Inr io'"
  shows "fc_events (io_ctx io' p) = fc_events (io_ctx io p) AND NOT (report_mask evs)"
proof -
  have fc: "fc_inv (io_ctx io p)" using assms by (simp add: io_inv_def)
  define left where "left = fc_events (io_ctx io p) AND NOT (report_mask evs)"
  define io1 where "io1 = epoll_ctl (if left \<noteq> 0 then CTL_MOD else CTL_DEL) (fc_fd (io_ctx io p)) (EPOLLET OR left) 0 io"
  have c1: "io_ctx io1 p = io_ctx io p" by (simp add: io1_def)
  consider (skip) "fc_events (io_ctx io p) AND report_mask evs = 0" "io' = io"
    | (go) io2 where "trigger_if (reported evs EPOLLIN) p READ io1 = Inr io2"
        "trigger_if (reported evs EPOLLOUT) p WRITE io2 = Inr io'"
    using assms(3) unfolding process_event_Ctx Let_def left_def [symmetric] io1_def [symmetric]
    by (auto split: if_splits)
  then show ?thesis
  proof cases
    case skip
    have "x AND NOT m = x" if "x AND m = 0" for x m :: u32
    proof -
      have "x = (x AND m) OR (x AND NOT m)" by (simp flip: bit.conj_disj_distrib)
      with that show ?thesis by simp
    qed
    then show ?thesis using skip by simp
  next
    case go
    note t = trigger_both [OF _ go, unfolded c1, OF fc]
    show ?thesis using t(6,9) by (simp add: report_mask_def)
  qed
qed

lemma process_event_failed:
  "rt \<noteq> 0 \<Longrightarrow> \<exists>io'. process_event (Ctx p, evs, rt) io = Inr io' \<and> io_ctx io' = io_ctx io"
  by (simp add: process_event_Ctx Let_def)

lemma and_5:
  fixes x :: u32
  obtains "x AND 5 = 0" | "x AND 5 = 1" | "x AND 5 = 4" | "x AND 5 = 5"
proof -
  have "unat (x AND 5) \<le> 5" using word_and_le1 [of x 5] by (simp add: word_le_nat_alt)
  then have "unat (x AND 5) \<in> {0, 1, 2, 3, 4, 5}" by auto
  then have "x AND 5 \<in> {0, 1, 2, 3, 4, 5}" by (simp add: word_unat_eq_iff)
  moreover have "(x AND 5) AND 2 = 0" by (simp add: and.assoc)
  ultimately show ?thesis using that by auto
qed

lemma masked_report:
  assumes e: "e \<in> {0, 1, 4, 5}" and kernel: "evs AND (EPOLLIN OR EPOLLOUT) AND NOT e = 0"
  shows "report_mask (masked e evs) = masked e evs" "masked e evs AND NOT e = 0"
    "e AND NOT (masked e evs) = (if evs AND (EPOLLERR OR EPOLLHUP) \<noteq> 0 then 0 else e AND NOT evs)"
proof -
  have m: "masked e evs = (if evs AND (EPOLLERR OR EPOLLHUP) \<noteq> 0 then (evs AND 5) OR (5 AND e) else evs AND 5)"
  proof -
    have "(x OR (y AND e)) AND y = (x AND y) OR (y AND e)" for x y :: u32
      by (rule bit_word_eqI) (auto simp: bit_simps)
    then show ?thesis by (simp add: masked_def EPOLLIN_def EPOLLOUT_def)
  qed
  have r: "report_mask (masked e evs) = (if masked e evs AND 1 \<noteq> 0 then 1 else 0) OR (if masked e evs AND 4 \<noteq> 0 then 4 else 0)"
  proof -
    have "reported (masked e evs) x \<longleftrightarrow> masked e evs AND x \<noteq> 0" for x
      by (simp add: reported_def masked_bits(1))
    then show ?thesis by (simp only: report_mask_def ev_defs)
  qed
  have n: "e AND NOT evs = e AND NOT (evs AND 5)" using e
    by (auto simp: bit.conj_disj_distrib)
  have k: "(evs AND 5) AND NOT e = 0" using kernel by (simp add: EPOLLIN_def EPOLLOUT_def and.assoc)
  define v where "v = evs AND 5"
  define c where "c \<longleftrightarrow> evs AND (EPOLLERR OR EPOLLHUP) \<noteq> 0"
  have "v \<in> {0, 1, 4, 5}" unfolding v_def by (cases evs rule: and_5) simp_all
  then have "report_mask (masked e evs) = masked e evs \<and> masked e evs AND NOT e = 0
      \<and> e AND NOT (masked e evs) = (if c then 0 else e AND NOT v)"
    using e k unfolding r unfolding m c_def [symmetric] v_def [symmetric]
    by (cases c; elim insertE) simp_all
  then show "report_mask (masked e evs) = masked e evs" "masked e evs AND NOT e = 0"
    "e AND NOT (masked e evs) = (if evs AND (EPOLLERR OR EPOLLHUP) \<noteq> 0 then 0 else e AND NOT evs)"
    unfolding n v_def c_def by blast+
qed

text \<open>A report of the kernel for a context, which names registered events and possibly an error or
  a hang-up, never makes the earlier version abort; it keeps the invariant, and if \<open>epoll_ctl\<close>
  succeeds exactly the reported events are unregistered, all of them after an error.  In the
  version that is built a hang-up on a descriptor that only waits for reading aborts.\<close>

lemma nio_reports_handled:
  assumes inv: "io_inv io" and p: "p \<in> set (m_fdContexts io)"
    and kernel: "evs AND (EPOLLIN OR EPOLLOUT) AND NOT (fc_events (io_ctx io p)) = 0"
  shows "\<exists>io'. nio_process_event (Ctx p, evs, rt) io = Inr io' \<and> io_inv io'
    \<and> fc_events (io_ctx io' p) =
        (if rt \<noteq> 0 then fc_events (io_ctx io p)
         else if evs AND (EPOLLERR OR EPOLLHUP) \<noteq> 0 then 0
         else fc_events (io_ctx io p) AND NOT evs)"
proof -
  let ?e = "fc_events (io_ctx io p)" let ?m = "masked ?e evs"
  have fc: "fc_inv (io_ctx io p)" using inv p by (simp add: io_inv_def)
  have "?e \<in> {0, 1, 4, 5}" using fc by (simp add: fc_inv_def)
  note bits = masked_report [OF this kernel]
  obtain io1 where 1: "process_event (Ctx p, ?m, rt) io = Inr io1"
  proof (cases "rt = 0")
    case True
    have "\<not> (\<exists>f. process_event (Ctx p, ?m, 0) io = Inl f)"
      unfolding process_event_aborts [OF inv p] by (simp add: bits)
    then show ?thesis using that True by (cases "process_event (Ctx p, ?m, 0) io") auto
  qed (use process_event_failed that in blast)
  have ev: "fc_events (io_ctx io1 p) = (if rt \<noteq> 0 then ?e else ?e AND NOT ?m)"
  proof (cases "rt = 0")
    case True
    then show ?thesis using process_event_left [OF inv p 1 [unfolded True]] bits(1) by simp
  next
    case False
    obtain io2 where "process_event (Ctx p, ?m, rt) io = Inr io2" "io_ctx io2 = io_ctx io"
      using process_event_failed [OF False] by blast
    with 1 False show ?thesis by simp
  qed
  obtain io' where 2: "nio_process_event (Ctx p, evs, rt) io = Inr io'" "same_but_pipe io1 io'"
    using nio_process_event_masked [where io = io and p = p and evs = evs and rt = rt] unfolding 1
    by (cases "nio_process_event (Ctx p, evs, rt) io") auto
  have "io_inv io'" by (rule io_inv_same [OF 2(2) process_event_inv [OF inv p 1]])
  with 2 ev show ?thesis by (simp add: same_but_pipe_fields(6) [OF 2(2)] bits)
qed

text \<open>A hang-up on the descriptor of the example: with the earlier version its reader is resumed.\<close>

lemma nio_reports_handled_example:
  "\<exists>io'. nio_process_event (Ctx 7, EPOLLHUP, 0) ex_io_read = Inr io' \<and> fc_events (io_ctx io' 7) = 0"
proof -
  have inv: "io_inv ex_io_read" by (rule io_steps_inv [OF ex_io_read_reach ex_io_inv])
  have p: "7 \<in> set (m_fdContexts ex_io_read)" by simp
  have "EPOLLHUP AND (EPOLLIN OR EPOLLOUT) AND NOT (fc_events (io_ctx ex_io_read 7)) = 0"
    by (simp add: EPOLLHUP_def EPOLLIN_def EPOLLOUT_def flip: and.assoc)
  from nio_reports_handled [OF inv p this, of 0] show ?thesis
    by (auto simp: EPOLLHUP_def EPOLLERR_def)
qed

section \<open>How long the idle loop waits\<close>

text \<open>If it does not leave, the idle loop of the earlier version waits for 3000 ms or until the next
  timer, whichever comes first, provided that the timer is less than \<open>2 ^ 31\<close> ms (24.8 days) away;
  in the half of the cases beyond that where bit 31 of the distance is set, the truncation to
  \<open>int\<close> gives \<open>epoll_wait\<close> a negative timeout, which means no limit.\<close>

lemma nio_idle_waits:
  assumes "fst (nio_idle_begin now io) = Idle_wait w"
  defines "d \<equiv> fst (getNextTimer now (io_timers io))"
  shows "(d = NOT 0 \<longrightarrow> w = 3000)
    \<and> (unat d < 2 ^ 31 \<longrightarrow> sint w = min 3000 (int (unat d)))
    \<and> (d \<noteq> NOT 0 \<longrightarrow> bit d 31 \<longrightarrow> sint w < 0)"
proof -
  have w: "w = ucast (nio_clamp d)"
    using assms(1) by (auto simp: nio_idle_begin_def nio_stopping_timeout_def d_def split: prod.splits if_splits)
  have neg: "sint (ucast d :: i32) < 0" if "bit d 31"
    using that by (simp add: sint_uint signed_take_bit_negative_iff bit_simps)
  have pos: "sint (ucast d :: i32) = int (unat d)" if "unat d < 2 ^ 31"
  proof -
    have u: "uint d < 2 ^ 31" using that
      by (simp only: unat_eq_nat_uint nat_less_iff uint_ge_0 of_nat_power of_nat_numeral)
    have "uint (ucast d :: i32) = take_bit 32 (uint d)" by (simp add: unsigned_ucast_eq)
    also have "\<dots> = uint d" by (rule take_bit_int_eq_self) (use u in simp_all)
    finally have "sint (ucast d :: i32) = signed_take_bit 31 (uint d)" by (simp add: sint_uint)
    also have "\<dots> = uint d" by (rule signed_take_bit_int_eq_self) (use u uint_ge_0 [of d] in linarith)+
    finally show ?thesis by (simp only: uint_nat)
  qed
  show ?thesis
  proof (intro conjI impI)
    show "w = 3000" if "d = NOT 0" using that by (simp add: w nio_clamp_def)
    show "sint w = min 3000 (int (unat d))" if "unat d < 2 ^ 31"
    proof -
      have "d \<noteq> NOT 0" using that by (auto simp: unsigned_minus_1_eq_mask mask_eq_exp_minus_1)
      with pos [OF that] show ?thesis by (simp add: w nio_clamp_def)
    qed
    show "sint w < 0" if "d \<noteq> NOT 0" "bit d 31"
      using that neg by (simp add: w nio_clamp_def)
  qed
qed


section \<open>The contract both versions keep\<close>

text \<open>The registry does not see the pipe.\<close>

lemma abs_io_same: "same_but_pipe a b \<Longrightarrow> abs_io b = abs_io a"
  by (rule abs_cong) (auto simp: same_but_pipe_fields)

interpretation earlier: waiter_registry nio_do spec_do valid_call
proof unfold_locales
  fix io io' :: "'a io_manager" and c :: "'a io_call" and r
  assume inv: "io_inv io" and c: "valid_call c"
  have same: "same_result (io_do c io) (nio_do c io)" by (rule nio_do_same) simp
  then show "abs_result (nio_do c io) = spec_do c (abs_io io)"
    unfolding calls.exec_refines [OF inv c, symmetric]
    by (cases "io_do c io"; cases "nio_do c io") (auto simp: abs_io_same)
  assume r: "nio_do c io = Inr (r, io')"
  from same r obtain io1 where "io_do c io = Inr (r, io1)" "same_but_pipe io1 io'"
    by (cases "io_do c io") auto
  with inv c show "io_inv io'" using calls.exec_inv io_inv_same by blast
qed

lemma nio_ctor_Inr:
  "nio_IOManager_ctor this s tm epfd rp fds rf rc ids = Inr io
     \<longleftrightarrow> IOManager_ctor this s tm epfd rp fds rf rc ids = Inr io"
  by (simp add: nio_IOManager_ctor_def IOManager_ctor_def nio_contextResize_eq Let_def)

text \<open>With the earlier version too the kernel's interest list follows the contexts.\<close>

lemma nio_interest_list:
  assumes "nio_IOManager_ctor this s tm epfd rp fds rf rc ids = Inr io0"
    and "list_all valid_call cs" and "run_calls nio_do cs io0 = Inr (rs, io)"
  shows "accepted (io_ctl io) \<and> interest (io_ctl io) i =
    (if i < length (m_fdContexts io) \<and> fc_events (io_ctx io (m_fdContexts io ! i)) \<noteq> 0
     then Some (EPOLLET OR fc_events (io_ctx io (m_fdContexts io ! i))) else None)"
  by (rule earlier.run_interest [OF ctor_inv [OF assms(1) [unfolded nio_ctor_Inr]] assms(2,3)])


end
