(* ===== verification/Blocking_IO.thy ===== *)
theory Blocking_IO
  imports Hook IO_Registry Scheduler_System
begin

text \<open>
  The components together: a hooked call that would block registers its fiber as a waiter and
  suspends it; while it is suspended other threads use the IO manager and the event loop handles
  reports; when the kernel reports the descriptor, or the timeout timer fires, the fiber is
  scheduled, a worker takes it, and the call goes on.  A hooked \<open>sleep\<close> and the round of the event
  loop that ends it.  The lemmas use the registry the IO manager
  implements (\<open>IO_Registry\<close>) in place of its contexts.
\<close>

section \<open>Other registrations\<close>

text \<open>The operations that may change the registration of event \<open>e\<close> of descriptor \<open>n\<close>.\<close>

fun touches :: "nat \<Rightarrow> u32 \<Rightarrow> 'cb io_act \<Rightarrow> bool" where
  "touches n e (Call (Add fd e' cb sched cur rt)) \<longleftrightarrow> nat fd = n \<and> e' = e"
| "touches n e (Call (Del fd e' rt)) \<longleftrightarrow> nat fd = n \<and> e' = e"
| "touches n e (Call (Cancel fd e' rt)) \<longleftrightarrow> nat fd = n \<and> e' = e"
| "touches n e (Call (Cancel_all fd rt)) \<longleftrightarrow> nat fd = n"
| "touches n e (Report m evs rt) \<longleftrightarrow> m = n"

lemma rg_this_simps [simp]: "rg_this (hand_over w R) = rg_this R" "rg_this (resume n e R) = rg_this R"
  by (cases w; simp) (auto simp: resume_def forget_def split: option.split)

lemma spec_act_untouched:
  assumes "spec_act a R = Inr (r, R')" and "\<not> touches n e a"
  shows "rg_wait R' (n, e) = rg_wait R (n, e) \<and> rg_this R' = rg_this R"
proof (cases a)
  case (Call c)
  then show ?thesis using assms by (cases c) (auto simp: forget_def split: if_splits)
next
  case (Report m evs rt)
  then show ?thesis using assms by (auto simp: spec_report_def Let_def split: if_splits)
qed

lemma run_untouched:
  assumes "run_calls spec_act as R = Inr (rs, R')" and "\<forall>a\<in>set as. \<not> touches n e a"
  shows "rg_wait R' (n, e) = rg_wait R (n, e) \<and> rg_this R' = rg_this R"
  using assms
proof (induction "as" arbitrary: R rs)
  case (Cons a as)
  then obtain r R1 rs' where 1: "spec_act a R = Inr (r, R1)" "run_calls spec_act as R1 = Inr (rs', R')"
    by auto
  from spec_act_untouched [OF 1(1), of n e] Cons.IH [OF 1(2)] Cons.prems(2) show ?case by simp
qed simp

text \<open>So a waiter stays where it is while others are served.\<close>

lemma waiter_stays:
  assumes inv: "io_inv io" and "list_all valid_act as" and "\<forall>a\<in>set as. \<not> touches n e a"
    and r: "run_calls act_do as io = Inr (rs, io')" and w: "waits io (n, e) = Some x"
  shows "io_inv io'" "waits io' (n, e) = Some x" "n < length (m_fdContexts io')" "io_this io' = io_this io"
proof -
  show "io_inv io'" by (rule acts.run_inv [OF inv assms(2) r])
  have "run_calls spec_act as (abs_io io) = Inr (rs, abs_io io')"
    using acts.run_refines [OF inv assms(2)] r by simp
  from run_untouched [OF this assms(3)] w
  show w': "waits io' (n, e) = Some x" and "io_this io' = io_this io" by (simp_all add: abs_io_def)
  show "n < length (m_fdContexts io')" using w' by (auto simp: waits_def split: if_splits)
qed

section \<open>Waking the fiber\<close>

lemma hand_over_own:
  assumes "nonempty t"
  shows "m_fibers (rg_sched (hand_over (rg_this R, t) R)) = m_fibers (rg_sched R) @ [t]"
  using assms by (simp add: schedule_def scheduleNoLock_def tickle_def)

text \<open>A report of exactly event \<open>e\<close> for a waiter of the manager's own scheduler puts its task at
  the end of the queue.\<close>

lemma report_wakes:
  assumes inv: "io_inv io" and n: "n < length (m_fdContexts io)" and e: "e \<in> {READ, WRITE}"
    and w: "waits io (n, e) = Some (io_this io, t)" and m: "report_mask evs = e" and t: "nonempty t"
  obtains io' where "process_event (Ctx (m_fdContexts io ! n), evs, 0) io = Inr io'"
    "m_fibers (io_sched io') = m_fibers (io_sched io) @ [t]" "waits io' (n, e) = None"
proof -
  have b: "READ AND READ \<noteq> 0" "READ AND WRITE = 0" "WRITE AND READ = 0" "WRITE AND WRITE \<noteq> 0"
    by (simp_all add: READ_def WRITE_def)
  let ?R = "abs_io io"
  have R: "rg_wait ?R (n, e) = Some (rg_this ?R, t)" using w by (simp add: abs_io_def)
  have "spec_report n e 0 ?R = Inr (resume n e ?R)"
    using e R b by (auto simp: spec_report_def)
  with process_event_refines [OF inv n refl, of evs 0] m
  obtain io' where p: "process_event (Ctx (m_fdContexts io ! n), evs, 0) io = Inr io'"
    "abs_io io' = resume n e ?R"
    by (cases "process_event (Ctx (m_fdContexts io ! n), evs, 0) io") auto
  have "m_fibers (rg_sched (resume n e ?R)) = m_fibers (rg_sched ?R) @ [t]"
    using hand_over_own [OF t, of "forget n e ?R"] R by (simp add: resume_def forget_def del: hand_over.simps)
  then have q: "m_fibers (io_sched io') = m_fibers (io_sched io) @ [t]"
    unfolding p(2) [symmetric] by (simp add: abs_io_def)
  have "rg_wait (abs_io io') (n, e) = None" unfolding p(2) by simp
  then show thesis using that p(1) q by (simp add: abs_io_def)
qed

text \<open>The waiter \<open>do_io\<close> leaves.\<close>

lemma blocked_waiter:
  assumes h: "h_iom h = Some io" and wait: "can_wait fd e cur io"
    and eagain: "skip_eintr tries = Some (-1, EAGAIN)"
  obtains io1 where "do_io_attempt fd e to w tries cur now ta 0 h
      = Inr (Blocked (if to \<noteq> -1 then Some ta else None), h\<lparr>h_errno := EAGAIN, h_iom := Some io1\<rparr>)"
    "io_inv io1" "io_this io1 = io_this io"
    "waits io1 (nat fd, e) = Some (io_this io1, fiber_task (Some (fst cur)) (-1))"
proof -
  let ?h0 = "h\<lparr>h_errno := EAGAIN\<rparr>"
  define io0 where "io0 = (if to \<noteq> -1 then io_add_condition_timer to (Timeout w fd e) w now ta io else io)"
  obtain io1 where a: "addEvent fd e None (Some (io_this io)) cur 0 io0 = Inr (0, io1)"
    "do_io_wait fd e to w cur now ta 0 ?h0
      = Inr (Blocked (if to \<noteq> -1 then Some ta else None), ?h0\<lparr>h_iom := Some io1\<rparr>)"
    using do_io_wait_ok [of ?h0 io fd e cur to w now ta] h wait by (auto simp: io0_def)
  have io0: "can_wait fd e cur io0" "io_this io0 = io_this io"
    using wait by (simp_all add: io0_def add_condition_timer_can_wait add_condition_timer_same)
  then have inv0: "io_inv io0" and v: "0 \<le> fd" "e = READ \<or> e = WRITE" by (auto simp: can_wait_def)
  have this1: "io_this io1 = io_this io" using addEvent_this [OF a(1)] io0(2) by simp
  have "spec_do (Add fd e None (Some (io_this io)) cur 0) (abs_io io0) = Inr (0, abs_io io1)"
    using addEvent_refines [OF inv0 v, of None "Some (io_this io)" cur 0] a(1) by simp
  then have "(waits io0)((nat fd, e) \<mapsto> (io_this io, fiber_task (Some (fst cur)) (-1))) = waits io1"
    by (auto simp: abs_io_def resumption_def split: if_splits)
  then have "waits io1 (nat fd, e) = Some (io_this io, fiber_task (Some (fst cur)) (-1))"
    by (metis fun_upd_same)
  moreover have "io_inv io1" by (rule addEvent_inv [OF inv0 _ a(1)]) simp
  ultimately show thesis
    using that a(2) this1 eagain by (simp add: do_io_attempt_def)
qed

lemma blocked_result:
  assumes "h_iom h = Some io" and "can_wait fd e cur io" and "skip_eintr tries = Some (-1, EAGAIN)"
    and block: "do_io_attempt fd e to w tries cur now ta 0 h = Inr (Blocked timer, h1)" "h_iom h1 = Some io1"
  shows "h1 = h\<lparr>h_errno := EAGAIN, h_iom := Some io1\<rparr>" "timer = (if to \<noteq> -1 then Some ta else None)"
    "io_inv io1" "waits io1 (nat fd, e) = Some (io_this io1, fiber_task (Some (fst cur)) (-1))"
proof -
  obtain io1' where *: "do_io_attempt fd e to w tries cur now ta 0 h
      = Inr (Blocked (if to \<noteq> -1 then Some ta else None), h\<lparr>h_errno := EAGAIN, h_iom := Some io1'\<rparr>)"
    "io_inv io1'" "waits io1' (nat fd, e) = Some (io_this io1', fiber_task (Some (fst cur)) (-1))"
    by (rule blocked_waiter [OF assms(1-3)])
  have h1: "h1 = h\<lparr>h_errno := EAGAIN, h_iom := Some io1'\<rparr>" and t: "timer = (if to \<noteq> -1 then Some ta else None)"
    using block(1) unfolding *(1) by simp_all
  have "io1' = io1" using block(2) by (simp add: h1)
  then show "h1 = h\<lparr>h_errno := EAGAIN, h_iom := Some io1\<rparr>" "timer = (if to \<noteq> -1 then Some ta else None)"
    "io_inv io1" "waits io1 (nat fd, e) = Some (io_this io1, fiber_task (Some (fst cur)) (-1))"
    using h1 t *(2,3) by simp_all
qed

section \<open>How a blocked call goes on\<close>

lemma fetch_only:
  assumes "m_fibers s = [fiber_task (Some f) (-1)]" and "st f \<noteq> EXEC"
  shows "\<exists>s'. fetch me st s = Inr (fiber_task (Some f) (-1), False, s') \<and> m_fibers s' = []"
  using assms by (auto simp: fetch_def fiber_task_def nonempty_def)

text \<open>C20: a hooked call that would block, on a descriptor that becomes ready.  Whatever other threads
  do with other registrations in between, the report of the kernel schedules the waiting fiber,
  once; if nothing else is queued the next worker takes it; and when it runs, the call tries the
  operation again.\<close>

theorem ready_call_retries:
  assumes h: "h_iom h = Some io" "h_cancelled h w = 0" and wait: "can_wait fd e cur io"
    and eagain: "skip_eintr tries = Some (-1, EAGAIN)"
    and block: "do_io_attempt fd e to w tries cur now ta 0 h = Inr (Blocked timer, h1)" "h_iom h1 = Some io1"
    and others: "list_all valid_act as" "\<forall>a\<in>set as. \<not> touches (nat fd) e a"
      "run_calls act_do as io1 = Inr (rs, io2)"
    and ready: "report_mask evs = e"
  shows "\<exists>io3. process_event (Ctx (m_fdContexts io2 ! nat fd), evs, 0) io2 = Inr io3
    \<and> m_fibers (io_sched io3) = m_fibers (io_sched io2) @ [fiber_task (Some (fst cur)) (-1)]
    \<and> (m_fibers (io_sched io2) = [] \<and> st (fst cur) \<noteq> EXEC \<longrightarrow>
         (\<exists>s. fetch me st (io_sched io3) = Inr (fiber_task (Some (fst cur)) (-1), False, s) \<and> m_fibers s = []))
    \<and> (\<forall>tm. timer_inv tm \<and> ta \<in> tm_live tm \<longrightarrow>
         (\<exists>h2. do_io_resume w timer (h1\<lparr>h_iom := Some (io3\<lparr>io_timers := tm\<rparr>)\<rparr>) = Inr (Attempt, h2)))"
proof -
  have h1: "h1 = h\<lparr>h_errno := EAGAIN, h_iom := Some io1\<rparr>" "timer = (if to \<noteq> -1 then Some ta else None)"
    and w1: "io_inv io1" "waits io1 (nat fd, e) = Some (io_this io1, fiber_task (Some (fst cur)) (-1))"
    by (rule blocked_result [OF h(1) wait eagain block])+
  have e: "e \<in> {READ, WRITE}" using wait by (simp add: can_wait_def)
  note w2 = waiter_stays [OF w1(1) others w1(2)]
  obtain io3 where io3: "process_event (Ctx (m_fdContexts io2 ! nat fd), evs, 0) io2 = Inr io3"
    "m_fibers (io_sched io3) = m_fibers (io_sched io2) @ [fiber_task (Some (fst cur)) (-1)]"
    by (rule report_wakes [OF w2(1,3) e w2(2) [folded w2(4)] ready]) simp
  have "\<exists>h2. do_io_resume w timer (h1\<lparr>h_iom := Some (io3\<lparr>io_timers := tm\<rparr>)\<rparr>) = Inr (Attempt, h2)"
    if "timer_inv tm" "ta \<in> tm_live tm" for tm
    using h(2) by (auto simp: do_io_resume_def cancel_timer_def cancel_eq [OF that] h1 Let_def)
  with io3 fetch_only [of "io_sched io3" "fst cur" st me] show ?thesis by auto
qed

text \<open>The callback of the timeout timer, before and after the report.\<close>

lemma cancelEvent_table: "cancelEvent fd e rt io = Inr (b, io') \<Longrightarrow> m_fdContexts io' = m_fdContexts io"
  by (auto simp: cancelEvent_def cancelEvent_on_def trigger_def Let_def post_table split: if_splits)

lemma cancelEvent_abs:
  assumes "io_inv io" and "0 \<le> fd" and "e = READ \<or> e = WRITE"
  obtains b io' where "cancelEvent fd e 0 io = Inr (b, io')" "abs_io io' = resume (nat fd) e (abs_io io)"
    "m_fdContexts io' = m_fdContexts io" "io_inv io'"
proof -
  note r = cancelEvent_refines [OF assms, of 0]
  obtain b io' where c: "cancelEvent fd e 0 io = Inr (b, io')"
    using r by (cases "cancelEvent fd e 0 io") (auto split: if_splits)
  then have "abs_io io' = resume (nat fd) e (abs_io io)"
    using r by (auto simp: resume_none split: if_splits)
  moreover have "io_inv io'" by (rule io_step_inv [OF io_cancel [OF c] assms(1)])
  ultimately show thesis using that c cancelEvent_table [OF c] by blast
qed

lemma m_fibers_resume:
  assumes "rg_wait R (n, e) = Some (rg_this R, t)" and "nonempty t"
  shows "m_fibers (rg_sched (resume n e R)) = m_fibers (rg_sched R) @ [t]"
  using hand_over_own [OF assms(2), of "forget n e R"] assms(1)
  by (simp add: resume_def forget_def del: hand_over.simps)

lemma resume_timed_out:
  assumes "h_iom h = Some io" and "h_cancelled h w = ETIMEDOUT"
    and "timer_inv (io_timers io)" and "\<forall>a. timer = Some a \<longrightarrow> a \<in> tm_live (io_timers io)"
  shows "\<exists>h'. do_io_resume w timer h = Inr (Returned (-1), h') \<and> h_errno h' = ETIMEDOUT"
  using assms
  by (cases timer) (auto simp: do_io_resume_def cancel_timer_def cancel_eq Let_def ETIMEDOUT_def)

text \<open>C21: if the report and the timeout come together, in either order, the fiber is scheduled exactly
  once; and in both orders the call, when the fiber resumes, returns -1 with \<open>ETIMEDOUT\<close>, also when
  the descriptor was ready first, whatever timer calls were made meanwhile (the call holds a
  pointer to its timer, so the timer object is still there).\<close>

theorem ready_and_timeout_wake_once:
  assumes h: "h_iom h = Some io" "h_cancelled h w = 0" "h_tinfo_alive h w" and wait: "can_wait fd e cur io"
    and eagain: "skip_eintr tries = Some (-1, EAGAIN)"
    and block: "do_io_attempt fd e to w tries cur now ta 0 h = Inr (Blocked timer, h1)" "h_iom h1 = Some io1"
    and ready: "report_mask evs = e"
  defines "p \<equiv> m_fdContexts io1 ! nat fd"
    and "woken \<equiv> m_fibers (io_sched io1) @ [fiber_task (Some (fst cur)) (-1)]"
  shows "\<exists>ioa ha ioa' iob hb iob'.
      process_event (Ctx p, evs, 0) io1 = Inr ioa \<and> on_timeout w fd e 0 (h1\<lparr>h_iom := Some ioa\<rparr>) = Inr ha
    \<and> on_timeout w fd e 0 h1 = Inr hb \<and> h_iom hb = Some iob \<and> process_event (Ctx p, evs, 0) iob = Inr iob'
    \<and> h_iom ha = Some ioa' \<and> m_fibers (io_sched ioa') = woken
    \<and> m_fibers (io_sched iob') = woken
    \<and> (\<forall>tm. timer_inv tm \<and> ta \<in> tm_live tm \<longrightarrow>
        (\<exists>h2. do_io_resume w timer (ha\<lparr>h_iom := Some (ioa'\<lparr>io_timers := tm\<rparr>)\<rparr>) = Inr (Returned (-1), h2)
              \<and> h_errno h2 = ETIMEDOUT)
        \<and> (\<exists>h2. do_io_resume w timer (hb\<lparr>h_iom := Some (iob'\<lparr>io_timers := tm\<rparr>)\<rparr>) = Inr (Returned (-1), h2)
              \<and> h_errno h2 = ETIMEDOUT))"
proof -
  have h1: "h1 = h\<lparr>h_errno := EAGAIN, h_iom := Some io1\<rparr>" "timer = (if to \<noteq> -1 then Some ta else None)"
    and w1: "io_inv io1" "waits io1 (nat fd, e) = Some (io_this io1, fiber_task (Some (fst cur)) (-1))"
    by (rule blocked_result [OF h(1) wait eagain block])+
  have e: "e = READ \<or> e = WRITE" and fd: "0 \<le> fd" using wait by (simp_all add: can_wait_def)
  have n: "nat fd < length (m_fdContexts io1)" using w1(2) by (auto simp: waits_def split: if_splits)
  have w: "rg_wait (abs_io io1) (nat fd, e) = Some (rg_this (abs_io io1), fiber_task (Some (fst cur)) (-1))"
    using w1(2) by (simp add: abs_io_def)
  have q: "m_fibers (rg_sched (resume (nat fd) e (abs_io io1))) = woken"
    using m_fibers_resume [OF w] by (simp add: woken_def) (simp add: abs_io_def)
  obtain ioa where a: "process_event (Ctx p, evs, 0) io1 = Inr ioa" "m_fibers (io_sched ioa) = woken"
    "waits ioa (nat fd, e) = None"
    unfolding p_def woken_def by (rule report_wakes [OF w1(1) n _ w1(2) ready]) (use e in simp_all)
  have inva: "io_inv ioa" using process_event_inv [OF w1(1) _ a(1)] n by (simp add: p_def)
  obtain ba ioa' where a': "cancelEvent fd e 0 ioa = Inr (ba, ioa')" "abs_io ioa' = resume (nat fd) e (abs_io ioa)"
    by (rule cancelEvent_abs [OF inva fd e])
  have "abs_io ioa' = abs_io ioa" unfolding a'(2) by (rule resume_none) (simp add: abs_io_def a(3))
  then have qa: "m_fibers (io_sched ioa') = woken"
    using a(2) by (metis abs_io_def registry.select_convs(3))
  obtain bb iob where b: "cancelEvent fd e 0 io1 = Inr (bb, iob)" "abs_io iob = resume (nat fd) e (abs_io io1)"
    "m_fdContexts iob = m_fdContexts io1" "io_inv iob"
    by (rule cancelEvent_abs [OF w1(1) fd e])
  have "rg_wait (abs_io iob) (nat fd, e) = None" by (simp add: b(2))
  then have "spec_report (nat fd) e 0 (abs_io iob) = Inr (abs_io iob)"
    using e by (auto simp: spec_report_def READ_def WRITE_def)
  with process_event_refines [OF b(4), of "nat fd" p evs 0] n ready
  obtain iob' where b': "process_event (Ctx p, evs, 0) iob = Inr iob'" "abs_io iob' = abs_io iob"
    by (cases "process_event (Ctx p, evs, 0) iob") (auto simp: b(3) p_def)
  have qb: "m_fibers (io_sched iob') = woken"
    using b'(2) b(2) q by (metis abs_io_def registry.select_convs(3))
  have cx: "h_cancelled (h1\<lparr>h_iom := x\<rparr>) w = 0" "h_tinfo_alive (h1\<lparr>h_iom := x\<rparr>) w" for x
    using h(2,3) by (simp_all add: h1)
  let ?hc = "h1\<lparr>h_cancelled := (h_cancelled h1)(w := ETIMEDOUT)\<rparr>"
  have ta: "on_timeout w fd e 0 (h1\<lparr>h_iom := Some ioa\<rparr>) = Inr (?hc\<lparr>h_iom := Some ioa'\<rparr>)"
    "on_timeout w fd e 0 h1 = Inr (?hc\<lparr>h_iom := Some iob\<rparr>)"
    using a'(1) b(1) cx cx [of "h_iom h1"] h1(1) by (simp_all add: on_timeout_def Let_def)
  have res: "\<exists>h2. do_io_resume w timer (?hc\<lparr>h_iom := Some (x\<lparr>io_timers := tm\<rparr>)\<rparr>) = Inr (Returned (-1), h2)
              \<and> h_errno h2 = ETIMEDOUT" if "timer_inv tm" "ta \<in> tm_live tm" for tm x
    by (rule resume_timed_out [of _ "x\<lparr>io_timers := tm\<rparr>"]) (use that h1(2) in simp_all)
  show ?thesis
    by (rule exI [of _ ioa], rule exI [of _ "?hc\<lparr>h_iom := Some ioa'\<rparr>"], rule exI [of _ ioa'],
        rule exI [of _ iob], rule exI [of _ "?hc\<lparr>h_iom := Some iob\<rparr>"], rule exI [of _ iob'])
      (use a(1) ta b'(1) qa qb res in simp)
qed

text \<open>Once the first timer is overdue (\<open>Timer\<close>), a round of the event loop handles the reports and
  nothing else: the calls that wait with a timeout are not ended by it any more.\<close>

lemma overdue_round:
  assumes "m_timers (io_timers io) = a # ts" and "m_next (tm_heap (io_timers io) a) < now"
    and "m_previouseTime (io_timers io) \<le> now"
  shows "idle_end now probe es io
    = process_events es (io\<lparr>io_timers := (io_timers io)\<lparr>m_previouseTime := now\<rparr>\<rparr>)"
  using assms leD [OF assms(3)]
  by (simp add: idle_end_def listExpiredCb_def listExpiredCb_locked_def delectClockRollover_def Let_def)

section \<open>Sleeping\<close>

text \<open>The callback of the timer of \<open>sleep\<close>, \<open>usleep\<close> and \<open>nanosleep\<close>:
  \<open>std::bind(&IOManager::schedule, iom, fiber, -1)\<close>.\<close>

definition on_sleep_end :: "addr \<Rightarrow> 'u hook_state \<Rightarrow> 'u hook_state res" where
  "on_sleep_end fiber h =
     (case h_iom h of
        None \<Rightarrow> Inl (Undefined ''iom is null'')
      | Some io \<Rightarrow> Inr (h\<lparr>h_iom := Some (post (io_this io) (fiber_task (Some fiber) (-1)) io)\<rparr>))"

lemma io_add_timer_fields:
  "io_timers (io_add_timer ms cb now ta io) = snd (addTimer ms cb False now ta (io_timers io))"
  "io_sched (io_add_timer ms cb now ta io) = io_sched io"
  by (simp_all add: io_add_timer_def onTimerInsertedAtFront_def io_tickle_def Let_def split: prod.split)

lemma addTimer_fields:
  "set (m_timers (snd (addTimer ms cb r now a tm))) = insert a (set (m_timers tm))"
  "tm_heap (snd (addTimer ms cb r now a tm)) = (tm_heap tm)(a := Timer_ctor ms cb r now)"
  "tm_live (snd (addTimer ms cb r now a tm)) = insert a (tm_live tm)"
  "m_previouseTime (snd (addTimer ms cb r now a tm)) = m_previouseTime tm"
  by (simp_all add: addTimer_def tset.insert_set)

lemma on_sched_fibers: "m_fibers (io_sched (on_sched f io)) = m_fibers (f (io_sched io))"
proof -
  have "io_sched ((io_tickle ^^ n) a) = io_sched a" for n and a :: "'a io_manager"
    by (induction n) (simp_all add: io_tickle_def)
  then show ?thesis by (simp add: on_sched_def Let_def)
qed

text \<open>A round of the event loop without reports schedules the callbacks of the timers it fires.\<close>

lemma idle_round:
  assumes "timer_inv (io_timers io)" and "probe \<notin> tm_live (io_timers io)"
  obtains io2 where "idle_end t probe [] io = Inr io2"
    "m_fibers (io_sched io2) = m_fibers (io_sched io)
       @ filter nonempty (map (\<lambda>a. cb_task (m_cb (tm_heap (io_timers io) a)) (-1)) (fired t (io_timers io)))"
proof -
  let ?cbs = "map (\<lambda>a. m_cb (tm_heap (io_timers io) a)) (fired t (io_timers io))"
  obtain tm where tm: "listExpiredCb t probe (io_timers io) = Inr (?cbs, tm)"
    using listExpiredCb_result [OF assms, of t] by blast
  have "[ft. ft \<leftarrow> ys, nonempty ft] = filter nonempty ys" for ys :: "'a timer_fn task list"
    by (induction ys) auto
  then have sched: "m_fibers (snd (schedule_range cb_task ?cbs s)) = m_fibers s @ filter nonempty (map (\<lambda>c. cb_task c (-1)) ?cbs)" for s
    by (simp add: schedule_range_spec del: map_map)
  show thesis
  proof (cases "?cbs = []")
    case True
    then show ?thesis using that [of "io\<lparr>io_timers := tm\<rparr>"] tm by (simp add: idle_end_def)
  next
    case False
    let ?io2 = "on_sched (\<lambda>s. snd (schedule_range cb_task ?cbs s)) (io\<lparr>io_timers := tm\<rparr>)"
    have "idle_end t probe [] io = Inr ?io2" using tm False by (simp add: idle_end_def Let_def)
    moreover have "m_fibers (io_sched ?io2) = m_fibers (io_sched io) @ filter nonempty (map (\<lambda>c. cb_task c (-1)) ?cbs)"
      unfolding on_sched_fibers sched by simp
    ultimately show ?thesis using that by (simp add: comp_def)
  qed
qed

lemma on_sleep_end_resumes:
  assumes "h_iom h = Some io"
  shows "\<exists>h3 io3. on_sleep_end fiber h = Inr h3 \<and> h_iom h3 = Some io3
    \<and> m_fibers (io_sched io3) = m_fibers (io_sched io) @ [fiber_task (Some fiber) (-1)]"
proof -
  have "m_fibers (io_sched (post (io_this io) (fiber_task (Some fiber) (-1)) io))
      = m_fibers (io_sched io) @ [fiber_task (Some fiber) (-1)]"
    by (simp add: post_def on_sched_fibers schedule_def scheduleNoLock_def tickle_def)
  then show ?thesis using assms by (simp add: on_sleep_end_def)
qed

text \<open>A fiber sleeps: the timer that ends the sleep is set.\<close>

definition sleeping :: "addr \<Rightarrow> u64 \<Rightarrow> addr \<Rightarrow> 'u hcb io_manager \<Rightarrow> bool" where
  "sleeping ta due fiber io \<longleftrightarrow>
     timer_inv (io_timers io) \<and> ta \<in> set (m_timers (io_timers io))
     \<and> m_next (tm_heap (io_timers io) ta) = due
     \<and> m_cb (tm_heap (io_timers io) ta) = Some (Fn (ScheduleFiber fiber))"

lemma post_timers: "io_timers (post sc t io) = io_timers io"
proof -
  have "io_timers ((io_tickle ^^ n) a) = io_timers a" for n and a :: "'a io_manager"
    by (induction n) (simp_all add: io_tickle_def)
  then show ?thesis by (simp add: post_def on_sched_def Let_def)
qed

lemma trigger_if_timers: "trigger_if c p e io = Inr io' \<Longrightarrow> io_timers io' = io_timers io"
  by (auto simp: trigger_if_def trigger_def post_timers set_ctx_def split: if_splits)

lemma process_event_timers: "process_event ev io = Inr io' \<Longrightarrow> io_timers io' = io_timers io"
proof -
  assume r: "process_event ev io = Inr io'"
  obtain src evs rt where ev: "ev = (src, evs, rt)" by (cases ev)
  show ?thesis
  proof (cases src)
    case Tickle_pipe
    then show ?thesis using r by (auto simp: ev process_event_def)
  next
    case (Ctx p)
    have c: "io_timers (epoll_ctl op i w r io) = io_timers io" for op i w r by (simp add: epoll_ctl_def)
    show ?thesis using r unfolding ev Ctx process_event_Ctx Let_def
      by (auto simp: c dest!: trigger_if_timers split: if_splits)
  qed
qed

lemma process_events_timers: "process_events es io = Inr io' \<Longrightarrow> io_timers io' = io_timers io"
  by (induction es arbitrary: io) (auto dest!: process_event_timers)

text \<open>The timers' half of a round, before the reports are handled.\<close>

lemma idle_round_timers:
  assumes "timer_inv (io_timers io)" and "probe \<notin> tm_live (io_timers io)"
  obtains io2 where "\<forall>es. idle_end t probe es io = process_events es io2"
    "m_fibers (io_sched io2) = m_fibers (io_sched io)
       @ filter nonempty (map (\<lambda>a. cb_task (m_cb (tm_heap (io_timers io) a)) (-1)) (fired t (io_timers io)))"
    "timer_inv (io_timers io2)"
    "set (m_timers (io_timers io)) - set (fired t (io_timers io)) \<subseteq> set (m_timers (io_timers io2))"
    "\<forall>a. a \<notin> set (fired t (io_timers io)) \<longrightarrow> tm_heap (io_timers io2) a = tm_heap (io_timers io) a"
proof -
  let ?cbs = "map (\<lambda>a. m_cb (tm_heap (io_timers io) a)) (fired t (io_timers io))"
  obtain tm where tm: "listExpiredCb t probe (io_timers io) = Inr (?cbs, tm)"
    "set (m_timers tm) = {a \<in> set (m_timers (io_timers io)).
        a \<in> set (fired t (io_timers io)) \<longrightarrow> m_recurring (tm_heap (io_timers io) a)}"
    "tm_heap tm = (\<lambda>a. if a \<in> set (fired t (io_timers io)) then fired_timer t (tm_heap (io_timers io) a)
        else tm_heap (io_timers io) a)"
    using listExpiredCb_result [OF assms, of t] by blast
  define io2 where "io2 = (if ?cbs \<noteq> [] then on_sched (\<lambda>s. snd (schedule_range cb_task ?cbs s)) (io\<lparr>io_timers := tm\<rparr>)
      else io\<lparr>io_timers := tm\<rparr>)"
  have "io_timers ((io_tickle ^^ n) a) = io_timers a" for n and a :: "'a io_manager"
    by (induction n) (simp_all add: io_tickle_def)
  then have tm2: "io_timers io2 = tm" by (simp add: io2_def on_sched_def Let_def)
  have round: "\<forall>es. idle_end t probe es io = process_events es io2"
    by (simp add: idle_end_def tm(1) io2_def Let_def)
  obtain io2' where "idle_end t probe [] io = Inr io2'" "m_fibers (io_sched io2') = m_fibers (io_sched io)
       @ filter nonempty (map (\<lambda>a. cb_task (m_cb (tm_heap (io_timers io) a)) (-1)) (fired t (io_timers io)))"
    by (rule idle_round [OF assms, where t = t])
  then have fibers: "m_fibers (io_sched io2) = m_fibers (io_sched io)
       @ filter nonempty (map (\<lambda>a. cb_task (m_cb (tm_heap (io_timers io) a)) (-1)) (fired t (io_timers io)))"
    by (simp add: round)
  have inv: "timer_inv (io_timers io2)" unfolding tm2 by (rule listExpiredCb_inv [OF assms tm(1)])
  show thesis by (rule that [OF round fibers inv]) (auto simp: tm2 tm(2,3))
qed

text \<open>A round of the event loop while a fiber sleeps.\<close>

lemma sleeping_round:
  assumes s: "sleeping ta due fiber io"
    and poll: "probe \<notin> tm_live (io_timers io)" "m_previouseTime (io_timers io) \<le> t"
  shows "\<exists>io2 new. (\<forall>es. idle_end t probe es io = process_events es io2)
      \<and> m_fibers (io_sched io2) = m_fibers (io_sched io) @ new
      \<and> (t = due \<and> \<not> overdue t (io_timers io) \<longrightarrow> cb_task (Some (Fn (ScheduleFiber fiber))) (-1) \<in> set new)
      \<and> (t \<noteq> due \<or> overdue t (io_timers io) \<longrightarrow> sleeping ta due fiber io2)
      \<and> (due < t \<longrightarrow> new = [])"
proof -
  let ?tm = "io_timers io"
  have inv: "timer_inv ?tm" and set: "ta \<in> set (m_timers ?tm)" and due: "m_next (tm_heap ?tm ta) = due"
    and cb: "m_cb (tm_heap ?tm ta) = Some (Fn (ScheduleFiber fiber))"
    using s by (simp_all add: sleeping_def)
  have roll: "\<not> rolled_over t ?tm" using leD [OF poll(2)] by (simp add: rolled_over_def)
  obtain io2 where round: "\<forall>es. idle_end t probe es io = process_events es io2"
    "m_fibers (io_sched io2) = m_fibers (io_sched io)
       @ filter nonempty (map (\<lambda>a. cb_task (m_cb (tm_heap ?tm a)) (-1)) (fired t ?tm))"
    "timer_inv (io_timers io2)" "set (m_timers ?tm) - set (fired t ?tm) \<subseteq> set (m_timers (io_timers io2))"
    "\<forall>a. a \<notin> set (fired t ?tm) \<longrightarrow> tm_heap (io_timers io2) a = tm_heap ?tm a"
    by (rule idle_round_timers [OF inv poll(1), where t = t])
  define new where "new = filter nonempty (map (\<lambda>a. cb_task (m_cb (tm_heap ?tm a)) (-1)) (fired t ?tm))"
  have on_time: "cb_task (Some (Fn (ScheduleFiber fiber))) (-1) \<in> set new" if "t = due" "\<not> overdue t ?tm"
  proof -
    have "ta \<in> set (fired t ?tm)" using that roll set due by (simp add: fired_def)
    then have "cb_task (m_cb (tm_heap ?tm ta)) (-1) \<in> set (map (\<lambda>a. cb_task (m_cb (tm_heap ?tm a)) (-1)) (fired t ?tm))"
      by (simp only: set_map) (rule imageI)
    moreover have "nonempty (cb_task (Some c) (-1))" for c :: "'a hcb timer_fn"
      by (simp add: nonempty_def cb_task_def)
    ultimately show ?thesis unfolding cb new_def by (simp only: set_filter mem_Collect_eq simp_thms)
  qed
  have other: "sleeping ta due fiber io2" if "t \<noteq> due \<or> overdue t ?tm"
  proof -
    have "ta \<notin> set (fired t ?tm)" using that roll due by (auto simp: fired_def)
    then show ?thesis using round(3-5) set due cb by (auto simp: sleeping_def)
  qed
  have late: "new = []" if "due < t"
  proof -
    have "overdue t ?tm" using that set due by (auto simp: overdue_def)
    then show ?thesis using roll by (simp add: fired_def new_def)
  qed
  show ?thesis
    by (rule exI [of _ io2], rule exI [of _ new])
      (use round(1) round(2) [folded new_def] on_time other late in blast)
qed

text \<open>C22: A hooked \<open>sleep\<close> sets a timer for its millisecond, and only a round of the event loop that polls
  at that very millisecond ends it.  In any later state in which the timer is still set, and with
  a clock that has not gone back since the last poll, a round handles the timers first and then
  whatever the kernel reports.  At the due time, as long as no timer is overdue, it schedules the
  callback of the sleep, which puts exactly the sleeping fiber at the end of the manager's queue.
  At any other time, before or after, the round leaves the timer set; and after the due time it
  runs no timer at all, so that the tasks it schedules come from reports only.\<close>

theorem sleep_ends_at_its_millisecond:
  assumes h: "h_iom h = Some io" "timer_inv (io_timers io)" "ta \<notin> tm_live (io_timers io)"
    and sleep: "sleep_for ms fiber now ta h = Inr (Sleep_switch, h1)"
  shows "(\<exists>io1. h_iom h1 = Some io1 \<and> sleeping ta (ms + now) fiber io1)
    \<and> (\<forall>io2 t probe. sleeping ta (ms + now) fiber io2
          \<and> probe \<notin> tm_live (io_timers io2) \<and> m_previouseTime (io_timers io2) \<le> t \<longrightarrow>
        (\<exists>io3 new. (\<forall>es. idle_end t probe es io2 = process_events es io3)
          \<and> m_fibers (io_sched io3) = m_fibers (io_sched io2) @ new
          \<and> (t = ms + now \<and> \<not> overdue t (io_timers io2) \<longrightarrow>
               cb_task (Some (Fn (ScheduleFiber fiber))) (-1) \<in> set new)
          \<and> (t \<noteq> ms + now \<longrightarrow>
               (\<forall>es io4. process_events es io3 = Inr io4 \<longrightarrow> sleeping ta (ms + now) fiber io4))
          \<and> (ms + now < t \<longrightarrow> new = [])))
    \<and> (\<forall>h2 io2. h_iom h2 = Some io2 \<longrightarrow>
        (\<exists>h3 io3. on_sleep_end fiber h2 = Inr h3 \<and> h_iom h3 = Some io3
           \<and> m_fibers (io_sched io3) = m_fibers (io_sched io2) @ [fiber_task (Some fiber) (-1)]))"
proof -
  let ?io1 = "io_add_timer ms (Some (Fn (ScheduleFiber fiber))) now ta io"
  have h1: "h1 = h\<lparr>h_iom := Some ?io1\<rparr>"
    using sleep h(1) by (auto simp: sleep_for_def split: if_splits)
  have "sleeping ta (ms + now) fiber ?io1"
    using h(2,3) by (simp add: sleeping_def io_add_timer_fields addTimer_inv addTimer_fields Timer_ctor_def)
  then have "\<exists>io1. h_iom h1 = Some io1 \<and> sleeping ta (ms + now) fiber io1" by (simp add: h1)
  moreover have "\<forall>io2 t probe. sleeping ta (ms + now) fiber io2
          \<and> probe \<notin> tm_live (io_timers io2) \<and> m_previouseTime (io_timers io2) \<le> t \<longrightarrow>
        (\<exists>io3 new. (\<forall>es. idle_end t probe es io2 = process_events es io3)
          \<and> m_fibers (io_sched io3) = m_fibers (io_sched io2) @ new
          \<and> (t = ms + now \<and> \<not> overdue t (io_timers io2) \<longrightarrow>
               cb_task (Some (Fn (ScheduleFiber fiber))) (-1) \<in> set new)
          \<and> (t \<noteq> ms + now \<longrightarrow>
               (\<forall>es io4. process_events es io3 = Inr io4 \<longrightarrow> sleeping ta (ms + now) fiber io4))
          \<and> (ms + now < t \<longrightarrow> new = []))"
  proof (intro allI impI, elim conjE)
    fix io2 t probe
    assume s: "sleeping ta (ms + now) fiber io2" "probe \<notin> tm_live (io_timers io2)" "m_previouseTime (io_timers io2) \<le> t"
    have keep: "sleeping ta (ms + now) fiber io4"
      if "sleeping ta (ms + now) fiber io3" "process_events es io3 = Inr io4" for es io3 io4
      using that process_events_timers [OF that(2)] by (simp add: sleeping_def)
    show "\<exists>io3 new. (\<forall>es. idle_end t probe es io2 = process_events es io3)
          \<and> m_fibers (io_sched io3) = m_fibers (io_sched io2) @ new
          \<and> (t = ms + now \<and> \<not> overdue t (io_timers io2) \<longrightarrow>
               cb_task (Some (Fn (ScheduleFiber fiber))) (-1) \<in> set new)
          \<and> (t \<noteq> ms + now \<longrightarrow>
               (\<forall>es io4. process_events es io3 = Inr io4 \<longrightarrow> sleeping ta (ms + now) fiber io4))
          \<and> (ms + now < t \<longrightarrow> new = [])"
      using sleeping_round [OF s] keep by blast
  qed
  moreover have "\<forall>h2 io2. h_iom h2 = Some io2 \<longrightarrow>
        (\<exists>h3 io3. on_sleep_end fiber h2 = Inr h3 \<and> h_iom h3 = Some io3
           \<and> m_fibers (io_sched io3) = m_fibers (io_sched io2) @ [fiber_task (Some fiber) (-1)])"
    using on_sleep_end_resumes by blast
  ultimately show ?thesis by blast
qed

theorem sleep_ends_at_its_millisecond_witness:
  "\<exists>io1 io2. sleep 2 0 100 8 ex_hook = Inr (Sleep_switch, ex_hook\<lparr>h_iom := Some io1\<rparr>)
     \<and> idle_end 2100 9 [] io1 = Inr io2
     \<and> cb_task (Some (Fn (ScheduleFiber 0))) (-1) \<in> set (m_fibers (io_sched io2))
     \<and> (\<exists>io2'. idle_end 2000 9 [] io1 = Inr io2' \<and> sleeping 8 2100 0 io2')"
proof -
  have t: "io_timers ex_hio = TimerManager_ctor 0"
    using ctor_fields [OF ex_hio_ctor] by simp
  have h: "h_iom ex_hook = Some ex_hio" "h_enable ex_hook" by (simp_all add: ex_hook_def ex_hook0_def)
  have i: "timer_inv (io_timers ex_hio)" "8 \<notin> tm_live (io_timers ex_hio)"
    by (simp_all add: t timer_inv_ctor) (simp add: TimerManager_ctor_def)
  let ?io1 = "io_add_timer 2000 (Some (Fn (ScheduleFiber 0))) 100 8 ex_hio"
  have s: "sleep_for 2000 0 100 8 ex_hook = Inr (Sleep_switch, ex_hook\<lparr>h_iom := Some ?io1\<rparr>)"
    by (simp add: sleep_for_def h)
  note r = sleep_ends_at_its_millisecond [OF h(1) i s]
  have z: "sleeping 8 (2000 + 100) 0 ?io1" using r [THEN conjunct1] by auto
  have p: "9 \<notin> tm_live (io_timers ?io1)" "m_previouseTime (io_timers ?io1) \<le> 2100"
    "m_previouseTime (io_timers ?io1) \<le> 2000" "\<not> overdue 2100 (io_timers ?io1)"
    by (simp_all add: io_add_timer_fields addTimer_fields t overdue_def)
      (simp_all add: TimerManager_ctor_def Timer_ctor_def)
  obtain io3 new where a: "\<forall>es. idle_end 2100 9 es ?io1 = process_events es io3"
    "m_fibers (io_sched io3) = m_fibers (io_sched ?io1) @ new"
    "cb_task (Some (Fn (ScheduleFiber 0))) (-1) \<in> set new"
    using r [THEN conjunct2, THEN conjunct1, rule_format, of ?io1 9 2100] z p by auto
  obtain io4 where b: "\<forall>es. idle_end 2000 9 es ?io1 = process_events es io4"
    "\<forall>es io5. process_events es io4 = Inr io5 \<longrightarrow> sleeping 8 (2000 + 100) 0 io5"
    using r [THEN conjunct2, THEN conjunct1, rule_format, of ?io1 9 2000] z p by auto
  have "idle_end 2000 9 [] ?io1 = Inr io4 \<and> sleeping 8 2100 0 io4"
    using b(1) b(2) [rule_format, of "[]" io4] by simp
  moreover have "idle_end 2100 9 [] ?io1 = Inr io3" using a(1) by simp
  moreover have "sleep 2 0 100 8 ex_hook = Inr (Sleep_switch, ex_hook\<lparr>h_iom := Some ?io1\<rparr>)"
    using s by (simp add: sleep_def sleep_ms_def)
  moreover have "cb_task (Some (Fn (ScheduleFiber 0))) (-1) \<in> set (m_fibers (io_sched io3))"
    using a(2,3) by simp
  ultimately show ?thesis by blast
qed

section \<open>Examples\<close>

lemma ex_block:
  obtains io1 where "do_io_attempt 7 READ 3000 9 [(-1, EAGAIN)] (0, EXEC) 100 8 0 ex_hook
      = Inr (Blocked (Some 8), ex_hook\<lparr>h_errno := EAGAIN, h_iom := Some io1\<rparr>)"
proof -
  have s: "skip_eintr [(-1, EAGAIN)] = Some (-1, EAGAIN)" by (simp add: errno_defs)
  obtain io1 where "do_io_attempt 7 READ 3000 9 [(-1, EAGAIN)] (0, EXEC) 100 8 0 ex_hook
      = Inr (Blocked (if (3000 :: u64) \<noteq> -1 then Some 8 else None), ex_hook\<lparr>h_errno := EAGAIN, h_iom := Some io1\<rparr>)"
    by (rule blocked_waiter [of ex_hook ex_hio, OF _ ex_hio_can_wait s]) (simp add: ex_hook_def ex_hook0_def)
  then show thesis using that by simp
qed

theorem ready_call_retries_witness:
  "\<exists>h1 io1 io3. do_io_attempt 7 READ 3000 9 [(-1, EAGAIN)] (0, EXEC) 100 8 0 ex_hook = Inr (Blocked (Some 8), h1)
     \<and> h_iom h1 = Some io1 \<and> process_event (Ctx (m_fdContexts io1 ! 7), EPOLLIN, 0) io1 = Inr io3
     \<and> m_fibers (io_sched io3) = m_fibers (io_sched io1) @ [fiber_task (Some 0) (-1)]"
proof -
  obtain io1 where b: "do_io_attempt 7 READ 3000 9 [(-1, EAGAIN)] (0, EXEC) 100 8 0 ex_hook
      = Inr (Blocked (Some 8), ex_hook\<lparr>h_errno := EAGAIN, h_iom := Some io1\<rparr>)" by (rule ex_block)
  have h: "h_iom ex_hook = Some ex_hio" "h_cancelled ex_hook 9 = 0" by (simp_all add: ex_hook_def ex_hook0_def)
  have s: "skip_eintr [(-1, EAGAIN)] = Some (-1, EAGAIN)" by (simp add: errno_defs)
  have "\<exists>io3. process_event (Ctx (m_fdContexts io1 ! 7), EPOLLIN, 0) io1 = Inr io3
      \<and> m_fibers (io_sched io3) = m_fibers (io_sched io1) @ [fiber_task (Some 0) (-1)]"
    using ready_call_retries [OF h ex_hio_can_wait s b, of io1 "[]" "[]" io1 EPOLLIN "\<lambda>_. INIT" 0] ex_report
    by auto
  with b show ?thesis by auto
qed

theorem ready_and_timeout_wake_once_witness:
  "\<exists>h1 hb. do_io_attempt 7 READ 3000 9 [(-1, EAGAIN)] (0, EXEC) 100 8 0 ex_hook = Inr (Blocked (Some 8), h1)
     \<and> on_timeout 9 7 READ 0 h1 = Inr hb
     \<and> (\<exists>iob' h2. do_io_resume 9 (Some 8) (hb\<lparr>h_iom := Some iob'\<rparr>) = Inr (Returned (-1), h2)
          \<and> h_errno h2 = ETIMEDOUT)"
proof -
  obtain io1 where b: "do_io_attempt 7 READ 3000 9 [(-1, EAGAIN)] (0, EXEC) 100 8 0 ex_hook
      = Inr (Blocked (Some 8), ex_hook\<lparr>h_errno := EAGAIN, h_iom := Some io1\<rparr>)" by (rule ex_block)
  have h: "h_iom ex_hook = Some ex_hio" "h_cancelled ex_hook 9 = 0" "h_tinfo_alive ex_hook 9"
    by (simp_all add: ex_hook_def ex_hook0_def)
  have s: "skip_eintr [(-1, EAGAIN)] = Some (-1, EAGAIN)" by (simp add: errno_defs)
  let ?tm = "snd (addTimer 5 None False 100 8 (TimerManager_ctor 0))"
  have tm: "timer_inv ?tm" "8 \<in> tm_live ?tm"
    by (rule addTimer_inv [OF timer_inv_ctor], simp add: TimerManager_ctor_def) (simp add: addTimer_fields)
  from ready_and_timeout_wake_once [OF h ex_hio_can_wait s b, of io1 EPOLLIN] b ex_report tm show ?thesis
    by fastforce
qed

end
