(* ===== verification/Connect_Config.thy ===== *)
theory Connect_Config
  imports Config Hook
begin

text \<open>
  The configured time-out of \<open>connect\<close> (\<open>hook.cc\<close>): the variable \<open>tcp.connect.timeout\<close>, the
  static \<open>_HookIniter\<close> that copies its value to \<open>s_connect_timeout\<close> and listens to its changes,
  and \<open>hook_init\<close>.  The state outside the configuration is the state of the hooked calls.
  The lemmas show that the copy follows the variable as long as its changes do not overlap, what
  happens when they do, and that a configured time-out ends a blocked \<open>connect\<close>.
\<close>

section \<open>Static initialisation\<close>

text \<open>\<open>HOOK_FUN\<close> and \<open>hook_init\<close>: \<open>orig\<close> holds the pointers \<open>sleep_f\<close>, \<open>usleep_f\<close> and so on by name,
  \<open>dlsym\<close> is a parameter; \<open>is_inited\<close> is tested.\<close>

definition HOOK_FUN :: "string list" where
  "HOOK_FUN =
     [''sleep'', ''usleep'', ''nanosleep'', ''socket'', ''connect'', ''accept'', ''read'', ''readv'',
      ''recv'', ''recvfrom'', ''recvmsg'', ''write'', ''writev'', ''send'', ''sendto'', ''sendmsg'',
      ''close'', ''fcntl'', ''ioctl'', ''getsockopt'', ''setsockopt'']"

record 'f hook_table =
  ht_is_inited :: bool
  ht_orig :: "string \<Rightarrow> 'f option"

definition hook_init :: "(string \<Rightarrow> 'f option) \<Rightarrow> 'f hook_table \<Rightarrow> 'f hook_table" where
  "hook_init dlsym t =
     (if ht_is_inited t then t
      else t\<lparr>ht_orig := (\<lambda>name. if name \<in> set HOOK_FUN then dlsym name else ht_orig t name)\<rparr>)"

text \<open>\<open>ConfigVar<int>\<close>, with \<open>boost::lexical_cast\<close> between \<open>int\<close> and strings as parameters.\<close>

definition int_type :: "(string \<Rightarrow> int res) \<Rightarrow> (int \<Rightarrow> string res) \<Rightarrow> int var_type" where
  "int_type cast_from cast_to =
     \<lparr>vt_name = ''int'', vt_from = LexicalCast cast_from, vt_to = LexicalCast cast_to, vt_eq = (=)\<rparr>"

definition g_tcp_connect_timeout ::
  "int var_type \<Rightarrow> (int, 's) config \<Rightarrow> addr option res \<times> (int, 's) config" where
  "g_tcp_connect_timeout ty c =
     Lookup_or_create ty ''tcp.connect.timeout'' 5000 ''tcp connect timeout'' c"

definition connect_timeout_listener :: "(int, 'u hook_state) listener" where
  "connect_timeout_listener old_value new_value h = (None, on_connect_timeout_changed new_value h)"

definition HookIniter ::
  "(string \<Rightarrow> 'f option) \<Rightarrow> addr \<Rightarrow> 'f hook_table \<times> (int, 'u hook_state) config
    \<Rightarrow> 'f hook_table \<times> (int, 'u hook_state) config" where
  "HookIniter dlsym var st =
     (case st of (t, c) \<Rightarrow>
        let c1 = c\<lparr>cf_ext := (cf_ext c)\<lparr>h_connect_timeout := word_of_int (getValue var c)\<rparr>\<rparr>
        in (hook_init dlsym t, snd (addListener connect_timeout_listener var c1)))"

text \<open>The initialisation of the file's static objects, in their order.\<close>

definition hook_statics ::
  "int var_type \<Rightarrow> (string \<Rightarrow> 'f option) \<Rightarrow> 'f hook_table \<times> (int, 'u hook_state) config
    \<Rightarrow> ('f hook_table \<times> (int, 'u hook_state) config) res" where
  "hook_statics ty dlsym st =
     (case st of (t, c) \<Rightarrow>
        (case g_tcp_connect_timeout ty c of
           (Inr (Some var), c1) \<Rightarrow> Inr (HookIniter dlsym var (t, c1))
         | (Inr None, c1) \<Rightarrow> Inl (Undefined ''g_tcp_connect_timeout is null'')
         | (Inl f, c1) \<Rightarrow> Inl f))"

definition hook_config :: "'u hook_state \<Rightarrow> (int, 'u hook_state) config" where
  "hook_config h = \<lparr>cf_vars = [], cf_datas = [], cf_fun_id = (\<lambda>_. 0), cf_ext = h\<rparr>"

text \<open>The state after start-up.\<close>

definition timeout_var :: "int var_type \<Rightarrow> (int, 'u hook_state) config_var" where
  "timeout_var ty =
     \<lparr>cv_name = ''tcp.connect.timeout'', cv_description = ''tcp connect timeout'', cv_type = ty,
      cv_val = 5000, cv_cbs = [(1, connect_timeout_listener)]\<rparr>"

definition started :: "int var_type \<Rightarrow> 'u hook_state \<Rightarrow> (int, 'u hook_state) config" where
  "started ty h =
     \<lparr>cf_vars = [timeout_var ty], cf_datas = [(''tcp.connect.timeout'', 0)],
      cf_fun_id = (\<lambda>_. 0)(vt_name ty := 1), cf_ext = h\<lparr>h_connect_timeout := 5000\<rparr>\<rparr>"

lemma hook_statics_state:
  "hook_statics ty dlsym (t, hook_config h) = Inr (hook_init dlsym t, started ty h)"
  by (simp add: hook_statics_def g_tcp_connect_timeout_def hook_config_def Lookup_or_create_def Let_def
      name_char_def HookIniter_def addListener_def ConfigVar_ctor_def getValue_def upd_var_def tolower_def
      started_def timeout_var_def)

text \<open>\<open>is_inited\<close> is never set: each call looks every function up again.\<close>

lemma hook_init_again:
  "\<not> ht_is_inited t \<Longrightarrow> hook_init d2 (hook_init d1 t) = hook_init d2 t \<and> \<not> ht_is_inited (hook_init d1 t)"
  by (simp add: hook_init_def cong: if_cong)

lemma hook_init_table:
  "\<not> ht_is_inited t \<Longrightarrow> name \<in> set HOOK_FUN \<Longrightarrow> ht_orig (hook_init dlsym t) name = dlsym name"
  by (simp add: hook_init_def)

section \<open>The hooked calls leave the copy alone\<close>

text \<open>The hooked calls, part by part, and what runs between their parts.\<close>

inductive hooked_call :: "'u hook_state \<Rightarrow> 'u hook_state \<Rightarrow> bool" where
  hc_enable: "hooked_call h (set_hook_enable flag h)"
| hc_timeout: "on_timeout w fd event rt h = Inr h' \<Longrightarrow> hooked_call h h'"
| hc_start: "do_io_start fd timeout_so h = Inr (st, h') \<Longrightarrow> hooked_call h h'"
| hc_attempt: "do_io_attempt fd event to w tries cur now ta rt h = Inr (pc, h') \<Longrightarrow> hooked_call h h'"
| hc_resume: "do_io_resume w timer h = Inr (pc, h') \<Longrightarrow> hooked_call h h'"
| hc_accept: "accept_end fd st fl h = Inr (n, h') \<Longrightarrow> hooked_call h h'"
| hc_sleep: "sleep_for ms fiber now ta h = Inr (nx, h') \<Longrightarrow> hooked_call h h'"
| hc_socket: "socket fd st fl h = Inr (n, h') \<Longrightarrow> hooked_call h h'"
| hc_connect: "connect fd n e w cur now ta rt h = Inr (cp, h') \<Longrightarrow> hooked_call h h'"
| hc_connect_resume: "connect_resume w timer h = Inr (cp, h') \<Longrightarrow> hooked_call h h'"
| hc_connect_check: "connect_check g ge error h = (n, h') \<Longrightarrow> hooked_call h h'"
| hc_close: "close_hook fd rt h = Inr h' \<Longrightarrow> hooked_call h h'"
| hc_fcntl: "fcntl_hook fcntl_f fd cmd arg (h, ()) = Inr (x, h', ()) \<Longrightarrow> hooked_call h h'"
| hc_ioctl: "ioctl_hook ioctl_f fd req (h, ()) = Inr (x, h', ()) \<Longrightarrow> hooked_call h h'"
| hc_getsockopt: "getsockopt_hook rt h = (n, h') \<Longrightarrow> hooked_call h h'"
| hc_setsockopt: "setsockopt_hook fd level optname v rt h = Inr (n, h') \<Longrightarrow> hooked_call h h'"
| hc_others: "hooked_call h (h\<lparr>h_fdm := m, h_iom := iom, h_errno := e, h_cancelled := ca, h_tinfo_alive := al\<rparr>)"

lemma create_ctx_keeps: "create_ctx fd st fl h = Inr h' \<Longrightarrow> h_connect_timeout h' = h_connect_timeout h"
  by (auto simp: create_ctx_def split: prod.splits)

lemma do_io_wait_keeps:
  "do_io_wait fd event to w cur now ta rt h = Inr (pc, h') \<Longrightarrow> h_connect_timeout h' = h_connect_timeout h"
  by (auto simp: do_io_wait_def Let_def split: option.splits if_splits)

lemma connect_wait_keeps:
  "connect_wait fd to n e w cur now ta rt h = Inr (cp, h') \<Longrightarrow> h_connect_timeout h' = h_connect_timeout h"
  by (auto simp: connect_wait_def Let_def split: option.splits if_splits)

lemma connect_start_keeps: "connect_start_of fd h = Inr (st, h') \<Longrightarrow> h_connect_timeout h' = h_connect_timeout h"
  by (auto simp: connect_start_of_def split: option.splits if_splits)

lemma connect_keeps:
  "connect fd n e w cur now ta rt h = Inr (cp, h') \<Longrightarrow> h_connect_timeout h' = h_connect_timeout h"
  by (auto simp: connect_def connect_with_timeout_def dest!: connect_start_keeps connect_wait_keeps
      split: connect_start.splits if_splits) (metis connect_start.exhaust)+

lemma close_keeps: "close_hook fd rt h = Inr h' \<Longrightarrow> h_connect_timeout h' = h_connect_timeout h"
  by (auto simp: close_hook_def Let_def split: option.splits if_splits)

lemma fcntl_keeps:
  "fcntl_hook f fd cmd arg (h, k) = Inr (x, h', k') \<Longrightarrow> h_connect_timeout h' = h_connect_timeout h"
  by (cases cmd) (auto simp: fcntl_hook_def Let_def split: prod.splits if_splits fcntl_arg.splits)

lemma on_timeout_keeps: "on_timeout w fd event rt h = Inr h' \<Longrightarrow> h_connect_timeout h' = h_connect_timeout h"
  by (auto simp: on_timeout_def Let_def split: option.splits if_splits)

lemma do_io_start_keeps:
  assumes "do_io_start fd timeout_so h = Inr (st, h')"
  shows "h_connect_timeout h' = h_connect_timeout h"
proof (cases "h_enable h")
  case True
  then obtain d where "lookup_ctx fd h = Inr d"
    using assms by (cases "lookup_ctx fd h") (simp_all add: do_io_start_def)
  then show ?thesis using assms True by (cases d) (auto simp: do_io_start_def split: if_splits)
qed (use assms in \<open>simp add: do_io_start_def\<close>)

lemma attempt_keeps:
  assumes "do_io_attempt fd event to w tries cur now ta rt h = Inr (pc, h')"
  shows "h_connect_timeout h' = h_connect_timeout h"
proof (cases "skip_eintr tries = Some (-1, EAGAIN)")
  case True
  then show ?thesis using assms do_io_wait_keeps [of fd event to w cur now ta rt "h\<lparr>h_errno := EAGAIN\<rparr>"]
    by (simp add: do_io_attempt_def)
next
  case False
  then show ?thesis using assms by (auto simp: do_io_attempt_def Let_def split: option.splits if_splits)
qed

lemma resume_keeps: "do_io_resume w timer h = Inr (pc, h') \<Longrightarrow> h_connect_timeout h' = h_connect_timeout h"
  by (auto simp: do_io_resume_def Let_def split: option.splits if_splits)

lemma accept_keeps: "accept_end fd st fl h = Inr (n, h') \<Longrightarrow> h_connect_timeout h' = h_connect_timeout h"
  by (auto simp: accept_end_def dest: create_ctx_keeps split: if_splits)

lemma sleep_keeps: "sleep_for ms fiber now ta h = Inr (nx, h') \<Longrightarrow> h_connect_timeout h' = h_connect_timeout h"
  by (auto simp: sleep_for_def Let_def split: option.splits if_splits)

lemma socket_keeps: "socket fd st fl h = Inr (n, h') \<Longrightarrow> h_connect_timeout h' = h_connect_timeout h"
  by (auto simp: socket_def dest: create_ctx_keeps split: if_splits)

lemma connect_resume_keeps: "connect_resume w timer h = Inr (cp, h') \<Longrightarrow> h_connect_timeout h' = h_connect_timeout h"
  by (auto simp: connect_resume_def Let_def split: option.splits if_splits)

lemma connect_check_keeps: "connect_check g ge error h = (n, h') \<Longrightarrow> h_connect_timeout h' = h_connect_timeout h"
  by (auto simp: connect_check_def split: if_splits)

lemma ioctl_keeps: "ioctl_hook f fd req (h, k) = Inr (x, h', k') \<Longrightarrow> h_connect_timeout h' = h_connect_timeout h"
  by (cases req) (auto simp: ioctl_hook_def Let_def split: prod.splits if_splits)

lemma setsockopt_keeps: "setsockopt_hook fd level optname v rt h = Inr (n, h') \<Longrightarrow> h_connect_timeout h' = h_connect_timeout h"
  by (auto simp: setsockopt_hook_def Let_def split: option.splits if_splits)

lemmas keeps = on_timeout_keeps do_io_start_keeps attempt_keeps resume_keeps accept_keeps sleep_keeps
  socket_keeps connect_keeps connect_resume_keeps connect_check_keeps close_keeps fcntl_keeps ioctl_keeps
  setsockopt_keeps

lemma hooked_call_keeps: "hooked_call h h' \<Longrightarrow> h_connect_timeout h' = h_connect_timeout h"
  by (induction rule: hooked_call.induct)
    (simp_all add: set_hook_enable_def getsockopt_hook_def keeps)

section \<open>The copy follows the variable\<close>

text \<open>A listener that does not throw and does not touch \<open>s_connect_timeout\<close>.\<close>

definition quiet :: "('v, 'u hook_state) listener \<Rightarrow> bool" where
  "quiet cb \<longleftrightarrow>
     (\<forall>old new h. fst (cb old new h) = None
        \<and> h_connect_timeout (snd (cb old new h)) = h_connect_timeout h)"

text \<open>What can happen after start-up when calls do not overlap: any operation of the configuration
  on any variable, and any hooked call.  Three uses of the configuration are left out: listeners that
  are not quiet, \<open>delListerer\<close> or \<open>clearListener\<close> taking away the listener of \<open>_HookIniter\<close> (key \<open>k\<close> of
  variable \<open>a\<close>), and an \<open>addListener\<close> that replaces it because the counter of keys has wrapped.\<close>

inductive serial_step ::
  "addr \<Rightarrow> u64 \<Rightarrow> (int, 'u hook_state) config \<Rightarrow> (int, 'u hook_state) config \<Rightarrow> bool"
  for a :: addr and k :: u64 where
  s_lookup: "Lookup_or_create ty name d descr c = (r, c') \<Longrightarrow> serial_step a k c c'"
| s_setValue: "b < length (cf_vars c) \<Longrightarrow> setValue val b c = (f, c') \<Longrightarrow> serial_step a k c c'"
| s_fromString: "b < length (cf_vars c) \<Longrightarrow> fromString t b c = (r, c') \<Longrightarrow> serial_step a k c c'"
| s_load: "LoadFromYaml lib root c = (f, c') \<Longrightarrow> serial_step a k c c'"
| s_addListener: "quiet cb \<Longrightarrow> addListener cb b c = (key, c') \<Longrightarrow> b \<noteq> a \<or> key \<noteq> k \<Longrightarrow> serial_step a k c c'"
| s_delListerer: "b \<noteq> a \<or> key \<noteq> k \<Longrightarrow> serial_step a k c (delListerer key b c)"
| s_clearListener: "b \<noteq> a \<Longrightarrow> serial_step a k c (clearListener b c)"
| s_calls: "hooked_call (cf_ext c) h \<Longrightarrow> serial_step a k c (c\<lparr>cf_ext := h\<rparr>)"

text \<open>The invariant: the variable's listeners are quiet apart from \<open>_HookIniter\<close>'s, and the copy is
  the value as \<open>uint64_t\<close>.\<close>

definition listens :: "addr \<Rightarrow> u64 \<Rightarrow> (int, 'u hook_state) config \<Rightarrow> bool" where
  "listens a k c \<longleftrightarrow>
     (\<forall>b < length (cf_vars c). \<forall>(k', cb) \<in> set (cv_cbs (cf_vars c ! b)).
        if b = a \<and> k' = k then cb = connect_timeout_listener else quiet cb)"

definition follows :: "addr \<Rightarrow> u64 \<Rightarrow> (int, 'u hook_state) config \<Rightarrow> bool" where
  "follows a k c \<longleftrightarrow>
     config_inv c \<and> map_of (cf_datas c) ''tcp.connect.timeout'' = Some a
     \<and> vt_name (cv_type (cf_vars c ! a)) = ''int'' \<and> vt_eq (cv_type (cf_vars c ! a)) = (=)
     \<and> k \<in> fst ` set (cv_cbs (cf_vars c ! a)) \<and> listens a k c
     \<and> h_connect_timeout (cf_ext c) = word_of_int (getValue a c)"

lemma run_quiet:
  assumes "\<forall>(k', cb) \<in> set cbs. quiet cb"
  shows "\<exists>s'. run_listeners cbs old new s = (None, s') \<and> h_connect_timeout s' = h_connect_timeout s"
  using assms
proof (induction cbs arbitrary: s)
  case (Cons kcb cbs)
  obtain k' cb where kcb: "kcb = (k', cb)" by (cases kcb)
  have q: "quiet cb" using Cons.prems kcb by simp
  obtain s1 where "cb old new s = (None, s1)" "h_connect_timeout s1 = h_connect_timeout s"
    using q unfolding quiet_def by (metis prod.collapse)
  then show ?case using Cons.IH [of s1] Cons.prems kcb by simp
qed simp

lemma run_with_copy:
  assumes "\<forall>(k', cb) \<in> set cbs. if k' = k then cb = connect_timeout_listener else quiet cb"
    and "k \<in> fst ` set cbs"
  shows "\<exists>s'. run_listeners cbs old new s = (None, s') \<and> h_connect_timeout s' = word_of_int new"
  using assms
proof (induction cbs arbitrary: s)
  case (Cons kcb cbs)
  obtain k' cb where kcb: "kcb = (k', cb)" by (cases kcb)
  have rest: "\<exists>s'. run_listeners cbs old new s1 = (None, s') \<and> h_connect_timeout s' = word_of_int new"
    if s1: "h_connect_timeout s1 = word_of_int new" for s1
  proof (cases "k \<in> fst ` set cbs")
    case True
    then show ?thesis using Cons.IH Cons.prems(1) kcb by simp
  next
    case False
    then have "\<forall>(k', cb) \<in> set cbs. quiet cb" using Cons.prems(1) kcb by (force split: if_splits)
    then show ?thesis using run_quiet [of cbs old new s1] s1 by simp
  qed
  show ?case
  proof (cases "k' = k")
    case True
    then have "cb = connect_timeout_listener" using Cons.prems(1) kcb by simp
    then show ?thesis
      using rest [of "on_connect_timeout_changed new s"] kcb
      by (simp add: connect_timeout_listener_def on_connect_timeout_changed_def)
  next
    case False
    then have "quiet cb" "k \<in> fst ` set cbs" using Cons.prems kcb by auto
    moreover obtain s1 where "cb old new s = (None, s1)"
      using \<open>quiet cb\<close> unfolding quiet_def by (metis prod.collapse)
    ultimately show ?thesis using Cons.IH [of s1] Cons.prems(1) kcb by simp
  qed
qed simp

lemma listensD:
  "listens a k c \<Longrightarrow> b < length (cf_vars c) \<Longrightarrow> (k', cb) \<in> set (cv_cbs (cf_vars c ! b)) \<Longrightarrow>
   if b = a \<and> k' = k then cb = connect_timeout_listener else quiet cb"
  unfolding listens_def by blast

lemma listens_shape: "same_shape c c' \<Longrightarrow> listens a k c' = listens a k c"
  by (auto simp: listens_def same_shape_def)

text \<open>The listeners' part of \<open>setValue\<close>.\<close>

lemma notify_follows:
  assumes "listens a k c" and "k \<in> fst ` set (cv_cbs (cf_vars c ! a))" and "b < length (cf_vars c)"
  shows "\<exists>s. run_listeners (cv_cbs (cf_vars c ! b)) old new (cf_ext c) = (None, s)
    \<and> h_connect_timeout s = (if b = a then word_of_int new else h_connect_timeout (cf_ext c))"
proof (cases "b = a")
  case True
  have "\<forall>(k', cb) \<in> set (cv_cbs (cf_vars c ! a)). if k' = k then cb = connect_timeout_listener else quiet cb"
    using listensD [OF assms(1)] assms(3) True by fastforce
  from run_with_copy [OF this assms(2), of old new "cf_ext c"] show ?thesis using True by simp
next
  case False
  then have "\<forall>(k', cb) \<in> set (cv_cbs (cf_vars c ! b)). quiet cb"
    using listensD [OF assms(1,3)] by fastforce
  from run_quiet [OF this, of old new "cf_ext c"] show ?thesis using False by simp
qed

lemma setValue_follows:
  assumes inv: "follows a k c" and b: "b < length (cf_vars c)" and r: "setValue val b c = (f, c')"
  shows "follows a k c'"
proof (cases "vt_eq (cv_type (cf_vars c ! b)) val (cv_val (cf_vars c ! b))")
  case True
  then show ?thesis using r inv by (simp add: setValue_def)
next
  case False
  have l: "listens a k c" "k \<in> fst ` set (cv_cbs (cf_vars c ! a))" and a: "a < length (cf_vars c)"
    using inv registered by (auto simp: follows_def)
  obtain s where s: "run_listeners (cv_cbs (cf_vars c ! b)) (cv_val (cf_vars c ! b)) val (cf_ext c) = (None, s)"
    "h_connect_timeout s = (if b = a then word_of_int val else h_connect_timeout (cf_ext c))"
    using notify_follows [OF l b, of "cv_val (cf_vars c ! b)" val] by blast
  then have c': "c' = upd_var b (\<lambda>v. v\<lparr>cv_val := val\<rparr>) (c\<lparr>cf_ext := s\<rparr>)"
    using r False by (simp add: setValue_def)
  note sh = setValue_shape [OF r]
  have "config_inv c'" "listens a k c'"
    using same_shape_inv [OF _ sh] listens_shape [OF sh, of a k] inv by (simp_all add: follows_def)
  then show ?thesis
    using inv a b s(2) c' by (auto simp: follows_def getValue_def nth_list_update_if)
qed

lemma fromString_follows:
  assumes inv: "follows a k c" and b: "b < length (cf_vars c)" and r: "fromString t b c = (x, c')"
  shows "follows a k c'"
proof (cases "vt_from (cv_type (cf_vars c ! b)) t")
  case (Inl f)
  then have "c' = c" using r by (cases f) (auto simp: fromString_def)
  then show ?thesis using inv by simp
next
  case (Inr val)
  obtain f c1 where c1: "setValue val b c = (f, c1)" by (cases "setValue val b c")
  then have "c' = c1" using r Inr by (auto simp: fromString_def split: option.splits fault.splits)
  then show ?thesis using setValue_follows [OF inv b c1] by simp
qed

lemma load_member_follows:
  assumes inv: "follows a k c" and r: "load_member lib i c = (f, c')"
  shows "follows a k c'"
proof (cases "fst i = [] \<or> LookupBase (map tolower (fst i)) c = None")
  case True
  then have "c' = c" using r by (cases "fst i = []") (simp_all add: load_member_def Let_def)
  then show ?thesis using inv by simp
next
  case False
  then obtain b where b: "LookupBase (map tolower (fst i)) c = Some b" by auto
  obtain x c1 where c1: "fromString (member_text lib (snd i)) b c = (x, c1)"
    by (cases "fromString (member_text lib (snd i)) b c")
  have "b < length (cf_vars c)" using registered b inv by (auto simp: follows_def LookupBase_def)
  then have "follows a k c1" using fromString_follows [OF inv _ c1] by simp
  moreover have "c' = c1" using r b c1 False by (cases x) (auto simp: load_member_def)
  ultimately show ?thesis by simp
qed

lemma load_members_follows: "follows a k c \<Longrightarrow> load_members lib js c = (f, c') \<Longrightarrow> follows a k c'"
proof (induction js arbitrary: c)
  case (Cons i js)
  obtain f1 c1 where c1: "load_member lib i c = (f1, c1)" by (cases "load_member lib i c")
  have "follows a k c1" by (rule load_member_follows [OF Cons.prems(1) c1])
  then show ?case using Cons.IH Cons.prems(2) c1 by (cases f1) auto
qed simp

text \<open>An update that leaves names, types and values alone.\<close>

lemma cbs_follows:
  assumes inv: "follows a k c"
    and f: "\<And>v. cv_name (f v) = cv_name v" "\<And>v. cv_type (f v) = cv_type v" "\<And>v. cv_val (f v) = cv_val v"
      "\<And>v. smap_ok (cv_cbs v) \<Longrightarrow> smap_ok (cv_cbs (f v))"
    and k: "b = a \<Longrightarrow> k \<in> fst ` set (cv_cbs (f (cf_vars c ! a)))"
    and l: "\<And>k' cb. b < length (cf_vars c) \<Longrightarrow> (k', cb) \<in> set (cv_cbs (f (cf_vars c ! b))) \<Longrightarrow>
              if b = a \<and> k' = k then cb = connect_timeout_listener else quiet cb"
  shows "follows a k (upd_var b f c)"
proof -
  have "config_inv c" using inv by (simp add: follows_def)
  then have "config_inv (upd_var b f c)" by (rule upd_var_inv) (simp add: f)
  moreover have "listens a k (upd_var b f c)"
    unfolding listens_def
  proof (intro allI impI ballI)
    fix b' x
    assume b': "b' < length (cf_vars (upd_var b f c))" and x: "x \<in> set (cv_cbs (cf_vars (upd_var b f c) ! b'))"
    obtain k' cb where kcb: "x = (k', cb)" by (cases x)
    have "if b' = a \<and> k' = k then cb = connect_timeout_listener else quiet cb"
    proof (cases "b' = b")
      case True
      then show ?thesis using l [of k' cb] b' x kcb by auto
    next
      case False
      then show ?thesis using listensD [of a k c b' k' cb] inv b' x kcb by (simp add: follows_def)
    qed
    then show "case x of (k', cb) \<Rightarrow> if b' = a \<and> k' = k then cb = connect_timeout_listener else quiet cb"
      using kcb by simp
  qed
  ultimately show ?thesis
    using inv f k by (auto simp: follows_def getValue_def nth_list_update_if)
qed

lemma lookup_follows:
  assumes inv: "follows a k c" and r: "Lookup_or_create ty name d descr c = (x, c')"
  shows "follows a k c'"
proof (cases "c' = c")
  case True
  then show ?thesis using inv by simp
next
  case False
  have new: "map_of (cf_datas c) name = None"
    "c' = c\<lparr>cf_vars := cf_vars c @ [ConfigVar_ctor ty name d descr],
          cf_datas := smap_put name (length (cf_vars c)) (cf_datas c)\<rparr>"
    using r False by (auto simp: Lookup_or_create_def Let_def split: option.splits if_splits)
  have a: "a < length (cf_vars c)" and ok: "smap_ok (cf_datas c)" and l: "listens a k c"
    using inv registered by (auto simp: follows_def config_inv_def)
  have "listens a k c'"
    using listensD [OF l] new(2) by (fastforce simp: listens_def ConfigVar_ctor_def nth_append less_Suc_eq)
  moreover have "config_inv c'" using Lookup_or_create_inv [OF _ r] inv by (simp add: follows_def)
  ultimately show ?thesis
    using inv new a ok by (auto simp: follows_def getValue_def nth_append)
qed

lemma ext_follows:
  "follows a k c \<Longrightarrow> h_connect_timeout h = h_connect_timeout (cf_ext c) \<Longrightarrow> follows a k (c\<lparr>cf_ext := h\<rparr>)"
  by (simp add: follows_def config_inv_def listens_def getValue_def)

lemma addListener_follows:
  assumes inv: "follows a k c" and cb: "quiet cb" and r: "addListener cb b c = (key, c')"
    and key: "b \<noteq> a \<or> key \<noteq> k"
  shows "follows a k c'"
proof -
  let ?f = "\<lambda>v :: (int, 'a hook_state) config_var. v\<lparr>cv_cbs := smap_put key cb (cv_cbs v)\<rparr>"
  let ?c = "c\<lparr>cf_fun_id := (cf_fun_id c)(vt_name (cv_type (cf_vars c ! b)) := key)\<rparr>"
  have c': "c' = upd_var b ?f ?c" using r by (auto simp: addListener_def Let_def)
  have inv1: "follows a k ?c" using inv by (simp add: follows_def config_inv_def listens_def getValue_def)
  have sm: "b' < length (cf_vars c) \<Longrightarrow> smap_ok (cv_cbs (cf_vars c ! b'))" for b'
    using inv by (auto simp: follows_def config_inv_def list_all_length)
  show ?thesis unfolding c'
  proof (rule cbs_follows [OF inv1])
    show "k \<in> fst ` set (cv_cbs (?f (cf_vars ?c ! a)))" if "b = a"
      using inv by (auto simp: follows_def smap_put_keys)
    show "if b = a \<and> k' = k then cb' = connect_timeout_listener else quiet cb'"
      if "b < length (cf_vars ?c)" and x: "(k', cb') \<in> set (cv_cbs (?f (cf_vars ?c ! b)))" for k' cb'
    proof -
      have "(k', cb') = (key, cb) \<or> (k', cb') \<in> set (cv_cbs (cf_vars c ! b))"
        using x sm [of b] that(1) by (auto simp: smap_put_mem)
      then show ?thesis using listensD [of a k c b k' cb'] inv cb key that(1) by (auto simp: follows_def)
    qed
  qed simp_all
qed

lemma drop_listener_follows:
  assumes inv: "follows a k c" and key: "b \<noteq> a \<or> key \<noteq> k"
  shows "follows a k (delListerer key b c)"
  unfolding delListerer_def
proof (rule cbs_follows [OF inv])
  show "k \<in> fst ` set (cv_cbs ((\<lambda>v. v\<lparr>cv_cbs := smap_erase key (cv_cbs v)\<rparr>) (cf_vars c ! a)))" if "b = a"
    using inv key that by (force simp: follows_def smap_erase_def)
  show "if b = a \<and> k' = k then cb = connect_timeout_listener else quiet cb"
    if "b < length (cf_vars c)"
      and "(k', cb) \<in> set (cv_cbs ((\<lambda>v. v\<lparr>cv_cbs := smap_erase key (cv_cbs v)\<rparr>) (cf_vars c ! b)))" for k' cb
    using listensD [of a k c b k' cb] inv that by (simp add: follows_def smap_erase_def)
qed simp_all

lemma clear_follows:
  assumes inv: "follows a k c" and b: "b \<noteq> a"
  shows "follows a k (clearListener b c)"
  unfolding clearListener_def by (rule cbs_follows [OF inv]) (simp_all add: b)

lemma serial_step_follows: "serial_step a k c c' \<Longrightarrow> follows a k c \<Longrightarrow> follows a k c'"
  by (induction rule: serial_step.induct)
    (auto simp: LoadFromYaml_def intro: lookup_follows setValue_follows fromString_follows
      load_members_follows addListener_follows drop_listener_follows clear_follows ext_follows hooked_call_keeps)

lemma serial_steps_follow: "(serial_step a k)\<^sup>*\<^sup>* c c' \<Longrightarrow> follows a k c \<Longrightarrow> follows a k c'"
  by (induction rule: rtranclp_induct) (auto intro: serial_step_follows)

lemma started_follows: "follows 0 1 (started (int_type rd wr) h)"
  by (simp add: follows_def config_inv_def started_def timeout_var_def int_type_def listens_def
      getValue_def smap_ok_def name_char_def)

lemma overlapping_base:
  assumes f: "follows a k c" and uv: "u \<noteq> v" "u \<noteq> getValue a c" "v \<noteq> getValue a c"
  shows "\<exists>c1 c2. setValue_notify u a c = (Inr True, c1) \<and> setValue_notify v a c1 = (Inr True, c2)
       \<and> (let c' = setValue_store u a (setValue_store v a c2)
          in getValue a c' = u \<and> h_connect_timeout (cf_ext c') = word_of_int v
             \<and> setValue u a c' = (None, c'))"
proof -
  have a: "a < length (cf_vars c)" and eq: "vt_eq (cv_type (cf_vars c ! a)) = (=)"
    and l: "listens a k c" "k \<in> fst ` set (cv_cbs (cf_vars c ! a))"
    using f registered by (auto simp: follows_def)
  obtain s1 where s1: "run_listeners (cv_cbs (cf_vars c ! a)) (cv_val (cf_vars c ! a)) u (cf_ext c) = (None, s1)"
    using notify_follows [OF l a, of "cv_val (cf_vars c ! a)" u] by blast
  let ?c1 = "c\<lparr>cf_ext := s1\<rparr>"
  have l1: "listens a k ?c1" "k \<in> fst ` set (cv_cbs (cf_vars ?c1 ! a))" "a < length (cf_vars ?c1)"
    using l a by (simp_all add: listens_def)
  obtain s2 where s2: "run_listeners (cv_cbs (cf_vars c ! a)) (cv_val (cf_vars c ! a)) v s1 = (None, s2)"
    "h_connect_timeout s2 = word_of_int v"
    using notify_follows [OF l1, of "cv_val (cf_vars c ! a)" v] by auto
  have n1: "setValue_notify u a c = (Inr True, ?c1)"
    using uv(2) eq s1 by (simp add: setValue_notify_def getValue_def Let_def)
  have n2: "setValue_notify v a ?c1 = (Inr True, ?c1\<lparr>cf_ext := s2\<rparr>)"
    using uv(3) eq s2(1) by (simp add: setValue_notify_def getValue_def Let_def)
  show ?thesis
    by (rule exI [of _ ?c1], rule exI [of _ "?c1\<lparr>cf_ext := s2\<rparr>"])
      (use n1 n2 s2(2) a eq in \<open>simp add: setValue_store_def getValue_def Let_def setValue_def\<close>)
qed

section \<open>Properties\<close>

text \<open>What taking the listener away does: later changes of the variable are not copied.\<close>

lemma unheard_setValue:
  assumes f: "follows a k c" and c1: "c1 = delListerer k a c \<or> c1 = clearListener a c"
    and r: "setValue v a c1 = (x, c2)"
  shows "getValue a c2 = v" "h_connect_timeout (cf_ext c2) = h_connect_timeout (cf_ext c)"
proof -
  have a: "a < length (cf_vars c)" and l: "listens a k c" and eq: "vt_eq (cv_type (cf_vars c ! a)) = (=)"
    using f registered by (auto simp: follows_def)
  have "\<forall>(k', cb) \<in> set (cv_cbs (cf_vars c1 ! a)). quiet cb"
    using c1 a listensD [OF l a] by (auto simp: delListerer_def clearListener_def smap_erase_def)
  then obtain s where s: "run_listeners (cv_cbs (cf_vars c1 ! a)) old v (cf_ext c1) = (None, s)"
      "h_connect_timeout s = h_connect_timeout (cf_ext c1)" if "old = cv_val (cf_vars c1 ! a)" for old
    using run_quiet by metis
  have c1': "a < length (cf_vars c1)" "vt_eq (cv_type (cf_vars c1 ! a)) = (=)" "cf_ext c1 = cf_ext c"
    using c1 a eq by (auto simp: delListerer_def clearListener_def upd_var_def)
  then show "getValue a c2 = v" "h_connect_timeout (cf_ext c2) = h_connect_timeout (cf_ext c)"
    using r s [OF refl] by (auto simp: setValue_def getValue_def Let_def split: if_splits)
qed

text \<open>C26: After start-up the time-out of \<open>connect\<close> is the configured one: whatever configuration
  operations and hooked calls come one after another, the name \<open>tcp.connect.timeout\<close> gives the
  variable of \<open>hook.cc\<close>, and \<open>s_connect_timeout\<close> is its value converted to \<open>uint64_t\<close>, so that
  the value -1 means no time-out.  This holds as long as the listener of \<open>hook.cc\<close> is not removed
  (\<open>delListerer\<close> with its key, \<open>clearListener\<close> on its variable) or replaced, which \<open>addListener\<close> does only
  after \<open>2^64\<close> calls, and as long as the other listeners do not throw, do not write
  \<open>s_connect_timeout\<close> and do not call the configuration.  Once the listener is removed, setting the
  variable leaves \<open>s_connect_timeout\<close> as it is.\<close>

theorem connect_timeout_follows_config:
  "hook_statics (int_type rd wr) dlsym (t, hook_config h) = Inr (t', c0) \<Longrightarrow> (serial_step 0 1)\<^sup>*\<^sup>* c0 c \<Longrightarrow>
     Lookup (int_type rd wr) ''tcp.connect.timeout'' c = Some 0
     \<and> h_connect_timeout (cf_ext c) = word_of_int (getValue 0 c)
     \<and> (getValue 0 c = -1 \<longrightarrow> h_connect_timeout (cf_ext c) = -1)
     \<and> (\<forall>c1 v x c2. c1 \<in> {delListerer 1 0 c, clearListener 0 c} \<and> setValue v 0 c1 = (x, c2) \<longrightarrow>
          getValue 0 c2 = v \<and> h_connect_timeout (cf_ext c2) = h_connect_timeout (cf_ext c))"
proof -
  assume i: "hook_statics (int_type rd wr) dlsym (t, hook_config h) = Inr (t', c0)"
    and run: "(serial_step 0 1)\<^sup>*\<^sup>* c0 c"
  have "c0 = started (int_type rd wr) h" using i by (simp add: hook_statics_state)
  then have f: "follows 0 1 c" using serial_steps_follow [OF run] started_follows by blast
  then have "Lookup (int_type rd wr) ''tcp.connect.timeout'' c = Some 0
     \<and> h_connect_timeout (cf_ext c) = word_of_int (getValue 0 c)"
    by (auto simp: follows_def Lookup_def pointer_cast_def int_type_def)
  moreover have "\<forall>c1 v x c2. c1 \<in> {delListerer 1 0 c, clearListener 0 c} \<and> setValue v 0 c1 = (x, c2) \<longrightarrow>
          getValue 0 c2 = v \<and> h_connect_timeout (cf_ext c2) = h_connect_timeout (cf_ext c)"
    using unheard_setValue [OF f] by blast
  ultimately show ?thesis by auto
qed

lemma started_set:
  assumes "val \<noteq> 5000"
  shows "setValue val 0 (started (int_type rd wr) h) = (None,
    (started (int_type rd wr) h)\<lparr>cf_ext := h\<lparr>h_connect_timeout := word_of_int val\<rparr>,
      cf_vars := [(timeout_var (int_type rd wr))\<lparr>cv_val := val\<rparr>]\<rparr>)"
  using assms by (simp add: setValue_def started_def timeout_var_def int_type_def upd_var_def
      connect_timeout_listener_def on_connect_timeout_changed_def)

theorem connect_timeout_follows_config_witness:
  "h_connect_timeout (cf_ext (snd (setValue (-1) 0 (started (int_type (\<lambda>_. Inr 0) (\<lambda>_. Inr [])) ex_hook0)))) = -1"
proof -
  let ?c = "started (int_type (\<lambda>_. Inr 0) (\<lambda>_. Inr [])) ex_hook0"
  let ?t = "\<lparr>ht_is_inited = False, ht_orig = (\<lambda>_. None)\<rparr> :: unit hook_table"
  obtain f c' where s: "setValue (-1) 0 ?c = (f, c')" by (cases "setValue (-1) 0 ?c")
  then have "serial_step 0 1 ?c c'" by (rule s_setValue [rotated]) (simp add: started_def)
  then have run: "(serial_step 0 1)\<^sup>*\<^sup>* ?c c'" by blast
  have v: "getValue 0 c' = -1" using s by (auto simp: started_set getValue_def)
  have "h_connect_timeout (cf_ext c') = -1"
    using connect_timeout_follows_config
      [OF hook_statics_state [of "int_type (\<lambda>_. Inr 0) (\<lambda>_. Inr [])" "\<lambda>_. None" ?t ex_hook0] run] v
    by blast
  then show ?thesis using s by simp
qed

text \<open>C28: Two overlapping calls of \<open>setValue\<close> can leave \<open>s_connect_timeout\<close> at another value than the
  variable: \<open>setValue\<close> runs the listeners under the read lock and assigns under the write lock,
  so that the thread whose listener ran first can assign last.  Setting the variable again to
  the value it has then does not repair the difference.\<close>

theorem overlapping_setValue_diverges:
  "hook_statics (int_type rd wr) dlsym (t, hook_config h) = Inr (t', c0) \<Longrightarrow> (serial_step 0 1)\<^sup>*\<^sup>* c0 c \<Longrightarrow>
   u \<noteq> v \<Longrightarrow> u \<noteq> getValue 0 c \<Longrightarrow> v \<noteq> getValue 0 c \<Longrightarrow>
     \<exists>c1 c2. setValue_notify u 0 c = (Inr True, c1) \<and> setValue_notify v 0 c1 = (Inr True, c2)
       \<and> (let c' = setValue_store u 0 (setValue_store v 0 c2)
          in getValue 0 c' = u \<and> h_connect_timeout (cf_ext c') = word_of_int v
             \<and> setValue u 0 c' = (None, c'))"
  by (rule overlapping_base [of 0 1], rule serial_steps_follow [OF _ started_follows [of rd wr h]])
    (auto simp: hook_statics_state)

theorem overlapping_setValue_diverges_witness:
  "\<exists>c'. getValue 0 c' = 100 \<and> h_connect_timeout (cf_ext (c' :: (int, unit hook_state) config)) = 200"
proof -
  let ?t = "\<lparr>ht_is_inited = False, ht_orig = (\<lambda>_. None)\<rparr> :: unit hook_table"
  have "getValue 0 (started (int_type (\<lambda>_. Inr 0) (\<lambda>_. Inr [])) ex_hook0) = 5000"
    by (simp add: getValue_def started_def timeout_var_def)
  then show ?thesis
    using overlapping_setValue_diverges
      [OF hook_statics_state [of "int_type (\<lambda>_. Inr 0) (\<lambda>_. Inr [])" "\<lambda>_. None" ?t ex_hook0]
        rtranclp.rtrancl_refl, of 100 200]
    by (simp add: Let_def) blast
qed

text \<open>A listener that throws after the one of \<open>_HookIniter\<close> has run vetoes the change of the
  variable, but not the change of \<open>s_connect_timeout\<close>.\<close>

theorem veto_comes_too_late:
  assumes "a < length (cf_vars c)" and "vt_eq (cv_type (cf_vars c ! a)) = (=)"
    and "cv_cbs (cf_vars c ! a) = [(k, connect_timeout_listener), (k2, cb)]"
    and "\<And>h. cb (getValue a c) v h = (Some (Throws what), h)" and "v \<noteq> getValue a c"
  shows "\<exists>c'. setValue v a c = (Some (Throws what), c')
    \<and> getValue a c' = getValue a c \<and> h_connect_timeout (cf_ext c') = word_of_int v"
  using assms by (simp add: setValue_def getValue_def connect_timeout_listener_def on_connect_timeout_changed_def)

subsection \<open>A configured time-out ends a \<open>connect\<close>\<close>

definition timeout_document :: "string \<Rightarrow> yaml" where
  "timeout_document str =
     Map [(Scalar ''tcp'', Map [(Scalar ''connect'', Map [(Scalar ''timeout'', Scalar str)])])]"

lemma timeout_document_members:
  "ListAllMember [] (timeout_document str) =
     [([], timeout_document str),
      (''tcp'', Map [(Scalar ''connect'', Map [(Scalar ''timeout'', Scalar str)])]),
      (''tcp.connect'', Map [(Scalar ''timeout'', Scalar str)]),
      (''tcp.connect.timeout'', Scalar str)]"
  by (simp add: timeout_document_def ListAllMember.simps join_def scalar_text_def name_char_def)

lemma load_timeout:
  assumes "rd str = Inr v"
  shows "\<exists>c. LoadFromYaml lib (timeout_document str) (started (int_type rd wr) h) = (None, c)
    \<and> cf_ext c = h\<lparr>h_connect_timeout := word_of_int v\<rparr>"
proof -
  let ?c = "started (int_type rd wr) h"
  obtain c where c: "setValue v 0 ?c = (None, c)" "cf_ext c = h\<lparr>h_connect_timeout := word_of_int v\<rparr>"
  proof (cases "v = 5000")
    case True
    then have "setValue v 0 ?c = (None, ?c)" by (simp add: setValue_def started_def timeout_var_def int_type_def)
    then show thesis using that True by (simp add: started_def)
  next
    case False
    then show thesis using that started_set by fastforce
  qed
  have "fromString str 0 ?c = (Inr True, c)"
    using c(1) assms by (simp add: fromString_def started_def timeout_var_def int_type_def LexicalCast_def)
  then have "LoadFromYaml lib (timeout_document str) ?c = (None, c)"
    by (simp add: LoadFromYaml_def timeout_document_members load_member_def LookupBase_def member_text_def
        tolower_def started_def Let_def)
  then show ?thesis using c(2) by blast
qed

text \<open>The state at which \<open>connect\<close> starts: the descriptor is a socket the user left blocking.\<close>

definition connectable :: "fd \<Rightarrow> addr \<Rightarrow> addr \<times> fiber_state \<Rightarrow> 'u hook_state \<Rightarrow> bool" where
  "connectable fd w cur h \<longleftrightarrow>
     h_enable h
     \<and> (case fd_look (h_fdm h) (nat fd) of
          None \<Rightarrow> False
        | Some d \<Rightarrow> m_isSocket d \<and> \<not> m_isClosed d \<and> \<not> m_userNonblock d)
     \<and> (case h_iom h of None \<Rightarrow> False | Some io \<Rightarrow> can_wait fd WRITE cur io)
     \<and> h_tinfo_alive h w \<and> h_cancelled h w = 0"

lemma connect_blocks:
  assumes c: "connectable fd w cur h" and io: "h_iom h = Some io" and to: "h_connect_timeout h \<noteq> -1"
  obtains io1 where "connect fd (-1) EINPROGRESS w cur now ta 0 h
      = Inr (Connect_blocked (Some ta), h\<lparr>h_errno := EINPROGRESS, h_iom := Some io1\<rparr>)"
    "addEvent fd WRITE None (Some (io_this io)) cur 0
       (io_add_condition_timer (h_connect_timeout h) (Timeout w fd WRITE) w now ta io) = Inr (0, io1)"
    "m_next (tm_heap (io_timers io1) ta) = now + h_connect_timeout h"
proof -
  let ?io0 = "io_add_condition_timer (h_connect_timeout h) (Timeout w fd WRITE) w now ta io"
  have w: "can_wait fd WRITE cur io" and en: "h_enable h" using c io by (auto simp: connectable_def)
  obtain d where d: "fd_look (h_fdm h) (nat fd) = Some d" "m_isSocket d" "\<not> m_isClosed d" "\<not> m_userNonblock d"
    using c by (auto simp: connectable_def split: option.splits)
  have cw: "can_wait fd WRITE cur ?io0" using w by (simp add: add_condition_timer_can_wait)
  obtain io1 where a: "addEvent fd WRITE None (Some (io_this io)) cur 0 ?io0 = Inr (0, io1)"
    by (rule can_wait_addEvent [OF cw])
  have "connect_start_of fd h = Inr (Connect_try, h)"
    using d en w by (simp add: connect_start_of_def lookup_ctx_eq can_wait_def)
  then have "connect fd (-1) EINPROGRESS w cur now ta 0 h
      = Inr (Connect_blocked (Some ta), h\<lparr>h_errno := EINPROGRESS, h_iom := Some io1\<rparr>)"
    using a to io by (simp add: connect_def connect_with_timeout_def connect_wait_def add_condition_timer_same)
  moreover have "m_next (tm_heap (io_timers ?io0) ta) = now + h_connect_timeout h"
    by (auto simp: io_add_condition_timer_def addConditionTimer_def addTimer_def addTimer_val_def
        Timer_ctor_def onTimerInsertedAtFront_def io_tickle_def Let_def split: prod.splits)
  ultimately show thesis using that a addEvent_timers [OF a] by simp
qed

text \<open>Only the \<open>int\<close> -1 converts to the \<open>uint64_t\<close> that stands for no time-out.\<close>

lemma int_timeout:
  assumes v: "v \<noteq> -1" "- (2 ^ 31) \<le> v" "v < 2 ^ 31"
  shows "(word_of_int v :: u64) \<noteq> -1"
proof
  assume "(word_of_int v :: u64) = -1"
  then have "(word_of_int v :: u64) = word_of_int (-1)" by simp
  then have "v mod 2 ^ 64 = -1 mod 2 ^ 64"
    by (simp only: word_of_int_eq_iff take_bit_eq_mod) simp
  then have m: "v mod 2 ^ 64 = 2 ^ 64 - 1" by simp
  show False
  proof (cases "0 \<le> v")
    case True
    then have "v mod 2 ^ 64 = v" using v by (simp add: mod_pos_pos_trivial)
    then show False using m v by simp
  next
    case False
    then have "(v + 2 ^ 64) mod 2 ^ 64 = v + 2 ^ 64" using v by (intro mod_pos_pos_trivial) simp_all
    then show False using m v(1) by simp
  qed
qed

text \<open>C27: From a YAML document to a blocked call: after loading a document that sets
  \<open>tcp.connect.timeout\<close> to \<open>v\<close> (an \<open>int\<close> other than -1), a \<open>connect\<close> that is in progress suspends
  its fiber with a timer due in \<open>v\<close> milliseconds; if that timer fires first, the fiber is
  scheduled once, the registration is undone, and the call returns -1 with \<open>ETIMEDOUT\<close>.\<close>

theorem configured_timeout_ends_connect:
  assumes start: "hook_statics (int_type rd wr) dlsym (t, hook_config h) = Inr (t', c0)"
    and v: "rd str = Inr v" "v \<noteq> -1" "- (2 ^ 31) \<le> v" "v < 2 ^ 31"
    and h: "connectable fd w cur h" "h_iom h = Some io"
  shows "\<exists>c h1 io1 io2 h2.
      LoadFromYaml lib (timeout_document str) c0 = (None, c)
      \<and> connect fd (-1) EINPROGRESS w cur now ta 0 (cf_ext c) = Inr (Connect_blocked (Some ta), h1)
      \<and> h_iom h1 = Some io1 \<and> m_next (tm_heap (io_timers io1) ta) = now + word_of_int v
      \<and> on_timeout w fd WRITE 0 h1 = Inr h2 \<and> same_registrations io io2
      \<and> h_iom h2 = Some (post (io_this io) (fiber_task (Some (fst cur)) (-1)) io2)
      \<and> (\<forall>io3 tm b. cancel ta (io_timers io3) = Inr (b, tm) \<longrightarrow>
           (\<exists>h3. connect_resume w (Some ta) (h2\<lparr>h_iom := Some io3\<rparr>) = Inr (Connect_returned (-1), h3)
                 \<and> h_errno h3 = ETIMEDOUT))"
proof -
  have c0: "c0 = started (int_type rd wr) h" using start by (simp add: hook_statics_state)
  obtain c where c: "LoadFromYaml lib (timeout_document str) c0 = (None, c)"
    "cf_ext c = h\<lparr>h_connect_timeout := word_of_int v\<rparr>"
    using load_timeout [of rd str v lib wr h] v(1) c0 by blast
  have to: "(word_of_int v :: u64) \<noteq> -1" using v(2-4) by (rule int_timeout)
  have cc: "connectable fd w cur (cf_ext c)" "h_iom (cf_ext c) = Some io" "h_connect_timeout (cf_ext c) = word_of_int v"
    "h_cancelled (cf_ext c) w = 0" "h_tinfo_alive (cf_ext c) w"
    using h c(2) by (auto simp: connectable_def)
  obtain io1 where b: "connect fd (-1) EINPROGRESS w cur now ta 0 (cf_ext c)
      = Inr (Connect_blocked (Some ta), (cf_ext c)\<lparr>h_errno := EINPROGRESS, h_iom := Some io1\<rparr>)"
    "addEvent fd WRITE None (Some (io_this io)) cur 0
       (io_add_condition_timer (word_of_int v) (Timeout w fd WRITE) w now ta io) = Inr (0, io1)"
    "m_next (tm_heap (io_timers io1) ta) = now + word_of_int v"
    by (rule connect_blocks [OF cc(1,2), unfolded cc(3), OF to])
  let ?h1 = "(cf_ext c)\<lparr>h_errno := EINPROGRESS, h_iom := Some io1\<rparr>"
  have wait: "can_wait fd WRITE cur io" using h by (simp add: connectable_def)
  obtain io2 where t: "same_registrations io io2"
    "on_timeout w fd WRITE 0 ?h1 = Inr (?h1\<lparr>h_cancelled := (h_cancelled ?h1)(w := ETIMEDOUT),
       h_iom := Some (post (io_this io) (fiber_task (Some (fst cur)) (-1)) io2)\<rparr>)"
    by (rule timeout_releases [OF wait b(2), of ?h1]) (use cc in auto)
  then show ?thesis
    using c(1) b by (fastforce simp: connect_resume_def cancel_timer_def Let_def ETIMEDOUT_def)
qed

lemma ex_can_write: "can_wait 7 WRITE (0, EXEC) ex_hio"
  using ctor_inv [OF ex_hio_ctor] ctor_fields [OF ex_hio_ctor]
  by (simp add: can_wait_def has_def fc_inv_new)

lemma ex_connectable: "connectable 7 9 (0, EXEC) ex_hook" "h_iom ex_hook = Some ex_hio"
  by (simp_all add: connectable_def ex_hook_look ex_can_write)
    (simp_all add: ex_hook_def ex_hook0_def ex_can_write ex_sock_def FdCtx_ctor_def FdCtx_init_def)

theorem configured_timeout_ends_connect_witness:
  "\<exists>c h1 h2. LoadFromYaml plain_lib (timeout_document ''80'') (started (int_type (\<lambda>_. Inr 80) (\<lambda>_. Inr [])) ex_hook)
       = (None, c)
     \<and> connect 7 (-1) EINPROGRESS 9 (0, EXEC) 100 8 0 (cf_ext c) = Inr (Connect_blocked (Some 8), h1)
     \<and> on_timeout 9 7 WRITE 0 h1 = Inr h2"
proof -
  let ?t = "\<lparr>ht_is_inited = False, ht_orig = (\<lambda>_. None)\<rparr> :: unit hook_table"
  note start = hook_statics_state [of "int_type (\<lambda>_. Inr 80) (\<lambda>_. Inr [])" "\<lambda>_. None" ?t ex_hook]
  show ?thesis
    using configured_timeout_ends_connect
      [OF start refl _ _ _ ex_connectable, where str = "''80''" and lib = plain_lib and now = 100 and ta = 8] by auto
qed

text \<open>A negative time-out other than -1 makes a timer that is due before the call: the sum wraps.
  With such a timer in the set no timer fires any more (\<open>overdue_timer_blocks\<close>).\<close>

theorem negative_timeout_is_overdue:
  assumes "connectable fd w cur h" and "h_iom h = Some io"
    and v: "h_connect_timeout h = word_of_int v" "v < -1" "- (2 ^ 31) \<le> v" "- v \<le> uint now"
  shows "\<exists>h1 io1. connect fd (-1) EINPROGRESS w cur now ta 0 h = Inr (Connect_blocked (Some ta), h1)
    \<and> h_iom h1 = Some io1 \<and> m_next (tm_heap (io_timers io1) ta) < now"
proof -
  have to: "h_connect_timeout h \<noteq> -1" using int_timeout [of v] v by simp
  have "(uint now + v) mod 2 ^ 64 = uint now + v"
    using uint_bounded [of now] v(2,4) by (intro mod_pos_pos_trivial) simp_all
  then have "uint (now + word_of_int v) = uint now + v" using uint_word_of_int [of "uint now + v", where ?'a = 64] by simp
  then have "now + word_of_int v < now" using v(2) by (simp add: word_less_def)
  then show ?thesis by (rule_tac connect_blocks [OF assms(1,2) to, of now ta]) (simp add: v(1))
qed

end
