(* ===== verification/Assertion.thy ===== *)
theory Assertion
  imports Logger Thread_Util Fiber
begin

text \<open>
  The assertion macros (\<open>macro.h\<close>), the singletons (\<open>singleton.h\<close>) and \<open>GetFiberId\<close> (\<open>util.cc\<close>).
  Elsewhere a failed assertion is just the fault \<open>Abort\<close>; here its report is modelled too.  The
  lemmas show that a report reaches the root logger's appenders before the program ends and
  that reporting itself never fails.
\<close>

text \<open>The 64-bit number of the running fiber, cut to 32 bits.\<close>

definition util_GetFiberId :: "'cb fenv \<Rightarrow> u32" where
  "util_GetFiberId e = ucast (GetFiberId e)"

text \<open>\<open>Singleton::GetInstance\<close> and \<open>SingletonPtr::GetInstance\<close>: the static object is made by the first
  call that reaches it; if its constructor throws, the next call tries again.\<close>

definition GetInstance :: "'t res \<Rightarrow> 't option \<Rightarrow> ('t \<times> 't option) res" where
  "GetInstance T_ctor v =
     (case v of
        Some t \<Rightarrow> Inr (t, v)
      | None \<Rightarrow> res_bind T_ctor (\<lambda>t. Inr (t, Some t)))"

lemma GetInstance_once:
  "GetInstance T_ctor v = Inr (t, v') \<Longrightarrow> v' = Some t \<and> GetInstance other v' = Inr (t, v')"
  by (cases v) (auto simp: GetInstance_def)

section \<open>Assertions\<close>

text \<open>Where a macro is used: the file and line, the thread, the fiber, the clock, the thread's name
  and what \<open>backtrace_symbols\<close> returns there.\<close>

record site =
  at_file :: string
  at_line :: int
  at_tid :: int
  at_fiber :: u32
  at_now :: u64
  at_thread :: string
  at_symbols :: "string list option"

definition LF :: string where "LF = [char_of (10 :: nat)]"

text \<open>The part the macros share: log \<open>msg\<close> and the backtrace at the root logger, then \<open>assert\<close>
  (the build does not define \<open>NDEBUG\<close>).  \<open>None\<close> would be a call that does not return.  The message
  \<open>Backtrace\<close> itself logs when there are no symbols is left out.\<close>

definition report_and_abort ::
  "nat \<Rightarrow> (string \<Rightarrow> u64 \<Rightarrow> string) \<Rightarrow> string \<Rightarrow> string \<Rightarrow> site \<Rightarrow> log_state
    \<Rightarrow> (fault option \<times> log_state) option" where
  "report_and_abort n strftime x msg at s =
     (case AWCOTN_LOG_LEVEL n strftime (lg_root s) ERROR (at_file at) (at_line at) (at_tid at)
             (at_fiber at) (at_now at) (at_thread at)
             (msg @ LF @ ''backtrace:'' @ LF @ BacktraceToString (at_symbols at) 2 ''    '') s of
        None \<Rightarrow> None
      | Some (Inl f) \<Rightarrow> Some (Some f, s)
      | Some (Inr s') \<Rightarrow> Some (Some (Abort x), s'))"

definition AWCOTN_ASSERT ::
  "nat \<Rightarrow> (string \<Rightarrow> u64 \<Rightarrow> string) \<Rightarrow> bool \<Rightarrow> string \<Rightarrow> site \<Rightarrow> log_state
    \<Rightarrow> (fault option \<times> log_state) option" where
  "AWCOTN_ASSERT n strftime x x_text at s =
     (if \<not> x then report_and_abort n strftime x_text (''ASSERTION: '' @ x_text) at s
      else Some (None, s))"

definition AWCOTN_ASSERT2 ::
  "nat \<Rightarrow> (string \<Rightarrow> u64 \<Rightarrow> string) \<Rightarrow> bool \<Rightarrow> string \<Rightarrow> string \<Rightarrow> site \<Rightarrow> log_state
    \<Rightarrow> (fault option \<times> log_state) option" where
  "AWCOTN_ASSERT2 n strftime x x_text w at s =
     (if \<not> x then report_and_abort n strftime x_text (''ASSERTION: '' @ x_text @ LF @ w) at s
      else Some (None, s))"

text \<open>The event a failed assertion logs.\<close>

definition assertion_event :: "string \<Rightarrow> site \<Rightarrow> log_state \<Rightarrow> log_event" where
  "assertion_event msg at s =
     stream_to (msg @ LF @ ''backtrace:'' @ LF @ BacktraceToString (at_symbols at) 2 ''    '')
       (LogEvent_ctor (lg_root s) ERROR (at_file at) (at_line at) 0 (at_tid at) (at_fiber at)
         (at_now at) (at_thread at))"

lemma report_spec:
  assumes "log_inv s"
  shows "report_and_abort 2 f x msg at s =
    Some (Some (Abort x),
      delivered f ERROR (assertion_event msg at s) (targets s (lg_root s) ERROR) s)"
proof -
  have r: "lg_root s < length (lg_loggers s)" using assms by (simp add: log_inv_def)
  show ?thesis
    using macro_base [OF r] log_delivers_base [OF assms r, of 0, folded numeral_2_eq_2]
    by (simp add: report_and_abort_def assertion_event_def)
qed

text \<open>An assertion that holds does nothing; one that fails delivers exactly one error event with the
  text of the condition to the appenders of the root logger that admit it, and then aborts: the
  report itself always returns, without undefined behaviour, in every reachable state.\<close>

theorem assertion_reports_then_aborts:
  "log_reachable f s \<Longrightarrow>
     AWCOTN_ASSERT 2 f x x_text at s =
       Some (if x then (None, s)
             else (Some (Abort x_text),
                   delivered f ERROR (assertion_event (''ASSERTION: '' @ x_text) at s)
                     (targets s (lg_root s) ERROR) s))
     \<and> AWCOTN_ASSERT2 2 f x x_text w at s =
       Some (if x then (None, s)
             else (Some (Abort x_text),
                   delivered f ERROR (assertion_event (''ASSERTION: '' @ x_text @ LF @ w) at s)
                     (targets s (lg_root s) ERROR) s))"
  by (simp add: AWCOTN_ASSERT_def AWCOTN_ASSERT2_def report_spec log_reachable_inv)

end
