(* ===== verification/Lock_Order.thy ===== *)
theory Lock_Order
  imports Mutex_Lock
begin

text \<open>
  Threads that take several locks.  A call of the library is reduced to what it does to locks:
  the sequence of guards it constructs and destroys (\<open>mutex.h\<close>).  Threads interleave at every
  such action, on the mutexes and read-write locks of \<open>Mutex_Lock\<close>.  The locale
  \<open>lock_discipline\<close> is the contract between the calls and the threads that make them: if every
  call takes its locks in the order of a ranking and gives back what it takes, no interleaving
  of any threads deadlocks.  Which locks the calls of this program take is in
  \<open>Lock_Programs\<close>.
\<close>

section \<open>Lock actions\<close>

datatype mode = Shared | Exclusive

datatype 'l action = Acquire mode 'l | Release 'l

type_synonym 'l trace = "'l action list"
type_synonym 'l held = "(mode \<times> 'l) list"

text \<open>A scope that starts with a guard: the guard's constructor, the body, its destructor.\<close>

definition locked :: "mode \<Rightarrow> 'l \<Rightarrow> 'l trace \<Rightarrow> 'l trace" where
  "locked m x body = Acquire m x # body @ [Release x]"

text \<open>A lock of the program: a \<open>Mutex\<close> or an \<open>RWMutex\<close>.  A \<open>Mutex\<close> has one guard class, which
  excludes every other guard whatever its mode.\<close>

datatype lock_object = Mtx mutex | Rw rwmutex

fun acquire :: "mode \<Rightarrow> lock_object \<Rightarrow> lock_object option" where
  "acquire m (Mtx b) = map_option Mtx (Mutex_lock b)"
| "acquire Shared (Rw r) = map_option Rw (rdlock r)"
| "acquire Exclusive (Rw r) = map_option Rw (wrlock r)"

fun release :: "lock_object \<Rightarrow> lock_object res" where
  "release (Mtx b) = res_bind (Mutex_unlock b) (\<lambda>b'. Inr (Mtx b'))"
| "release (Rw r) = res_bind (RWMutex_unlock r) (\<lambda>r'. Inr (Rw r'))"

fun free :: "lock_object \<Rightarrow> bool" where
  "free (Mtx b) \<longleftrightarrow> b = Mutex_ctor"
| "free (Rw r) \<longleftrightarrow> r = RWMutex_ctor"

section \<open>Threads\<close>

text \<open>The state: every lock, and for every thread the guards it has on its stack and the actions
  it still has to do.  A thread whose next guard's constructor blocks has no step.\<close>

record 'l lock_system =
  ls_locks :: "'l \<Rightarrow> lock_object"
  ls_threads :: "('l held \<times> 'l trace) list"

text \<open>The destructor of the thread's most recent guard on a lock.\<close>

fun drop_held :: "'l \<Rightarrow> 'l held \<Rightarrow> 'l held" where
  "drop_held x [] = []"
| "drop_held x (g # h) = (if snd g = x then h else g # drop_held x h)"

inductive lock_step :: "'l lock_system \<Rightarrow> 'l lock_system \<Rightarrow> bool" where
  s_acquire:
    "i < length (ls_threads s) \<Longrightarrow> ls_threads s ! i = (h, Acquire m x # t) \<Longrightarrow>
     acquire m (ls_locks s x) = Some k \<Longrightarrow>
     lock_step s (s\<lparr>ls_locks := (ls_locks s)(x := k), ls_threads := (ls_threads s)[i := ((m, x) # h, t)]\<rparr>)"
| s_release:
    "i < length (ls_threads s) \<Longrightarrow> ls_threads s ! i = (h, Release x # t) \<Longrightarrow>
     release (ls_locks s x) = Inr k \<Longrightarrow>
     lock_step s (s\<lparr>ls_locks := (ls_locks s)(x := k), ls_threads := (ls_threads s)[i := (drop_held x h, t)]\<rparr>)"

definition threads_start :: "('l \<Rightarrow> lock_object) \<Rightarrow> 'l trace list \<Rightarrow> 'l lock_system" where
  "threads_start locks ts = \<lparr>ls_locks = locks, ls_threads = map (\<lambda>t. ([], t)) ts\<rparr>"

text \<open>Each thread makes its calls one after the other.\<close>

definition calls_start :: "('l \<Rightarrow> lock_object) \<Rightarrow> 'l trace list list \<Rightarrow> 'l lock_system" where
  "calls_start locks css = threads_start locks (map concat css)"

definition all_finished :: "'l lock_system \<Rightarrow> bool" where
  "all_finished s = list_all (\<lambda>th. th = ([], [])) (ls_threads s)"

definition work :: "'l lock_system \<Rightarrow> nat" where
  "work s = sum_list (map (\<lambda>th. length (snd th)) (ls_threads s))"

section \<open>Order\<close>

text \<open>A thread that holds \<open>h\<close> and goes on with a trace respects the ranking: what it takes
  ranks above everything it holds, it gives back only what it holds, and holds nothing at the
  end.\<close>

fun ordered :: "('l \<Rightarrow> nat) \<Rightarrow> 'l held \<Rightarrow> 'l trace \<Rightarrow> bool" where
  "ordered r h [] \<longleftrightarrow> h = []"
| "ordered r h (Acquire m x # t) \<longleftrightarrow> (\<forall>g \<in> set h. r (snd g) < r x) \<and> ordered r ((m, x) # h) t"
| "ordered r h (Release x # t) \<longleftrightarrow> x \<in> snd ` set h \<and> ordered r (drop_held x h) t"

text \<open>A piece of a trace that takes locks of rank \<open>n\<close> and above only, in order, and gives them
  all back: it can stand wherever only lower locks are held.\<close>

fun takes_from :: "('l \<Rightarrow> nat) \<Rightarrow> nat \<Rightarrow> 'l action \<Rightarrow> bool" where
  "takes_from r n (Acquire m x) \<longleftrightarrow> n \<le> r x"
| "takes_from r n (Release x) \<longleftrightarrow> True"

definition nested :: "('l \<Rightarrow> nat) \<Rightarrow> nat \<Rightarrow> 'l trace \<Rightarrow> bool" where
  "nested r n t \<longleftrightarrow> list_all (takes_from r n) t \<and> ordered r [] t"

lemma drop_held_append: "x \<in> snd ` set k \<Longrightarrow> drop_held x (k @ h) = drop_held x k @ h"
  by (induction k) auto

lemma set_drop_held: "set (drop_held x h) \<subseteq> set h"
  by (induction h) auto

lemma drop_other_held: "g \<in> set h \<Longrightarrow> snd g \<noteq> x \<Longrightarrow> g \<in> set (drop_held x h)"
  by (induction h) auto

lemma count_drop_held:
  "x \<in> snd ` set h \<Longrightarrow> \<exists>m. \<forall>g. count_list h g = count_list (drop_held x h) g + of_bool (g = (m, x))"
proof (induction h)
  case (Cons a h)
  then show ?case
  proof (cases "snd a = x")
    case True
    then show ?thesis by (cases a) auto
  next
    case False
    then obtain m where "\<forall>g. count_list h g = count_list (drop_held x h) g + of_bool (g = (m, x))"
      using Cons by auto
    then show ?thesis using False by (intro exI [of _ m]) auto
  qed
qed simp

lemma ordered_frame:
  assumes "\<forall>g \<in> set h. r (snd g) < n"
  shows "list_all (takes_from r n) t \<Longrightarrow> \<forall>g \<in> set k. n \<le> r (snd g) \<Longrightarrow> ordered r k t \<Longrightarrow>
         ordered r (k @ h) (t @ u) = ordered r h u"
proof (induction t arbitrary: k)
  case (Cons a t)
  show ?case
  proof (cases a)
    case (Acquire m x)
    have "\<forall>g \<in> set (k @ h). r (snd g) < r x" using Cons.prems assms Acquire by fastforce
    moreover have "ordered r ((m, x) # k @ h) (t @ u) = ordered r h u"
      using Cons.IH [of "(m, x) # k"] Cons.prems Acquire by simp
    ultimately show ?thesis using Acquire by simp
  next
    case (Release x)
    then have x: "x \<in> snd ` set k" "ordered r (drop_held x k) t" using Cons.prems by auto
    then have "drop_held x (k @ h) = drop_held x k @ h" by (simp add: drop_held_append)
    moreover have "ordered r (drop_held x k @ h) (t @ u) = ordered r h u"
      using Cons.IH [of "drop_held x k"] Cons.prems Release x(2) set_drop_held [of x k] by auto
    ultimately show ?thesis using Release x(1) by auto
  qed
qed simp

lemma nested_ordered:
  "nested r n t \<Longrightarrow> \<forall>g \<in> set h. r (snd g) < n \<Longrightarrow> ordered r h (t @ u) = ordered r h u"
  using ordered_frame [of h r n t "[]" u] by (simp add: nested_def)

named_theorems nested_intros \<open>traces that keep the ranking, by their shape\<close>

lemma nested_Nil [nested_intros, simp]: "nested r n []"
  by (simp add: nested_def)

lemma nested_append [nested_intros]: "nested r n t \<Longrightarrow> nested r n u \<Longrightarrow> nested r n (t @ u)"
  using nested_ordered [of r n t "[]" u] by (simp add: nested_def)

lemma nested_concat [nested_intros]: "(\<And>t. t \<in> set ts \<Longrightarrow> nested r n t) \<Longrightarrow> nested r n (concat ts)"
  by (induction ts) (auto intro: nested_append)

lemma takes_from_mono: "takes_from r n a \<Longrightarrow> k \<le> n \<Longrightarrow> takes_from r k a"
  by (cases a) auto

lemma nested_mono: "nested r n t \<Longrightarrow> k \<le> n \<Longrightarrow> nested r k t"
  by (auto simp: nested_def list_all_iff intro: takes_from_mono)

lemma nested_locked [nested_intros]:
  assumes n: "n \<le> r x" and b: "nested r (Suc (r x)) body"
  shows "nested r n (locked m x body)"
proof -
  have "nested r n body" using b by (rule nested_mono) (use n in simp)
  moreover have "ordered r [(m, x)] (body @ [Release x])"
    using nested_ordered [OF b, of "[(m, x)]"] by simp
  ultimately show ?thesis using n by (simp add: nested_def locked_def)
qed

lemma nested_if [nested_intros]: "(b \<Longrightarrow> nested r n t) \<Longrightarrow> (\<not> b \<Longrightarrow> nested r n u) \<Longrightarrow> nested r n (if b then t else u)"
  by simp

lemma nested_option [nested_intros]:
  "(x = None \<Longrightarrow> nested r n t) \<Longrightarrow> (\<And>y. x = Some y \<Longrightarrow> nested r n (u y)) \<Longrightarrow>
   nested r n (case x of None \<Rightarrow> t | Some y \<Rightarrow> u y)"
  by (cases x) simp_all

lemma nested_result [nested_intros]:
  "(\<And>f. x = Inl f \<Longrightarrow> nested r n (t f)) \<Longrightarrow> (\<And>y. x = Inr y \<Longrightarrow> nested r n (u y)) \<Longrightarrow>
   nested r n (case x of Inl f \<Rightarrow> t f | Inr y \<Rightarrow> u y)"
  by (cases x) simp_all

text \<open>It does not touch the locks below.\<close>

lemma ordered_avoids:
  "list_all (takes_from r n) t \<Longrightarrow> \<forall>g \<in> set h. n \<le> r (snd g) \<Longrightarrow> ordered r h t \<Longrightarrow> r x < n \<Longrightarrow>
   Release x \<notin> set t \<and> Acquire m x \<notin> set t"
proof (induction r h t rule: ordered.induct)
  case (3 r h y t)
  then have "n \<le> r y" by fastforce
  moreover have "\<forall>g \<in> set (drop_held y h). n \<le> r (snd g)" using 3 set_drop_held [of y h] by auto
  ultimately show ?case using 3 by auto
qed auto

lemma nested_avoids: "nested r n t \<Longrightarrow> r x < n \<Longrightarrow> Release x \<notin> set t \<and> Acquire m x \<notin> set t"
  using ordered_avoids [of r n t "[]"] by (simp add: nested_def)

section \<open>What the threads preserve\<close>

definition all_held :: "'l lock_system \<Rightarrow> 'l held" where
  "all_held s = concat (map fst (ls_threads s))"

text \<open>A lock's state is what the guards of all threads on it make it.\<close>

fun lock_counts :: "lock_object \<Rightarrow> nat \<Rightarrow> nat \<Rightarrow> bool" where
  "lock_counts (Mtx b) readers writers \<longleftrightarrow> readers + writers = of_bool b"
| "lock_counts (Rw k) readers writers \<longleftrightarrow>
     rw_readers k = readers \<and> writers = of_bool (rw_writer k) \<and> (rw_writer k \<longrightarrow> rw_readers k = 0)"

definition locks_counted :: "'l lock_system \<Rightarrow> bool" where
  "locks_counted s \<longleftrightarrow>
     (\<forall>x. lock_counts (ls_locks s x) (count_list (all_held s) (Shared, x)) (count_list (all_held s) (Exclusive, x)))"

text \<open>A thread destroys only guards it has constructed, and all of them.\<close>

fun balanced :: "'l held \<Rightarrow> 'l trace \<Rightarrow> bool" where
  "balanced h [] \<longleftrightarrow> h = []"
| "balanced h (Acquire m x # t) \<longleftrightarrow> balanced ((m, x) # h) t"
| "balanced h (Release x # t) \<longleftrightarrow> x \<in> snd ` set h \<and> balanced (drop_held x h) t"

lemma ordered_balanced: "ordered r h t \<Longrightarrow> balanced h t"
  by (induction r h t rule: ordered.induct) auto

lemma balanced_frame: "balanced k t \<Longrightarrow> balanced (k @ h) (t @ u) = balanced h u"
proof (induction t arbitrary: k)
  case (Cons a t)
  then show ?case
  proof (cases a)
    case (Acquire m x)
    then show ?thesis using Cons.IH [of "(m, x) # k"] Cons.prems by simp
  next
    case (Release x)
    then show ?thesis using Cons.IH [of "drop_held x k"] Cons.prems by (auto simp: drop_held_append)
  qed
qed simp

lemma nested_balanced: "nested r n t \<Longrightarrow> balanced h (t @ u) = balanced h u"
  using balanced_frame [of "[]" t h u] ordered_balanced [of r "[]" t] by (simp add: nested_def)

definition sound :: "'l lock_system \<Rightarrow> bool" where
  "sound s \<longleftrightarrow> locks_counted s \<and> list_all (\<lambda>th. balanced (fst th) (snd th)) (ls_threads s)"

lemma count_held_update:
  "i < length ts \<Longrightarrow>
   count_list (concat (map fst (ts[i := p]))) g + count_list (fst (ts ! i)) g
     = count_list (concat (map fst ts)) g + count_list (fst p) g"
proof (induction ts arbitrary: i)
  case (Cons t ts)
  then show ?case by (cases i) auto
qed simp

lemma count_le_all: "i < length (ls_threads s) \<Longrightarrow> count_list (fst (ls_threads s ! i)) g \<le> count_list (all_held s) g"
proof -
  assume i: "i < length (ls_threads s)"
  have "count_list (fst p) g \<le> count_list (concat (map fst ts)) g" if "p \<in> set ts"
    for p :: "'a held \<times> 'a trace" and ts
    using that by (induction ts) auto
  then show ?thesis using i by (simp add: all_held_def)
qed

lemma acquire_counts:
  assumes "acquire m k = Some k'" and "lock_counts k a b"
  shows "lock_counts k' (a + of_bool (Shared = m)) (b + of_bool (Exclusive = m))"
  using assms by (cases k; cases m) (auto simp: Mutex_lock_def rdlock_def wrlock_def split: if_splits)

lemma release_counts:
  assumes "release k = Inr k'" and "lock_counts k (a + of_bool (Shared = m)) (b + of_bool (Exclusive = m))"
  shows "lock_counts k' a b"
  using assms by (cases k; cases m) (auto simp: Mutex_unlock_def RWMutex_unlock_def split: if_splits)

lemma counted_acquire:
  assumes i: "i < length (ls_threads s)" "ls_threads s ! i = (h, Acquire m x # t)"
    and a: "acquire m (ls_locks s x) = Some k" and c: "locks_counted s"
  shows "locks_counted (s\<lparr>ls_locks := (ls_locks s)(x := k), ls_threads := (ls_threads s)[i := ((m, x) # h, t)]\<rparr>)"
    (is "locks_counted ?s'")
proof -
  have n: "count_list (all_held ?s') g = count_list (all_held s) g + of_bool (g = (m, x))" for g
    using count_held_update [OF i(1), of "((m, x) # h, t)" g] i(2) by (simp add: all_held_def split: if_splits)
  have "lock_counts k (count_list (all_held ?s') (Shared, x)) (count_list (all_held ?s') (Exclusive, x))"
    unfolding n using acquire_counts [OF a] c by (simp add: locks_counted_def)
  moreover have "lock_counts (ls_locks s y) (count_list (all_held ?s') (Shared, y)) (count_list (all_held ?s') (Exclusive, y))"
    if "y \<noteq> x" for y
    unfolding n using that c by (simp add: locks_counted_def)
  ultimately have "lock_counts (ls_locks ?s' y) (count_list (all_held ?s') (Shared, y)) (count_list (all_held ?s') (Exclusive, y))" for y
    by (cases "y = x") simp_all
  then show ?thesis by (simp add: locks_counted_def)
qed

lemma counted_release:
  assumes i: "i < length (ls_threads s)" "ls_threads s ! i = (h, Release x # t)"
    and a: "release (ls_locks s x) = Inr k" and c: "locks_counted s" and h: "x \<in> snd ` set h"
  shows "locks_counted (s\<lparr>ls_locks := (ls_locks s)(x := k), ls_threads := (ls_threads s)[i := (drop_held x h, t)]\<rparr>)"
    (is "locks_counted ?s'")
proof -
  obtain m where m: "\<And>g. count_list h g = count_list (drop_held x h) g + of_bool (g = (m, x))"
    using count_drop_held [OF h] by blast
  have n: "count_list (all_held ?s') (m', y) + of_bool (y = x \<and> m' = m) = count_list (all_held s) (m', y)" for m' y
    using count_held_update [OF i(1), of "(drop_held x h, t)" "(m', y)"] i(2) m [of "(m', y)"]
    by (cases "y = x"; cases "m' = m") (simp_all add: all_held_def)
  have "lock_counts (ls_locks ?s' y) (count_list (all_held ?s') (Shared, y)) (count_list (all_held ?s') (Exclusive, y))" for y
  proof (cases "y = x")
    case True
    have "lock_counts k (count_list (all_held ?s') (Shared, x)) (count_list (all_held ?s') (Exclusive, x))"
      using release_counts [OF a, of "count_list (all_held ?s') (Shared, x)" m "count_list (all_held ?s') (Exclusive, x)"]
        c n [of Shared x] n [of Exclusive x] by (simp add: locks_counted_def)
    then show ?thesis using True by simp
  next
    case False
    then show ?thesis using c n [of Shared y] n [of Exclusive y] by (simp add: locks_counted_def)
  qed
  then show ?thesis by (simp add: locks_counted_def)
qed

lemma sound_step: "lock_step s s' \<Longrightarrow> sound s \<Longrightarrow> sound s'"
proof (induction rule: lock_step.induct)
  case (s_acquire i s h m x t k)
  have "balanced h (Acquire m x # t)"
    using s_acquire unfolding sound_def list_all_length by (metis fst_conv snd_conv)
  then show ?case
    using s_acquire counted_acquire [OF s_acquire(1-3)]
    by (auto simp: sound_def list_all_length nth_list_update)
next
  case (s_release i s h x t k)
  have "balanced h (Release x # t)"
    using s_release unfolding sound_def list_all_length by (metis fst_conv snd_conv)
  then show ?case
    using s_release counted_release [OF s_release(1-3)]
    by (auto simp: sound_def list_all_length nth_list_update)
qed

definition lock_inv :: "('l \<Rightarrow> nat) \<Rightarrow> 'l lock_system \<Rightarrow> bool" where
  "lock_inv r s \<longleftrightarrow> sound s \<and> list_all (\<lambda>th. ordered r (fst th) (snd th)) (ls_threads s)"

lemma ordered_step:
  "lock_step s s' \<Longrightarrow> list_all (\<lambda>th. ordered r (fst th) (snd th)) (ls_threads s) \<Longrightarrow>
   list_all (\<lambda>th. ordered r (fst th) (snd th)) (ls_threads s')"
proof (induction rule: lock_step.induct)
  case (s_acquire i s h m x t k)
  have "ordered r h (Acquire m x # t)"
    using s_acquire unfolding list_all_length by (metis fst_conv snd_conv)
  then show ?case using s_acquire by (auto simp: list_all_length nth_list_update)
next
  case (s_release i s h x t k)
  have "ordered r h (Release x # t)"
    using s_release unfolding list_all_length by (metis fst_conv snd_conv)
  then show ?case using s_release by (auto simp: list_all_length nth_list_update)
qed

lemma lock_inv_step: "lock_step s s' \<Longrightarrow> lock_inv r s \<Longrightarrow> lock_inv r s'"
  by (auto simp: lock_inv_def intro: sound_step ordered_step)

lemma lock_inv_ordered: "lock_inv r s \<Longrightarrow> i < length (ls_threads s) \<Longrightarrow> ls_threads s ! i = (h, t) \<Longrightarrow> ordered r h t"
  by (metis fst_conv list_all_length lock_inv_def snd_conv)

lemma lock_inv_counted: "lock_inv r s \<Longrightarrow> locks_counted s"
  by (simp add: lock_inv_def sound_def)

lemma work_update:
  "i < length (ls_threads s) \<Longrightarrow>
   sum_list (map (\<lambda>th. length (snd th)) ((ls_threads s)[i := p])) + length (snd (ls_threads s ! i))
     = work s + length (snd p)"
  using elem_le_sum_list [of i "map (\<lambda>th. length (snd th)) (ls_threads s)"]
  by (simp add: map_update sum_list_update work_def)

lemma lock_step_work: "lock_step s s' \<Longrightarrow> work s = Suc (work s')"
proof (induction rule: lock_step.induct)
  case (s_acquire i s h m x t k)
  then show ?case
    using work_update [of i s "((m, x) # h, t)"] by (simp add: work_def)
next
  case (s_release i s h x t k)
  then show ?case
    using work_update [of i s "(drop_held x h, t)"] by (simp add: work_def)
qed

lemma work_0_iff:
  assumes "lock_inv r s" shows "work s = 0 \<longleftrightarrow> all_finished s"
proof -
  have "th = ([], [])" if "th \<in> set (ls_threads s)" "snd th = []" for th
    using assms that by (cases th) (auto simp: lock_inv_def list_all_iff)
  then show ?thesis by (force simp: work_def all_finished_def list_all_iff)
qed

text \<open>A guard's constructor blocks only on a lock some thread has a guard on.\<close>

lemma blocked_held:
  assumes c: "locks_counted s" and b: "acquire m (ls_locks s x) = None"
  shows "\<exists>th \<in> set (ls_threads s). x \<in> snd ` set (fst th)"
proof (rule ccontr)
  assume "\<not> ?thesis"
  then have "count_list (all_held s) (m', x) = 0" for m'
    by (force simp: count_list_0_iff all_held_def image_iff)
  then have "lock_counts (ls_locks s x) 0 0" using c unfolding locks_counted_def by metis
  then show False using b by (cases "ls_locks s x"; cases m) (auto simp: Mutex_lock_def rdlock_def wrlock_def)
qed

lemma held_releases:
  assumes c: "locks_counted s" and i: "i < length (ls_threads s)" "(m, x) \<in> set (fst (ls_threads s ! i))"
  shows "\<exists>k. release (ls_locks s x) = Inr k"
proof -
  have "count_list (all_held s) (m, x) > 0"
    using count_le_all [OF i(1), of "(m, x)"] i(2) by (metis count_list_0_iff gr0I le_zero_eq)
  then have "\<exists>a b. lock_counts (ls_locks s x) a b \<and> a + b > 0"
    using c unfolding locks_counted_def by (cases m) (metis add_gr_0)+
  then show ?thesis
    by (cases "ls_locks s x") (auto simp: Mutex_unlock_def RWMutex_unlock_def of_bool_def split: if_splits)
qed

text \<open>The lock a thread waits for, if its next guard's constructor blocks.\<close>

definition waits_for :: "'l lock_system \<Rightarrow> nat \<Rightarrow> 'l \<Rightarrow> bool" where
  "waits_for s i x \<longleftrightarrow>
     i < length (ls_threads s) \<and>
     (\<exists>h m t. ls_threads s ! i = (h, Acquire m x # t) \<and> acquire m (ls_locks s x) = None)"

lemma stuck_waits:
  assumes inv: "lock_inv r s" and st: "\<nexists>s'. lock_step s s'" and i: "i < length (ls_threads s)"
    and u: "ls_threads s ! i \<noteq> ([], [])"
  shows "\<exists>x. waits_for s i x"
proof -
  obtain h t where th: "ls_threads s ! i = (h, t)" by fastforce
  have o: "ordered r h t" using lock_inv_ordered [OF inv i th] .
  then obtain a t' where t: "t = a # t'" using u th by (cases t) auto
  show ?thesis
  proof (cases a)
    case (Acquire m x)
    then have "acquire m (ls_locks s x) = None"
      using st s_acquire [OF i, of h m x t'] th t by (cases "acquire m (ls_locks s x)") auto
    then show ?thesis using i th t Acquire by (auto simp: waits_for_def)
  next
    case (Release x)
    then obtain m where "(m, x) \<in> set h" using o t by auto
    then have "\<exists>k. release (ls_locks s x) = Inr k"
      using held_releases [of s i m x] lock_inv_counted [OF inv] i th by simp
    then show ?thesis using st s_release [OF i, of h x t'] th t Release by auto
  qed
qed

text \<open>Among stuck threads, whoever holds the lock one waits for waits for a higher one.\<close>

lemma waits_higher:
  assumes inv: "lock_inv r s" and st: "\<nexists>s'. lock_step s s'" and w: "waits_for s i x"
  shows "\<exists>j y. waits_for s j y \<and> r x < r y"
proof -
  obtain m where "acquire m (ls_locks s x) = None" using w by (auto simp: waits_for_def)
  then obtain th where th: "th \<in> set (ls_threads s)" "x \<in> snd ` set (fst th)"
    using blocked_held [OF lock_inv_counted [OF inv]] by blast
  obtain j where "j < length (ls_threads s)" "ls_threads s ! j = th"
    using th(1) unfolding in_set_conv_nth by blast
  moreover obtain h t where "th = (h, t)" by (cases th)
  ultimately have j: "j < length (ls_threads s)" "ls_threads s ! j = (h, t)" "x \<in> snd ` set h"
    using th(2) by simp_all
  then have "ls_threads s ! j \<noteq> ([], [])" by auto
  then obtain y where y: "waits_for s j y" using stuck_waits [OF inv st j(1)] by blast
  then have "\<exists>m' t'. t = Acquire m' y # t'" using j(2) by (auto simp: waits_for_def)
  moreover have "ordered r h t" using lock_inv_ordered [OF inv j(1,2)] .
  ultimately have "r x < r y" using j(3) by force
  then show ?thesis using y by blast
qed

definition next_rank :: "('l \<Rightarrow> nat) \<Rightarrow> 'l held \<times> 'l trace \<Rightarrow> nat" where
  "next_rank r th = (case snd th of Acquire m x # _ \<Rightarrow> r x | _ \<Rightarrow> 0)"

lemma waits_bounded: "waits_for s i x \<Longrightarrow> r x \<le> sum_list (map (next_rank r) (ls_threads s))"
proof -
  assume "waits_for s i x"
  then have "i < length (ls_threads s)" "next_rank r (ls_threads s ! i) = r x"
    by (auto simp: waits_for_def next_rank_def)
  then show ?thesis using elem_le_sum_list [of i "map (next_rank r) (ls_threads s)"] by simp
qed

lemma progress:
  assumes inv: "lock_inv r s" and u: "\<not> all_finished s"
  shows "\<exists>s'. lock_step s s'"
proof (rule ccontr)
  assume st: "\<nexists>s'. lock_step s s'"
  obtain i where "i < length (ls_threads s)" "ls_threads s ! i \<noteq> ([], [])"
    using u by (auto simp: all_finished_def list_all_length)
  then obtain i x where w: "waits_for s i x" using stuck_waits [OF inv st] by blast
  have "\<exists>i x. waits_for s i x \<and> n \<le> r x" for n
  proof (induction n)
    case (Suc n)
    then show ?case using waits_higher [OF inv st] by (meson Suc_leI order_le_less_trans)
  qed (use w in blast)
  then show False using waits_bounded [of s _ _ r] by (meson not_less_eq_eq order_trans)
qed

lemma finishes:
  assumes "lock_inv r s" shows "\<exists>s'. lock_step\<^sup>*\<^sup>* s s' \<and> all_finished s'"
  using assms
proof (induction "work s" arbitrary: s rule: less_induct)
  case less
  show ?case
  proof (cases "all_finished s")
    case False
    then obtain s' where s': "lock_step s s'" using progress [OF less.prems] by blast
    then have "\<exists>t. lock_step\<^sup>*\<^sup>* s' t \<and> all_finished t"
      using less.hyps [of s'] lock_step_work [OF s'] lock_inv_step [OF s' less.prems] by simp
    then show ?thesis using s' by (meson converse_rtranclp_into_rtranclp)
  qed blast
qed

lemma finished_free:
  assumes "lock_inv r s" and "all_finished s" shows "free (ls_locks s x)"
proof -
  have "all_held s = []" using assms(2) by (auto simp: all_finished_def all_held_def list_all_iff)
  then have "lock_counts (ls_locks s x) 0 0" using lock_inv_counted [OF assms(1)] unfolding locks_counted_def by (metis count_list.simps(1))
  then show ?thesis
    by (cases "ls_locks s x") (auto simp: Mutex_ctor_def RWMutex_ctor_def)
qed

section \<open>The contract of the calls\<close>

text \<open>What threads need of the calls they make: a ranking of the locks in whose order every
  call takes its locks, giving each back.  A thread makes any sequence of calls.\<close>

locale lock_discipline =
  fixes rank :: "'l \<Rightarrow> nat" and call :: "'l trace \<Rightarrow> bool" and locks :: "'l \<Rightarrow> lock_object"
  assumes call_nested: "call t \<Longrightarrow> nested rank 0 t"
    and locks_free: "free (locks x)"
begin

lemma calls_ordered:
  assumes "list_all (list_all call) css" and "cs \<in> set css"
  shows "ordered rank [] (concat cs)"
proof -
  have "nested rank 0 (concat cs)"
    using assms by (auto simp: list_all_iff intro: nested_concat call_nested)
  then show ?thesis by (simp add: nested_def)
qed

lemma start_inv:
  assumes "list_all (list_all call) css"
  shows "lock_inv rank (calls_start locks css)"
proof -
  have "all_held (calls_start locks css) = []"
    by (simp add: all_held_def calls_start_def threads_start_def comp_def)
  moreover have "lock_counts (locks x) 0 0" for x
    using locks_free [of x] by (cases "locks x") (auto simp: Mutex_ctor_def RWMutex_ctor_def)
  ultimately show ?thesis
    by (auto simp: lock_inv_def locks_counted_def calls_start_def threads_start_def list_all_iff
        sound_def intro: ordered_balanced calls_ordered [OF assms])
qed

lemma calls_keep_inv:
  assumes "list_all (list_all call) css" and "lock_step\<^sup>*\<^sup>* (calls_start locks css) s"
  shows "lock_inv rank s"
  using assms(2) by (induction rule: rtranclp_induct) (auto intro: start_inv assms(1) lock_inv_step)

lemma never_stuck:
  assumes "list_all (list_all call) css" and "lock_step\<^sup>*\<^sup>* (calls_start locks css) s"
  shows "all_finished s \<and> (\<forall>x. free (ls_locks s x)) \<or> (\<exists>s'. lock_step s s')"
proof (cases "all_finished s")
  case True
  then show ?thesis using finished_free [OF calls_keep_inv [OF assms]] by simp
next
  case False
  then show ?thesis using progress [OF calls_keep_inv [OF assms]] by simp
qed

lemma always_finishes:
  assumes "list_all (list_all call) css" and "lock_step\<^sup>*\<^sup>* (calls_start locks css) s"
  shows "\<exists>s'. lock_step\<^sup>*\<^sup>* s s' \<and> all_finished s' \<and> (\<forall>x. free (ls_locks s' x))"
proof -
  have inv: "lock_inv rank s" using assms by (rule calls_keep_inv)
  then obtain s' where s': "lock_step\<^sup>*\<^sup>* s s'" "all_finished s'" using finishes by blast
  have "lock_inv rank s'" using assms(1) rtranclp_trans [OF assms(2) s'(1)] by (rule calls_keep_inv)
  then have "\<forall>x. free (ls_locks s' x)" using finished_free [OF _ s'(2)] by simp
  then show ?thesis using s' by blast
qed

end

section \<open>A thread that blocks itself\<close>

text \<open>A thread that reaches the construction of a writer's guard on a lock with a reader's guard
  of its own still on it never gets past that point: \<open>u\<close> is what it does before, in which it
  destroys fewer of its readers' guards than it has and constructs.\<close>

definition blocks_itself :: "'l \<Rightarrow> 'l held \<times> 'l trace \<Rightarrow> bool" where
  "blocks_itself x th \<longleftrightarrow>
     (\<exists>u v. snd th = u @ Acquire Exclusive x # v \<and> Acquire Exclusive x \<notin> set u
        \<and> (Exclusive, x) \<notin> set (fst th)
        \<and> count_list u (Release x) < count_list (fst th) (Shared, x) + count_list u (Acquire Shared x))"

lemma blocks_itselfI:
  "Acquire Exclusive x \<notin> set u \<Longrightarrow> count_list u (Release x) < count_list u (Acquire Shared x) \<Longrightarrow>
   blocks_itself x ([], u @ Acquire Exclusive x # v)"
  by (auto simp: blocks_itself_def)

lemma blocks_itself_acquire:
  assumes b: "blocks_itself x (h, Acquire m y # t)" and n: "(m, y) \<noteq> (Exclusive, x) \<or> (Shared, x) \<notin> set h"
  shows "blocks_itself x ((m, y) # h, t)"
proof -
  obtain u v where u: "Acquire m y # t = u @ Acquire Exclusive x # v" "Acquire Exclusive x \<notin> set u"
    "(Exclusive, x) \<notin> set h"
    "count_list u (Release x) < count_list h (Shared, x) + count_list u (Acquire Shared x)"
    using b by (auto simp: blocks_itself_def)
  show ?thesis
  proof (cases u)
    case Nil
    then have "count_list h (Shared, x) > 0" "(m, y) = (Exclusive, x)" using u by auto
    then show ?thesis using n by (simp add: count_list_0_iff)
  next
    case (Cons a u')
    then show ?thesis
      using u unfolding blocks_itself_def by (intro exI [of _ u'] exI [of _ v]) (auto split: if_splits)
  qed
qed

lemma blocks_itself_release:
  assumes b: "blocks_itself x (h, Release y # t)" and y: "y \<in> snd ` set h"
  shows "blocks_itself x (drop_held y h, t)"
proof -
  obtain u v where u: "Release y # t = u @ Acquire Exclusive x # v" "Acquire Exclusive x \<notin> set u"
    "(Exclusive, x) \<notin> set h"
    "count_list u (Release x) < count_list h (Shared, x) + count_list u (Acquire Shared x)"
    using b by (auto simp: blocks_itself_def)
  then obtain u' where u': "u = Release y # u'" "t = u' @ Acquire Exclusive x # v" by (cases u) auto
  obtain m where m: "\<And>g. count_list h g = count_list (drop_held y h) g + of_bool (g = (m, y))"
    using count_drop_held [OF y] by blast
  have "m = Shared" if "y = x"
    using m [of "(m, x)"] u(3) that by (cases m) (auto simp: count_list_0_iff [symmetric])
  then have "count_list u' (Release x) < count_list (drop_held y h) (Shared, x) + count_list u' (Acquire Shared x)"
    using u(4) u'(1) m [of "(Shared, x)"] by (cases "y = x") auto
  then show ?thesis
    using u(2,3) u' set_drop_held [of y h] unfolding blocks_itself_def
    by (intro exI [of _ u'] exI [of _ v]) auto
qed

lemma blocks_itself_step:
  "lock_step s s' \<Longrightarrow> sound s \<Longrightarrow> j < length (ls_threads s) \<Longrightarrow> blocks_itself x (ls_threads s ! j) \<Longrightarrow>
   j < length (ls_threads s') \<and> blocks_itself x (ls_threads s' ! j)"
proof (induction rule: lock_step.induct)
  case (s_acquire i s h m y t k)
  have "(Shared, x) \<notin> set h" if "i = j" "(m, y) = (Exclusive, x)"
  proof
    assume "(Shared, x) \<in> set h"
    then have "count_list (all_held s) (Shared, x) > 0"
      using count_le_all [OF s_acquire(1), of "(Shared, x)"] s_acquire(2)
      by (metis count_list_0_iff fst_conv gr0I le_zero_eq)
    moreover have "lock_counts (ls_locks s x) (count_list (all_held s) (Shared, x)) (count_list (all_held s) (Exclusive, x))"
      using s_acquire by (simp add: sound_def locks_counted_def)
    ultimately show False
      using s_acquire(3) that(2) by (cases "ls_locks s x") (auto simp: Mutex_lock_def wrlock_def of_bool_def split: if_splits)
  qed
  then show ?case using s_acquire blocks_itself_acquire [of x h m y t] by (auto simp: nth_list_update)
next
  case (s_release i s h y t k)
  have "balanced h (Release y # t)"
    using s_release unfolding sound_def list_all_length by (metis fst_conv snd_conv)
  then have "y \<in> snd ` set h" by simp
  then show ?case using s_release blocks_itself_release [of x h y t] by (auto simp: nth_list_update)
qed

lemma blocks_itself_forever:
  assumes "lock_step\<^sup>*\<^sup>* s s'" and "sound s" and "j < length (ls_threads s)" and "blocks_itself x (ls_threads s ! j)"
  shows "ls_threads s' ! j \<noteq> ([], [])"
proof -
  have "sound s' \<and> j < length (ls_threads s') \<and> blocks_itself x (ls_threads s' ! j)"
    using assms by (induction rule: rtranclp_induct) (auto dest: sound_step blocks_itself_step)
  then show ?thesis by (auto simp: blocks_itself_def)
qed

text \<open>Threads that make calls within the contract, and one more thread.\<close>

context lock_discipline
begin

lemma start_sound:
  assumes "list_all (list_all call) css" and "balanced [] t"
  shows "sound (calls_start locks (css @ [[t]]))"
proof -
  have "balanced [] (concat cs)" if "cs \<in> set css" for cs
    using calls_ordered [OF assms(1) that] by (rule ordered_balanced)
  moreover have "all_held (calls_start locks (css @ [[t]])) = []"
    by (simp add: all_held_def calls_start_def threads_start_def comp_def)
  moreover have "lock_counts (locks x) 0 0" for x
    using locks_free [of x] by (cases "locks x") (auto simp: Mutex_ctor_def RWMutex_ctor_def)
  ultimately show ?thesis
    using assms(2)
    by (auto simp: sound_def locks_counted_def calls_start_def threads_start_def list_all_iff)
qed

lemma never_returns:
  assumes "list_all (list_all call) css" and "balanced [] t" and "blocks_itself x ([], t)"
    and "lock_step\<^sup>*\<^sup>* (calls_start locks (css @ [[t]])) s"
  shows "ls_threads s ! length css \<noteq> ([], [])"
  using blocks_itself_forever [OF assms(4) start_sound [OF assms(1,2)], of "length css" x] assms(3)
  by (simp add: calls_start_def threads_start_def nth_append)

end

end
