(* ===== verification/Lock_Programs.thy ===== *)
theory Lock_Programs
  imports Lock_Order Log_Config
begin

text \<open>
  Which locks every call of the library takes, and that all of them together cannot deadlock.
  For each function that constructs a guard there is its lock program: the trace of the guards
  it constructs and destroys, for the decisions it takes (the conditions of the branches a guard
  is in are arguments, or are read from the logger model's state).  Code that only calls others
  is the sequence of their programs.  A log message is a call of \<open>Logger::log\<close>: where the code
  logs with a lock held, the messages it writes are arguments, as the logger's level and the
  loggers' appenders decide which locks they take.  The semaphores of \<open>thread.cc\<close> are not part of
  the order: the thread a constructor waits for posts before it takes any lock.
\<close>

section \<open>The locks of the library\<close>

text \<open>The registry's mutex, a variable's, an IO manager's, a descriptor context's, a timer
  manager's, a scheduler's, the descriptor table's, the logger manager's, a logger's and an
  appender's; objects are named by their address.\<close>

datatype lock =
    Registry
  | Var addr
  | Io addr
  | FdC addr
  | Tm addr
  | Sc addr
  | FdTable
  | LogMgr
  | Lg addr
  | Ap addr

definition library_locks :: "lock \<Rightarrow> lock_object" where
  "library_locks x =
     (case x of
        Registry \<Rightarrow> Rw RWMutex_ctor
      | Var _ \<Rightarrow> Rw RWMutex_ctor
      | Io _ \<Rightarrow> Rw RWMutex_ctor
      | FdC _ \<Rightarrow> Mtx Mutex_ctor
      | Tm _ \<Rightarrow> Rw RWMutex_ctor
      | Sc _ \<Rightarrow> Mtx Mutex_ctor
      | FdTable \<Rightarrow> Rw RWMutex_ctor
      | LogMgr \<Rightarrow> Mtx Mutex_ctor
      | Lg _ \<Rightarrow> Mtx Mutex_ctor
      | Ap _ \<Rightarrow> Mtx Mutex_ctor)"

text \<open>The order the library takes them in; the root logger comes after the others, as they
  log to it.\<close>

fun lock_rank :: "addr \<Rightarrow> lock \<Rightarrow> nat" where
  "lock_rank root Registry = 0"
| "lock_rank root (Var _) = 1"
| "lock_rank root (Io _) = 2"
| "lock_rank root (FdC _) = 3"
| "lock_rank root (Tm _) = 4"
| "lock_rank root (Sc _) = 5"
| "lock_rank root FdTable = 6"
| "lock_rank root LogMgr = 7"
| "lock_rank root (Lg a) = (if a = root then 9 else 8)"
| "lock_rank root (Ap _) = 10"

section \<open>Loggers\<close>

text \<open>\<open>Logger::log\<close>: the level is compared before the lock is taken, and the root logger's
  \<open>log\<close> runs with the lock held; the appenders take none.\<close>

fun log_locks :: "nat \<Rightarrow> addr \<Rightarrow> level \<Rightarrow> log_state \<Rightarrow> lock trace" where
  "log_locks 0 a lvl s = []"
| "log_locks (Suc n) a lvl s =
     (case deref (lg_loggers s) a of
        Inl _ \<Rightarrow> []
      | Inr l \<Rightarrow>
          if lvl \<ge> lo_level l then
            locked Exclusive (Lg a)
              (if lo_appenders l \<noteq> [] then []
               else (case lo_root l of Some r \<Rightarrow> log_locks n r lvl s | None \<Rightarrow> []))
          else [])"

text \<open>Messages written one after the other: each with the state of the loggers at that moment.\<close>

type_synonym log_msg = "addr \<times> level \<times> log_state"

definition says :: "log_msg list \<Rightarrow> lock trace" where
  "says ms = concat (map (\<lambda>(a, lvl, s). log_locks 2 a lvl s) ms)"

definition appenders_of :: "addr \<Rightarrow> log_state \<Rightarrow> addr list" where
  "appenders_of a s = (case deref (lg_loggers s) a of Inr l \<Rightarrow> lo_appenders l | Inl _ \<Rightarrow> [])"

definition setFormatter_locks :: "addr \<Rightarrow> log_state \<Rightarrow> lock trace" where
  "setFormatter_locks a s =
     locked Exclusive (Lg a) (concat (map (\<lambda>p. locked Exclusive (Ap p) []) (appenders_of a s)))"

text \<open>\<open>setFormatter\<close> with a text: an invalid pattern is only reported.\<close>

definition setFormatter_str_locks :: "string \<Rightarrow> addr \<Rightarrow> log_state \<Rightarrow> lock trace" where
  "setFormatter_str_locks val a s =
     (if fm_error (LogFormatter_ctor val) then [] else setFormatter_locks a s)"

definition appender_getFormatter_locks :: "addr \<Rightarrow> lock trace" where
  "appender_getFormatter_locks p = locked Exclusive (Ap p) []"

definition addAppender_locks :: "addr \<Rightarrow> addr \<Rightarrow> lock trace" where
  "addAppender_locks p a = locked Exclusive (Lg a) (appender_getFormatter_locks p)"

text \<open>\<open>delAppender\<close> locks the appenders in turn up to the one it removes.\<close>

fun del_loop_locks :: "addr \<Rightarrow> addr list \<Rightarrow> lock trace" where
  "del_loop_locks p [] = []"
| "del_loop_locks p (q # qs) = locked Exclusive (Ap q) [] @ (if q = p then [] else del_loop_locks p qs)"

definition delAppender_locks :: "addr \<Rightarrow> addr \<Rightarrow> log_state \<Rightarrow> lock trace" where
  "delAppender_locks p a s = locked Exclusive (Lg a) (del_loop_locks p (appenders_of a s))"

definition clearAppenders_locks :: "addr \<Rightarrow> lock trace" where
  "clearAppenders_locks a = locked Exclusive (Lg a) []"

definition appender_toYaml_locks :: "addr \<Rightarrow> lock trace" where
  "appender_toYaml_locks p = locked Exclusive (Ap p) []"

definition Logger_toYaml_locks :: "addr \<Rightarrow> log_state \<Rightarrow> lock trace" where
  "Logger_toYaml_locks a s =
     locked Exclusive (Lg a) (concat (map appender_toYaml_locks (appenders_of a s)))"

definition LoggerManager_toYaml_locks :: "log_state \<Rightarrow> lock trace" where
  "LoggerManager_toYaml_locks s =
     locked Exclusive LogMgr (concat (map (\<lambda>(n, a). Logger_toYaml_locks a s) (lg_names s)))"

definition getLogger_locks :: "lock trace" where
  "getLogger_locks = locked Exclusive LogMgr []"

section \<open>The listener of the logger configuration\<close>

text \<open>The states between the steps are those of the listener's model, up to a fault; the new
  appenders have the addresses that follow the existing ones.\<close>

definition configure_locks :: "log_define \<Rightarrow> log_state \<Rightarrow> lock trace" where
  "configure_locks i s =
     (let (l, s1) = getLogger (ld_name i) s;
          p = length (lg_appenders s1)
      in getLogger_locks
         @ (if ld_formatter i \<noteq> [] then setFormatter_str_locks (ld_formatter i) l s1 else [])
         @ clearAppenders_locks l
         @ concat (map (\<lambda>p. addAppender_locks p l) [p ..< p + length (ld_appenders i)]))"

fun delete_missing_locks :: "log_define list \<Rightarrow> log_define list \<Rightarrow> log_state \<Rightarrow> lock trace" where
  "delete_missing_locks new_value [] s = []"
| "delete_missing_locks new_value (i # old) s =
     (if sset_find LogDefine_less i new_value = length new_value then
        getLogger_locks @ clearAppenders_locks (fst (getLogger (ld_name i) s))
        @ (case delete_logger i s of Inr s1 \<Rightarrow> delete_missing_locks new_value old s1 | Inl _ \<Rightarrow> [])
      else delete_missing_locks new_value old s)"

fun conf_loop_locks ::
  "(string \<Rightarrow> bool) \<Rightarrow> log_define list \<Rightarrow> log_define list \<Rightarrow> log_define list \<Rightarrow> log_state \<Rightarrow> lock trace" where
  "conf_loop_locks ok old_value new_value [] s = []"
| "conf_loop_locks ok old_value new_value (i # js) s =
     (if unchanged old_value i then conf_loop_locks ok old_value new_value js s
      else configure_locks i s
           @ (case configure_logger ok i s of
                Inl _ \<Rightarrow> []
              | Inr s1 \<Rightarrow>
                  delete_missing_locks new_value old_value s1
                  @ (case delete_missing new_value old_value s1 of
                       Inl _ \<Rightarrow> []
                     | Inr s2 \<Rightarrow> conf_loop_locks ok old_value new_value js s2)))"

definition conf_changed_locks ::
  "(string \<Rightarrow> bool) \<Rightarrow> log_define list \<Rightarrow> log_define list \<Rightarrow> log_state \<Rightarrow> lock trace" where
  "conf_changed_locks ok old_value new_value s =
     says [(lg_root s, INFO, s)] @ conf_loop_locks ok old_value new_value new_value s"

section \<open>Configuration\<close>

definition getValue_locks :: "addr \<Rightarrow> lock trace" where
  "getValue_locks v = locked Shared (Var v) []"

text \<open>\<open>toString\<close> and \<open>fromString\<close> log a failed conversion after the guards are gone, as the handler
  runs when the stack is unwound.\<close>

definition toString_locks :: "addr \<Rightarrow> log_msg list \<Rightarrow> lock trace" where
  "toString_locks v failed = locked Shared (Var v) [] @ says failed"

text \<open>\<open>setValue\<close>: \<open>changed\<close> is the result of the comparison, \<open>cbs\<close> the locks of the listeners that
  run and \<open>returns\<close> whether none of them throws.\<close>

definition setValue_locks :: "addr \<Rightarrow> bool \<Rightarrow> lock trace list \<Rightarrow> bool \<Rightarrow> lock trace" where
  "setValue_locks v changed cbs returns =
     locked Shared (Var v) (if changed then concat cbs else [])
     @ (if changed \<and> returns then locked Exclusive (Var v) [] else [])"

definition fromString_locks :: "lock trace \<Rightarrow> log_msg list \<Rightarrow> lock trace" where
  "fromString_locks sets failed = sets @ says failed"

definition addListener_locks :: "addr \<Rightarrow> lock trace" where
  "addListener_locks v = locked Exclusive (Var v) []"

definition delListerer_locks :: "addr \<Rightarrow> lock trace" where
  "delListerer_locks v = locked Exclusive (Var v) []"

definition getListener_locks :: "addr \<Rightarrow> lock trace" where
  "getListener_locks v = locked Shared (Var v) []"

definition clearListener_locks :: "addr \<Rightarrow> lock trace" where
  "clearListener_locks v = locked Exclusive (Var v) []"

text \<open>\<open>Lookup\<close> with a default: \<open>other\<close> is the variable of the name when its type is another; its
  value is written into the message.\<close>

definition Lookup_or_create_locks :: "(addr \<times> log_msg list) option \<Rightarrow> log_msg list \<Rightarrow> lock trace" where
  "Lookup_or_create_locks other ms =
     locked Exclusive Registry
       ((case other of Some (v, failed) \<Rightarrow> toString_locks v failed | None \<Rightarrow> []) @ says ms)"

definition Lookup_locks :: "lock trace" where
  "Lookup_locks = locked Shared Registry []"

definition LookupBase_locks :: "lock trace" where
  "LookupBase_locks = locked Shared Registry []"

definition Visit_locks :: "lock trace list \<Rightarrow> lock trace" where
  "Visit_locks cbs = locked Shared Registry (concat cbs)"

text \<open>\<open>LoadFromYaml\<close>: the messages on invalid names, then for each member the search and, where
  there is a variable, its \<open>fromString\<close>.\<close>

definition LoadFromYaml_locks :: "log_msg list \<Rightarrow> lock trace option list \<Rightarrow> lock trace" where
  "LoadFromYaml_locks invalid members =
     says invalid
     @ concat (map (\<lambda>m. LookupBase_locks @ (case m of Some t \<Rightarrow> t | None \<Rightarrow> [])) members)"

section \<open>Schedulers\<close>

text \<open>\<open>schedule\<close>, one task or several; \<open>tickle\<close> runs after the guard and may log.\<close>

definition schedule_locks :: "addr \<Rightarrow> log_msg list \<Rightarrow> lock trace" where
  "schedule_locks k tickles = locked Exclusive (Sc k) [] @ says tickles"

definition fetch_locks :: "addr \<Rightarrow> log_msg list \<Rightarrow> log_msg list \<Rightarrow> lock trace" where
  "fetch_locks k found tickles = locked Exclusive (Sc k) (says found) @ says tickles"

definition stopping_locks :: "addr \<Rightarrow> lock trace" where
  "stopping_locks k = locked Exclusive (Sc k) []"

definition Scheduler_start_locks :: "addr \<Rightarrow> log_msg list \<Rightarrow> lock trace" where
  "Scheduler_start_locks k failed = locked Exclusive (Sc k) (says failed)"

text \<open>\<open>stop\<close> up to the call of the root fiber: \<open>early\<close> and \<open>late\<close> are its two calls of the virtual
  \<open>stopping\<close>, empty where it does not come to them; and from the swap of the threads on.\<close>

definition stop_begin_locks :: "log_msg list \<Rightarrow> lock trace \<Rightarrow> log_msg list \<Rightarrow> lock trace \<Rightarrow> lock trace" where
  "stop_begin_locks begins early tickles late = says begins @ early @ says tickles @ late"

definition stop_end_locks :: "addr \<Rightarrow> log_msg list \<Rightarrow> lock trace" where
  "stop_end_locks k ms = locked Exclusive (Sc k) [] @ says ms"

section \<open>Timers\<close>

text \<open>Dropping a callback can destroy a fiber it keeps, whose destructor logs.\<close>

definition Timer_cancel_locks :: "addr \<Rightarrow> log_msg list \<Rightarrow> lock trace" where
  "Timer_cancel_locks m dropped = locked Exclusive (Tm m) (says dropped)"

definition Timer_refresh_locks :: "addr \<Rightarrow> lock trace" where
  "Timer_refresh_locks m = locked Exclusive (Tm m) []"

definition Timer_reset_locks :: "bool \<Rightarrow> addr \<Rightarrow> lock trace" where
  "Timer_reset_locks same m = (if same then [] else locked Exclusive (Tm m) [])"

definition addTimer_locks :: "addr \<Rightarrow> lock trace" where
  "addTimer_locks m = locked Exclusive (Tm m) []"

definition getNextTimer_locks :: "addr \<Rightarrow> lock trace" where
  "getNextTimer_locks m = locked Shared (Tm m) []"

definition listExpiredCb_locks :: "bool \<Rightarrow> addr \<Rightarrow> lock trace" where
  "listExpiredCb_locks no_timers m =
     locked Shared (Tm m) [] @ (if no_timers then [] else locked Exclusive (Tm m) [])"

definition hasTimer_locks :: "addr \<Rightarrow> lock trace" where
  "hasTimer_locks m = locked Shared (Tm m) []"

section \<open>IO managers\<close>

text \<open>An IO manager is one object with its scheduler and its timer manager, so one address names
  the three locks.  A search of the context table: \<open>lock.unlock()\<close> comes before the context is
  locked.\<close>

definition addEvent_locks :: "addr \<Rightarrow> bool \<Rightarrow> addr \<Rightarrow> log_msg list \<Rightarrow> lock trace" where
  "addEvent_locks m grows p ms =
     locked Shared (Io m) []
     @ (if grows then locked Exclusive (Io m) [] else [])
     @ locked Exclusive (FdC p) (says ms)"

definition delEvent_locks :: "addr \<Rightarrow> addr option \<Rightarrow> log_msg list \<Rightarrow> lock trace" where
  "delEvent_locks m found ms =
     locked Shared (Io m) []
     @ (case found of Some p \<Rightarrow> locked Exclusive (FdC p) (says ms) | None \<Rightarrow> [])"

text \<open>\<open>triggerEvent\<close> schedules the waiter on its scheduler, with the context's lock held.\<close>

definition triggerEvent_locks :: "addr \<times> log_msg list \<Rightarrow> lock trace" where
  "triggerEvent_locks w = (case w of (k, tickles) \<Rightarrow> schedule_locks k tickles)"

definition cancelEvent_locks ::
  "addr \<Rightarrow> addr option \<Rightarrow> log_msg list \<Rightarrow> (addr \<times> log_msg list) option \<Rightarrow> lock trace" where
  "cancelEvent_locks m found ms waiter =
     locked Shared (Io m) []
     @ (case found of
          Some p \<Rightarrow>
            locked Exclusive (FdC p)
              (says ms @ (case waiter of Some w \<Rightarrow> triggerEvent_locks w | None \<Rightarrow> []))
        | None \<Rightarrow> [])"

definition cancelAll_locks ::
  "addr \<Rightarrow> addr option \<Rightarrow> log_msg list \<Rightarrow> (addr \<times> log_msg list) option \<Rightarrow> (addr \<times> log_msg list) option
   \<Rightarrow> lock trace" where
  "cancelAll_locks m found ms reader writer =
     locked Shared (Io m) []
     @ (case found of
          Some p \<Rightarrow>
            locked Exclusive (FdC p)
              (says ms
               @ (case reader of Some w \<Rightarrow> triggerEvent_locks w | None \<Rightarrow> [])
               @ (case writer of Some w \<Rightarrow> triggerEvent_locks w | None \<Rightarrow> []))
        | None \<Rightarrow> [])"

text \<open>\<open>stopping(timeout)\<close>: the scheduler is asked only without timers and pending events.\<close>

definition IO_stopping_timeout_locks :: "addr \<Rightarrow> bool \<Rightarrow> lock trace" where
  "IO_stopping_timeout_locks m quiet =
     getNextTimer_locks m @ (if quiet then stopping_locks m else [])"

definition IO_stopping_locks :: "addr \<Rightarrow> bool \<Rightarrow> lock trace" where
  "IO_stopping_locks m quiet = getNextTimer_locks m @ IO_stopping_timeout_locks m quiet"

text \<open>The part of the event loop for one reported descriptor.\<close>

definition process_event_locks ::
  "addr \<Rightarrow> log_msg list \<Rightarrow> (addr \<times> log_msg list) option \<Rightarrow> (addr \<times> log_msg list) option \<Rightarrow> lock trace" where
  "process_event_locks p ms reader writer =
     locked Exclusive (FdC p)
       (says ms
        @ (case reader of Some w \<Rightarrow> triggerEvent_locks w | None \<Rightarrow> [])
        @ (case writer of Some w \<Rightarrow> triggerEvent_locks w | None \<Rightarrow> []))"

text \<open>One turn of \<open>idle\<close>: \<open>stops\<close> is what \<open>stopping\<close> says, \<open>expired\<close> whether callbacks are due.\<close>

definition idle_locks ::
  "addr \<Rightarrow> bool \<Rightarrow> bool \<Rightarrow> log_msg list \<Rightarrow> bool \<Rightarrow> bool \<Rightarrow> log_msg list \<Rightarrow> lock trace list \<Rightarrow> lock trace" where
  "idle_locks m quiet stops ms no_timers expired tickles reports =
     IO_stopping_timeout_locks m quiet
     @ (if stops then says ms
        else listExpiredCb_locks no_timers m @ (if expired then schedule_locks m tickles else [])
             @ concat reports)"

section \<open>The descriptor table\<close>

definition get_locks :: "bool \<Rightarrow> bool \<Rightarrow> lock trace" where
  "get_locks found auto_create =
     locked Shared FdTable [] @ (if \<not> found \<and> auto_create then locked Exclusive FdTable [] else [])"

definition del_locks :: "lock trace" where
  "del_locks = locked Exclusive FdTable []"

section \<open>The ranking\<close>

text \<open>A message can be written whenever the locks held rank below the loggers.\<close>

definition msg_ok :: "addr \<Rightarrow> log_msg \<Rightarrow> bool" where
  "msg_ok root m = (case m of (a, lvl, s) \<Rightarrow> log_inv s \<and> lg_root s = root)"

text \<open>The waiters a call triggers, and the messages it writes where it wakes their scheduler.\<close>

definition waiter_ok :: "addr \<Rightarrow> (addr \<times> log_msg list) option \<Rightarrow> bool" where
  "waiter_ok root w = (case w of Some (k, tickles) \<Rightarrow> list_all (msg_ok root) tickles | None \<Rightarrow> True)"

lemma log_root_nested:
  "log_inv s \<Longrightarrow> nested (lock_rank (lg_root s)) 9 (log_locks (Suc 0) (lg_root s) lvl s)"
  by (auto simp: log_inv_def deref_def intro!: nested_intros)

lemma log_nested:
  assumes "log_inv s" shows "nested (lock_rank (lg_root s)) 8 (log_locks 2 a lvl s)"
proof (cases "a < length (lg_loggers s)")
  case True
  let ?l = "lg_loggers s ! a"
  have root: "lo_root ?l = None \<or> lo_root ?l = Some (lg_root s) \<and> a \<noteq> lg_root s"
    using assms True by (auto simp: log_inv_def list_all_length good_logger_def)
  have "log_locks 2 a lvl s =
    (if lvl \<ge> lo_level ?l then
       locked Exclusive (Lg a) (if lo_appenders ?l \<noteq> [] then []
         else (case lo_root ?l of Some r \<Rightarrow> log_locks (Suc 0) r lvl s | None \<Rightarrow> []))
     else [])"
    using True by (simp only: numeral_2_eq_2 log_locks.simps(2) deref_def if_True sum.case)
  then show ?thesis
    using root log_root_nested [OF assms, of lvl]
    by (auto simp del: log_locks.simps intro!: nested_if nested_locked)
qed (simp add: numeral_2_eq_2 deref_def)

lemma says_nested [nested_intros]:
  "n \<le> 8 \<Longrightarrow> list_all (msg_ok root) ms \<Longrightarrow> nested (lock_rank root) n (says ms)"
  by (auto simp: says_def list_all_iff msg_ok_def intro!: nested_concat nested_mono [OF log_nested])

text \<open>Programs of the logger, of rank 7 and above.\<close>

lemma appender_getFormatter_nested [nested_intros]:
  "n \<le> 10 \<Longrightarrow> nested (lock_rank root) n (appender_getFormatter_locks p)"
  by (auto simp: appender_getFormatter_locks_def intro!: nested_intros)

lemma setFormatter_nested [nested_intros]:
  "n \<le> 8 \<Longrightarrow> nested (lock_rank root) n (setFormatter_locks a s)"
  by (auto simp: setFormatter_locks_def intro!: nested_intros)

lemma setFormatter_str_nested [nested_intros]:
  "n \<le> 8 \<Longrightarrow> nested (lock_rank root) n (setFormatter_str_locks val a s)"
  by (auto simp: setFormatter_str_locks_def intro!: nested_intros)

lemma addAppender_nested [nested_intros]:
  "n \<le> 8 \<Longrightarrow> nested (lock_rank root) n (addAppender_locks p a)"
  by (auto simp: addAppender_locks_def intro!: nested_intros)

lemma del_loop_nested: "n \<le> 10 \<Longrightarrow> nested (lock_rank root) n (del_loop_locks p ps)"
  by (induction ps) (auto intro!: nested_intros)

lemma delAppender_nested [nested_intros]:
  "n \<le> 8 \<Longrightarrow> nested (lock_rank root) n (delAppender_locks p a s)"
  by (auto simp: delAppender_locks_def intro!: nested_intros del_loop_nested)

lemma clearAppenders_nested [nested_intros]:
  "n \<le> 8 \<Longrightarrow> nested (lock_rank root) n (clearAppenders_locks a)"
  by (auto simp: clearAppenders_locks_def intro!: nested_intros)

lemma appender_toYaml_nested [nested_intros]:
  "n \<le> 10 \<Longrightarrow> nested (lock_rank root) n (appender_toYaml_locks p)"
  by (auto simp: appender_toYaml_locks_def intro!: nested_intros)

lemma Logger_toYaml_nested [nested_intros]:
  "n \<le> 8 \<Longrightarrow> nested (lock_rank root) n (Logger_toYaml_locks a s)"
  by (auto simp: Logger_toYaml_locks_def intro!: nested_intros)

lemma LoggerManager_toYaml_nested [nested_intros]:
  "n \<le> 7 \<Longrightarrow> nested (lock_rank root) n (LoggerManager_toYaml_locks s)"
  by (auto simp: LoggerManager_toYaml_locks_def intro!: nested_intros)

lemma getLogger_nested [nested_intros]: "n \<le> 7 \<Longrightarrow> nested (lock_rank root) n getLogger_locks"
  by (auto simp: getLogger_locks_def intro!: nested_intros)

text \<open>The listener takes the loggers' locks only, so it can run with a variable locked.\<close>

lemma configure_nested [nested_intros]:
  "n \<le> 7 \<Longrightarrow> nested (lock_rank root) n (configure_locks i s)"
  by (auto simp: configure_locks_def Let_def split: prod.split intro!: nested_intros)

lemma delete_missing_nested [nested_intros]:
  "n \<le> 7 \<Longrightarrow> nested (lock_rank root) n (delete_missing_locks new_value old s)"
  by (induction new_value old s rule: delete_missing_locks.induct) (auto intro!: nested_intros)

lemma conf_loop_nested [nested_intros]:
  "n \<le> 7 \<Longrightarrow> nested (lock_rank root) n (conf_loop_locks ok old_value new_value js s)"
  by (induction ok old_value new_value js s rule: conf_loop_locks.induct) (auto intro!: nested_intros)

lemma conf_changed_nested:
  "n \<le> 7 \<Longrightarrow> log_inv s \<Longrightarrow> nested (lock_rank (lg_root s)) n (conf_changed_locks ok old_value new_value s)"
  by (auto simp: conf_changed_locks_def msg_ok_def intro!: nested_intros)

text \<open>Programs of the configuration.\<close>

lemma getValue_nested [nested_intros]: "n \<le> 1 \<Longrightarrow> nested (lock_rank root) n (getValue_locks v)"
  by (auto simp: getValue_locks_def intro!: nested_intros)

lemma toString_nested [nested_intros]:
  "n \<le> 1 \<Longrightarrow> list_all (msg_ok root) ms \<Longrightarrow> nested (lock_rank root) n (toString_locks v ms)"
  by (auto simp: toString_locks_def intro!: nested_intros)

lemma setValue_nested [nested_intros]:
  "n \<le> 1 \<Longrightarrow> list_all (nested (lock_rank root) 2) cbs \<Longrightarrow>
   nested (lock_rank root) n (setValue_locks v changed cbs returns)"
  by (auto simp: setValue_locks_def list_all_iff numeral_2_eq_2 intro!: nested_intros)

lemma fromString_nested [nested_intros]:
  "n \<le> 1 \<Longrightarrow> nested (lock_rank root) n t \<Longrightarrow> list_all (msg_ok root) ms \<Longrightarrow>
   nested (lock_rank root) n (fromString_locks t ms)"
  by (auto simp: fromString_locks_def intro!: nested_intros)

lemma listeners_nested [nested_intros]:
  "n \<le> 1 \<Longrightarrow> nested (lock_rank root) n (addListener_locks v)"
  "n \<le> 1 \<Longrightarrow> nested (lock_rank root) n (delListerer_locks v)"
  "n \<le> 1 \<Longrightarrow> nested (lock_rank root) n (getListener_locks v)"
  "n \<le> 1 \<Longrightarrow> nested (lock_rank root) n (clearListener_locks v)"
  by (auto simp: addListener_locks_def delListerer_locks_def getListener_locks_def
      clearListener_locks_def intro!: nested_intros)

definition other_ok :: "addr \<Rightarrow> (addr \<times> log_msg list) option \<Rightarrow> bool" where
  "other_ok root other = (case other of Some (v, failed) \<Rightarrow> list_all (msg_ok root) failed | None \<Rightarrow> True)"

lemma Lookup_nested [nested_intros]:
  "other_ok root other \<Longrightarrow> list_all (msg_ok root) ms \<Longrightarrow>
   nested (lock_rank root) 0 (Lookup_or_create_locks other ms)"
  "nested (lock_rank root) 0 Lookup_locks"
  "nested (lock_rank root) 0 LookupBase_locks"
  by (auto simp: Lookup_or_create_locks_def Lookup_locks_def LookupBase_locks_def other_ok_def
      intro!: nested_intros split: option.splits)

lemma Visit_nested [nested_intros]:
  "list_all (nested (lock_rank root) 1) cbs \<Longrightarrow> nested (lock_rank root) 0 (Visit_locks cbs)"
  by (auto simp: Visit_locks_def list_all_iff intro!: nested_intros)

text \<open>Programs of schedulers, timers, IO managers and the descriptor table.\<close>

lemma scheduler_nested [nested_intros]:
  "n \<le> 5 \<Longrightarrow> list_all (msg_ok root) ms \<Longrightarrow> nested (lock_rank root) n (schedule_locks k ms)"
  "n \<le> 5 \<Longrightarrow> list_all (msg_ok root) ms \<Longrightarrow> list_all (msg_ok root) ms' \<Longrightarrow>
   nested (lock_rank root) n (fetch_locks k ms ms')"
  "n \<le> 5 \<Longrightarrow> nested (lock_rank root) n (stopping_locks k)"
  "n \<le> 5 \<Longrightarrow> list_all (msg_ok root) ms \<Longrightarrow> nested (lock_rank root) n (Scheduler_start_locks k ms)"
  "n \<le> 5 \<Longrightarrow> list_all (msg_ok root) ms \<Longrightarrow> nested (lock_rank root) n (stop_end_locks k ms)"
  by (auto simp: schedule_locks_def fetch_locks_def stopping_locks_def Scheduler_start_locks_def
      stop_end_locks_def intro!: nested_intros)

lemma timer_nested [nested_intros]:
  "n \<le> 4 \<Longrightarrow> list_all (msg_ok root) ms \<Longrightarrow> nested (lock_rank root) n (Timer_cancel_locks m ms)"
  "n \<le> 4 \<Longrightarrow> nested (lock_rank root) n (Timer_refresh_locks m)"
  "n \<le> 4 \<Longrightarrow> nested (lock_rank root) n (Timer_reset_locks same m)"
  "n \<le> 4 \<Longrightarrow> nested (lock_rank root) n (addTimer_locks m)"
  "n \<le> 4 \<Longrightarrow> nested (lock_rank root) n (getNextTimer_locks m)"
  "n \<le> 4 \<Longrightarrow> nested (lock_rank root) n (listExpiredCb_locks no_timers m)"
  "n \<le> 4 \<Longrightarrow> nested (lock_rank root) n (hasTimer_locks m)"
  by (auto simp: Timer_cancel_locks_def Timer_refresh_locks_def Timer_reset_locks_def addTimer_locks_def
      getNextTimer_locks_def listExpiredCb_locks_def hasTimer_locks_def intro!: nested_intros)

lemma trigger_nested [nested_intros]:
  "n \<le> 5 \<Longrightarrow> waiter_ok root (Some w) \<Longrightarrow> nested (lock_rank root) n (triggerEvent_locks w)"
  by (auto simp: triggerEvent_locks_def waiter_ok_def split: prod.splits intro!: nested_intros)

lemma io_nested [nested_intros]:
  "n \<le> 2 \<Longrightarrow> list_all (msg_ok root) ms \<Longrightarrow> nested (lock_rank root) n (addEvent_locks m grows p ms)"
  "n \<le> 2 \<Longrightarrow> list_all (msg_ok root) ms \<Longrightarrow> nested (lock_rank root) n (delEvent_locks m found ms)"
  "n \<le> 2 \<Longrightarrow> list_all (msg_ok root) ms \<Longrightarrow> waiter_ok root w \<Longrightarrow>
   nested (lock_rank root) n (cancelEvent_locks m found ms w)"
  "n \<le> 2 \<Longrightarrow> list_all (msg_ok root) ms \<Longrightarrow> waiter_ok root w \<Longrightarrow> waiter_ok root w' \<Longrightarrow>
   nested (lock_rank root) n (cancelAll_locks m found ms w w')"
  "n \<le> 3 \<Longrightarrow> list_all (msg_ok root) ms \<Longrightarrow> waiter_ok root w \<Longrightarrow> waiter_ok root w' \<Longrightarrow>
   nested (lock_rank root) n (process_event_locks p ms w w')"
  "n \<le> 4 \<Longrightarrow> nested (lock_rank root) n (IO_stopping_timeout_locks m quiet)"
  "n \<le> 4 \<Longrightarrow> nested (lock_rank root) n (IO_stopping_locks m quiet)"
  by (auto simp: addEvent_locks_def delEvent_locks_def cancelEvent_locks_def cancelAll_locks_def
      process_event_locks_def IO_stopping_timeout_locks_def IO_stopping_locks_def intro!: nested_intros)

lemma fd_table_nested [nested_intros]:
  "n \<le> 6 \<Longrightarrow> nested (lock_rank root) n (get_locks found auto_create)"
  "n \<le> 6 \<Longrightarrow> nested (lock_rank root) n del_locks"
  by (auto simp: get_locks_def del_locks_def intro!: nested_intros)

section \<open>The calls of the library\<close>

text \<open>A reported descriptor's context, the messages and the waiters its report triggers.\<close>

type_synonym report = "addr \<times> log_msg list \<times> (addr \<times> log_msg list) option \<times> (addr \<times> log_msg list) option"

definition report_locks :: "report \<Rightarrow> lock trace" where
  "report_locks rp = (case rp of (p, ms, w, w') \<Rightarrow> process_event_locks p ms w w')"

definition report_ok :: "addr \<Rightarrow> report \<Rightarrow> bool" where
  "report_ok root rp =
     (case rp of (p, ms, w, w') \<Rightarrow> list_all (msg_ok root) ms \<and> waiter_ok root w \<and> waiter_ok root w')"

lemma report_nested: "n \<le> 3 \<Longrightarrow> report_ok root rp \<Longrightarrow> nested (lock_rank root) n (report_locks rp)"
  by (auto simp: report_locks_def report_ok_def intro!: nested_intros)

text \<open>What a document's member does: a conversion that throws sets nothing.  A listener may use
  everything but the configuration.\<close>

inductive assignment :: "addr \<Rightarrow> lock trace \<Rightarrow> bool" for root where
  a_set: "list_all (nested (lock_rank root) 2) cbs \<Longrightarrow> list_all (msg_ok root) ms \<Longrightarrow>
     assignment root (fromString_locks (setValue_locks v changed cbs returns) ms)"
| a_fails: "list_all (msg_ok root) ms \<Longrightarrow> assignment root (fromString_locks [] ms)"

text \<open>The program of one call, from any thread: every public function that takes a lock.\<close>

inductive library_call :: "addr \<Rightarrow> lock trace \<Rightarrow> bool" for root where
  c_log: "msg_ok root e \<Longrightarrow> library_call root (says [e])"
| c_setFormatter: "library_call root (setFormatter_locks a s)"
| c_setFormatter_str: "library_call root (setFormatter_str_locks val a s)"
| c_getFormatter: "library_call root (appender_getFormatter_locks p)"
| c_addAppender: "library_call root (addAppender_locks p a)"
| c_delAppender: "library_call root (delAppender_locks p a s)"
| c_clearAppenders: "library_call root (clearAppenders_locks a)"
| c_appender_yaml: "library_call root (appender_toYaml_locks p)"
| c_logger_yaml: "library_call root (Logger_toYaml_locks a s)"
| c_manager_yaml: "library_call root (LoggerManager_toYaml_locks s)"
| c_getLogger: "library_call root getLogger_locks"
| c_getValue: "library_call root (getValue_locks v)"
| c_toString: "list_all (msg_ok root) ms \<Longrightarrow> library_call root (toString_locks v ms)"
| c_setValue: "list_all (nested (lock_rank root) 2) cbs \<Longrightarrow>
    library_call root (setValue_locks v changed cbs returns)"
| c_fromString: "assignment root t \<Longrightarrow> library_call root t"
| c_addListener: "library_call root (addListener_locks v)"
| c_delListerer: "library_call root (delListerer_locks v)"
| c_getListener: "library_call root (getListener_locks v)"
| c_clearListener: "library_call root (clearListener_locks v)"
| c_create: "other_ok root other \<Longrightarrow> list_all (msg_ok root) ms \<Longrightarrow>
    library_call root (Lookup_or_create_locks other ms)"
| c_Lookup: "library_call root Lookup_locks"
| c_LookupBase: "library_call root LookupBase_locks"
| c_Visit: "list_all (nested (lock_rank root) 1) cbs \<Longrightarrow> library_call root (Visit_locks cbs)"
| c_LoadFromYaml: "list_all (msg_ok root) ms \<Longrightarrow> list_all (pred_option (assignment root)) members \<Longrightarrow>
    library_call root (LoadFromYaml_locks ms members)"
| c_schedule: "list_all (msg_ok root) ms \<Longrightarrow> library_call root (schedule_locks k ms)"
| c_fetch: "list_all (msg_ok root) ms \<Longrightarrow> list_all (msg_ok root) ms' \<Longrightarrow>
    library_call root (fetch_locks k ms ms')"
| c_stopping: "library_call root (stopping_locks k)"
| c_start: "list_all (msg_ok root) ms \<Longrightarrow> library_call root (Scheduler_start_locks k ms)"
| c_stop_begin: "list_all (msg_ok root) ms \<Longrightarrow> list_all (msg_ok root) tickles \<Longrightarrow>
    early \<in> {[], stopping_locks k, IO_stopping_locks k quiet} \<Longrightarrow>
    late \<in> {[], stopping_locks k, IO_stopping_locks k quiet'} \<Longrightarrow>
    library_call root (stop_begin_locks ms early tickles late)"
| c_stop_end: "list_all (msg_ok root) ms \<Longrightarrow> library_call root (stop_end_locks k ms)"
| c_cancel: "list_all (msg_ok root) ms \<Longrightarrow> library_call root (Timer_cancel_locks m ms)"
| c_refresh: "library_call root (Timer_refresh_locks m)"
| c_reset: "library_call root (Timer_reset_locks same m)"
| c_addTimer: "library_call root (addTimer_locks m)"
| c_getNextTimer: "library_call root (getNextTimer_locks m)"
| c_listExpired: "library_call root (listExpiredCb_locks no_timers m)"
| c_hasTimer: "library_call root (hasTimer_locks m)"
| c_addEvent: "list_all (msg_ok root) ms \<Longrightarrow> library_call root (addEvent_locks m grows p ms)"
| c_delEvent: "list_all (msg_ok root) ms \<Longrightarrow> library_call root (delEvent_locks m found ms)"
| c_cancelEvent: "list_all (msg_ok root) ms \<Longrightarrow> waiter_ok root w \<Longrightarrow>
    library_call root (cancelEvent_locks m found ms w)"
| c_cancelAll: "list_all (msg_ok root) ms \<Longrightarrow> waiter_ok root w \<Longrightarrow> waiter_ok root w' \<Longrightarrow>
    library_call root (cancelAll_locks m found ms w w')"
| c_io_stopping: "library_call root (IO_stopping_locks m quiet)"
| c_idle: "list_all (msg_ok root) ms \<Longrightarrow> list_all (msg_ok root) tickles \<Longrightarrow>
    list_all (report_ok root) reports \<Longrightarrow>
    library_call root
      (idle_locks m quiet stops ms no_timers expired tickles (map report_locks reports))"
| c_get: "library_call root (get_locks found auto_create)"
| c_del: "library_call root del_locks"

lemma assignment_nested: "assignment root t \<Longrightarrow> n \<le> 1 \<Longrightarrow> nested (lock_rank root) n t"
  by (induction rule: assignment.induct) (auto intro!: nested_intros)

lemma library_call_nested: "library_call root t \<Longrightarrow> nested (lock_rank root) 0 t"
proof (induction rule: library_call.induct)
  case (c_LoadFromYaml ms members)
  have "nested (lock_rank root) 0 t" if "Some t \<in> set members" for t
    using c_LoadFromYaml(2) that by (force simp: list_all_iff intro: assignment_nested)
  then show ?case using c_LoadFromYaml(1) by (auto simp: LoadFromYaml_locks_def intro!: nested_intros)
next
  case (c_idle ms tickles reports m quiet stops no_timers expired)
  have "nested (lock_rank root) 0 (report_locks rp)" if "rp \<in> set reports" for rp
    using c_idle(3) that by (auto simp: list_all_iff intro: report_nested)
  then show ?case using c_idle(1,2) by (auto simp: idle_locks_def intro!: nested_intros)
next
  case (c_fromString t)
  then show ?case by (simp add: assignment_nested)
qed (auto simp: stop_begin_locks_def intro!: nested_intros)

interpretation library: lock_discipline "lock_rank root" "library_call root" library_locks
  by unfold_locales
    (auto simp: library_call_nested library_locks_def split: lock.split)

section \<open>Properties\<close>

text \<open>C16: No deadlock: whatever calls of the library any number of threads make, and however they
  interleave, no reachable state is stuck.  Every guard's constructor that blocks does so while
  another thread can go on, every step brings the end nearer, and from every reachable state
  all calls can return, with all locks free.  A listener of a variable may use everything but the
  configuration, a callback of \<open>Visit\<close> everything but the registry.\<close>

theorem library_calls_never_deadlock:
  "list_all (list_all (library_call root)) css \<Longrightarrow> lock_step\<^sup>*\<^sup>* (calls_start library_locks css) s \<Longrightarrow>
     (all_finished s \<and> (\<forall>x. free (ls_locks s x)) \<or> (\<exists>s'. lock_step s s'))
     \<and> (\<forall>s'. lock_step s s' \<longrightarrow> work s = Suc (work s'))
     \<and> (\<exists>s'. lock_step\<^sup>*\<^sup>* s s' \<and> all_finished s' \<and> (\<forall>x. free (ls_locks s' x)))"
  using library.never_stuck library.always_finishes lock_step_work by blast

definition sample_message :: "log_state \<Rightarrow> log_msg" where
  "sample_message s = (lg_root s, INFO, s)"

text \<open>Two threads: one cancels an event, which schedules the waiter with a message of
  \<open>tickle\<close>; the other sets the variable of the logger configuration.\<close>

definition sample_calls :: "log_state \<Rightarrow> lock trace list list" where
  "sample_calls s =
     [[cancelEvent_locks 0 (Some 1) [] (Some (0, [sample_message s]))],
      [setValue_locks 0 True [conf_changed_locks (\<lambda>_. True) [] [] s] True, getLogger_locks]]"

theorem library_calls_never_deadlock_witness:
  "\<exists>s r s'. LoggerManager_ctor = Inr r \<and> lock_step (calls_start library_locks (sample_calls r)) s
     \<and> ls_threads s ! 0 = ([(Shared, Io 0)], tl (cancelEvent_locks 0 (Some 1) [] (Some (0, [sample_message r]))))
     \<and> lock_step\<^sup>*\<^sup>* s s' \<and> all_finished s'"
proof -
  obtain r where r: "LoggerManager_ctor = Inr r" using manager_state by blast
  then have inv: "log_inv r" by (rule manager_inv)
  let ?c = "cancelEvent_locks 0 (Some 1) [] (Some (0, [sample_message r]))"
  let ?s0 = "calls_start library_locks (sample_calls r)"
  have calls: "list_all (list_all (library_call (lg_root r))) (sample_calls r)"
    using inv conf_changed_nested [of 2 r "\<lambda>_. True" "[]" "[]"]
    by (auto simp: sample_calls_def waiter_ok_def sample_message_def msg_ok_def
        intro!: c_cancelEvent c_setValue c_getLogger)
  define s where "s = ?s0\<lparr>ls_locks := (ls_locks ?s0)(Io 0 := Rw \<lparr>rw_readers = 1, rw_writer = False\<rparr>),
      ls_threads := (ls_threads ?s0)[0 := ([(Shared, Io 0)], tl ?c)]\<rparr>"
  have "lock_step ?s0 s"
    unfolding s_def
    by (rule s_acquire)
      (simp_all add: calls_start_def threads_start_def sample_calls_def cancelEvent_locks_def locked_def
        library_locks_def rdlock_def RWMutex_ctor_def)
  moreover have "ls_threads s ! 0 = ([(Shared, Io 0)], tl ?c)"
    by (simp add: s_def calls_start_def threads_start_def sample_calls_def)
  moreover obtain s' where "lock_step\<^sup>*\<^sup>* s s'" "all_finished s'"
    using library_calls_never_deadlock [OF calls r_into_rtranclp] \<open>lock_step ?s0 s\<close> by blast
  ultimately show ?thesis using r by blast
qed

text \<open>What a listener of the variable \<open>v\<close> does when it changes the variable itself.\<close>

definition own_change :: "addr \<Rightarrow> lock trace list \<Rightarrow> lock trace \<Rightarrow> bool" where
  "own_change v inner t \<longleftrightarrow>
     t \<in> {addListener_locks v, delListerer_locks v, clearListener_locks v, setValue_locks v True inner True}"

lemma inner_facts:
  assumes "list_all (nested (lock_rank root) 2) inner"
  shows "balanced h (concat inner @ u) = balanced h u"
    "Acquire m (Var v) \<notin> set (concat inner)" "Release (Var v) \<notin> set (concat inner)"
proof -
  have n: "nested (lock_rank root) 2 (concat inner)"
    using assms by (auto simp: list_all_iff intro: nested_concat)
  then show "Acquire m (Var v) \<notin> set (concat inner)" "Release (Var v) \<notin> set (concat inner)"
    using nested_avoids [OF n, of "Var v"] by simp_all
  show "balanced h (concat inner @ u) = balanced h u"
    using n by (rule nested_balanced)
qed

lemma own_change_blocks:
  assumes own: "own_change v inner own" and inner: "list_all (nested (lock_rank root) 2) inner"
  shows "balanced [] (setValue_locks v True [own] returns)
    \<and> blocks_itself (Var v) ([], setValue_locks v True [own] returns)"
proof (cases "own = setValue_locks v True inner True")
  case True
  let ?u = "Acquire Shared (Var v) # Acquire Shared (Var v) # concat inner @ [Release (Var v)]"
  let ?rest = "if returns then [Acquire Exclusive (Var v), Release (Var v)] else []"
  have t: "setValue_locks v True [own] returns
    = ?u @ Acquire Exclusive (Var v) # Release (Var v) # Release (Var v) # ?rest"
    by (simp add: True setValue_locks_def locked_def)
  have "blocks_itself (Var v) ([], setValue_locks v True [own] returns)"
    unfolding t by (rule blocks_itselfI) (use inner_facts [OF inner] in \<open>simp_all\<close>)
  then show ?thesis using inner_facts [OF inner] by (simp add: t)
next
  case False
  let ?rest = "if returns then [Acquire Exclusive (Var v), Release (Var v)] else []"
  have t: "setValue_locks v True [own] returns
    = [Acquire Shared (Var v)] @ Acquire Exclusive (Var v) # Release (Var v) # Release (Var v) # ?rest"
    using own False by (auto simp: own_change_def setValue_locks_def addListener_locks_def delListerer_locks_def
        clearListener_locks_def locked_def)
  have "blocks_itself (Var v) ([], setValue_locks v True [own] returns)"
    unfolding t by (rule blocks_itselfI) simp_all
  then show ?thesis by (simp add: t)
qed

text \<open>C31: A listener that changes its own variable, by setting it or by adding or removing a
  listener, never returns: its thread waits for the writer's lock while it is itself a
  reader of the variable, whatever other threads do.  So does a callback of \<open>Visit\<close> that calls
  \<open>Lookup\<close> with a default value.\<close>

theorem listener_on_own_variable_deadlocks:
  "list_all (list_all (library_call root)) css \<Longrightarrow>
   t = setValue_locks v True [own] returns \<and> own_change v inner own \<and> list_all (nested (lock_rank root) 2) inner
   \<or> t = Visit_locks [Lookup_or_create_locks None []] \<Longrightarrow>
   lock_step\<^sup>*\<^sup>* (calls_start library_locks (css @ [[t]])) s \<Longrightarrow>
     ls_threads s ! length css \<noteq> ([], [])"
proof -
  assume css: "list_all (list_all (library_call root)) css"
    and t: "t = setValue_locks v True [own] returns \<and> own_change v inner own \<and> list_all (nested (lock_rank root) 2) inner
   \<or> t = Visit_locks [Lookup_or_create_locks None []]"
    and s: "lock_step\<^sup>*\<^sup>* (calls_start library_locks (css @ [[t]])) s"
  show ?thesis
  proof (cases "t = Visit_locks [Lookup_or_create_locks None []]")
    case True
    then have t: "t = [Acquire Shared Registry] @ Acquire Exclusive Registry # [Release Registry, Release Registry]"
      by (simp add: Visit_locks_def Lookup_or_create_locks_def locked_def says_def)
    have "balanced [] t" by (simp add: t)
    moreover have "blocks_itself Registry ([], t)"
      unfolding t by (rule blocks_itselfI) simp_all
    ultimately show ?thesis using library.never_returns [OF css] s by blast
  next
    case False
    then have o: "t = setValue_locks v True [own] returns" "own_change v inner own"
      and inner: "list_all (nested (lock_rank root) 2) inner" using t by simp_all
    then have "balanced [] t \<and> blocks_itself (Var v) ([], t)" using own_change_blocks by blast
    then show ?thesis using library.never_returns [OF css] s by blast
  qed
qed

text \<open>A listener that sets its variable back, while another thread reads it: the thread
  holds two readers' guards, and the inner assignment never gets the writer's.\<close>

theorem listener_on_own_variable_deadlocks_witness:
  "\<exists>s. lock_step (calls_start library_locks ([[getValue_locks 0]]
          @ [[setValue_locks 0 True [setValue_locks 0 True [] True] True]])) s
     \<and> fst (ls_threads s ! 1) = [(Shared, Var 0)] \<and> ls_threads s ! 1 \<noteq> ([], [])"
proof -
  let ?t = "setValue_locks 0 True [setValue_locks 0 True [] True] True"
  let ?s0 = "calls_start library_locks ([[getValue_locks 0]] @ [[?t]])"
  define s where "s = ?s0\<lparr>ls_locks := (ls_locks ?s0)(Var 0 := Rw \<lparr>rw_readers = 1, rw_writer = False\<rparr>),
      ls_threads := (ls_threads ?s0)[1 := ([(Shared, Var 0)], tl ?t)]\<rparr>"
  have step: "lock_step ?s0 s"
    unfolding s_def
    by (rule s_acquire)
      (simp_all add: calls_start_def threads_start_def setValue_locks_def locked_def library_locks_def
        rdlock_def RWMutex_ctor_def)
  have "ls_threads s ! length [[getValue_locks 0]] \<noteq> ([], [])"
    by (rule listener_on_own_variable_deadlocks [where t = ?t and v = 0 and returns = True and inner = "[]"
          and own = "setValue_locks 0 True [] True" and root = 0])
      (use step in \<open>auto simp: own_change_def intro: c_getValue\<close>)
  moreover have "fst (ls_threads s ! 1) = [(Shared, Var 0)]"
    by (simp add: s_def calls_start_def threads_start_def)
  ultimately show ?thesis using step by auto
qed

end
