(* ===== verification/Spec2Isabelle.thy ===== *)
theory Spec2Isabelle
  imports Std_Set Timer Fiber Scheduler_System IO_Properties Fd_Manager Hook Log_Format Logger Config Log_Config
    Mutex_Lock Thread_Util Nio Blocking_IO Connect_Config Assertion Lock_Programs
begin

text \<open>
  A model of the server library \<open>awcotn\<close> (\<open>awcotn/*.h\<close>, \<open>awcotn/*.cc\<close>): user-level fibers run by a
  pool of threads, with timers, an \<open>epoll\<close> event loop, system calls hooked so that they suspend
  the fiber instead of the thread, a logger and a configuration registry.

  The parts, the theories that model them and what their lemmas show:

  \<^item> \<open>Prelude\<close>: machine integers, addresses, the faults an execution can end in
    (\<open>Abort\<close>: a failed \<open>AWCOTN_ASSERT\<close>; \<open>Undefined\<close>: undefined behaviour; \<open>Throws\<close>: an exception),
    vectors.  \<open>Std_Set\<close>, \<open>Std_Map\<close>: the standard containers on ordered lists, with the comparator's
    contract as the locales \<open>strict_weak_order\<close> and \<open>strict_total_order\<close>.
  \<^item> \<open>Timer\<close> (\<open>timer.h\<close>, \<open>timer.cc\<close>): timers in a set ordered by due time and address.  The
    invariant is kept by every call and excludes undefined behaviour; cancelled timers never
    fire; what a poll fires; the wait \<open>getNextTimer\<close> returns; once a timer is overdue no timer
    fires.
  \<^item> \<open>Fiber\<close> (\<open>fiber.h\<close>, \<open>fiber.cc\<close>): fiber objects and the \<open>ucontext\<close> switches between saved
    contexts.  Current fiber, states and saved contexts stay consistent over all switches; a
    suspended fiber cannot be destroyed.
  \<^item> \<open>Scheduler\<close> (\<open>scheduler.h\<close>, \<open>scheduler.cc\<close>): the task queue, and the worker loop as a step
    function whose steps are its critical sections and counter updates; \<open>sys_step\<close> interleaves
    the workers, the fibers they run and callers of \<open>schedule\<close> and \<open>stop\<close>.  The counters count
    the workers in the loop's regions; \<open>stopping\<close> means no task is queued, or held by a worker that
    has not counted it out; which task a worker takes; how a task that has already ended leaks a counter
    (\<open>Scheduler_System\<close>).  The contract of the virtual \<open>stopping\<close> is the locale \<open>stop_policy\<close>.
  \<^item> \<open>IO_Manager\<close> (\<open>iomanager.h\<close>, \<open>iomanager.cc\<close>): the context per descriptor, the \<open>epoll_ctl\<close>
    calls as a log, the event loop in the parts before and after \<open>epoll_wait\<close>.  The kernel's
    interest list, computed from the log, always equals the registered events, every call is
    accepted, the pending count is the number of waiters (\<open>IO_Invariant\<close>); what the calls do to a
    waiter, when the loop ends, races and aborts (\<open>IO_Properties\<close>).  \<open>IO_Registry\<close>: the abstract
    specification, a map from descriptors and events to waiters, and the refinement, failures
    included (locale \<open>waiter_registry\<close>); so no waiter is lost or handed over twice.
  \<^item> \<open>Nio\<close> (\<open>nio.cc\<close>): the earlier version of the IO manager, from which \<open>iomanager.cc\<close> is derived
    and which the build does not use, on the same state.  Both implement the registry
    of waiters and give the same results for any sequence of calls; they
    differ in which threads they wake, in what an error report triggers and in how long the
    event loop waits.
  \<^item> \<open>Fd_Manager\<close> (\<open>fd_manager.h\<close>, \<open>fd_manager.cc\<close>): the descriptor table refines a finite map
    (locale \<open>fd_map\<close>); two overlapping \<open>get\<close>s can create a context each.
  \<^item> \<open>Hook\<close> (\<open>hook.h\<close>, \<open>hook.cc\<close>): the hooked calls, each cut where the fiber suspends, with
    the original functions as parameters.  A call whose timer expires ends with \<open>ETIMEDOUT\<close>; the
    user's view of \<open>O_NONBLOCK\<close>; time-outs set through \<open>setsockopt\<close>.
  \<^item> \<open>Blocking_IO\<close>: a hooked call, the event loop, the scheduler and other threads together: a
    report schedules the blocked fiber once and the call tries again, whatever others do with
    other registrations; a report and a timeout together, in either order, wake it once; a
    \<open>sleep\<close> is ended by a round at exactly its due time, and by no other while the clock runs forward.
  \<^item> \<open>Connect_Config\<close>: the configuration and the hooked \<open>connect\<close> together: the static
    initialisation of \<open>hook.cc\<close>, the variable \<open>tcp.connect.timeout\<close> and its listener.  The
    time-out \<open>connect\<close> uses follows the variable as long as its listener stays and changes do not
    overlap; a time-out set by a
    document ends a blocked \<open>connect\<close>.
  \<^item> \<open>Log_Format\<close>, \<open>Logger\<close> (\<open>log.h\<close>, \<open>log.cc\<close>): the pattern parser, loggers, appenders and the
    manager.  Parsing inverts writing a pattern; a log call delivers to exactly the appenders
    that admit it and does not fail, unless a null formatter was set.
  \<^item> \<open>Yaml\<close>, \<open>Lexical_Cast\<close>, \<open>Config\<close> (\<open>config.h\<close>, \<open>config.cc\<close>): YAML nodes with the YAML library as
    parameters; the conversions, whose contract is the locale \<open>lexical_cast\<close>, kept by every
    container; variables, listeners and the registry; loading a document.  \<open>Log_Config\<close>: the
    logger definitions (interpreting the conversion contract and the order contract), the
    listener that applies them and the functions that write loggers back.
  \<^item> \<open>Mutex_Lock\<close>, \<open>Thread_Util\<close> (\<open>mutex.h\<close>, \<open>mutex.cc\<close>, \<open>thread.h\<close>, \<open>thread.cc\<close>, \<open>util.cc\<close>): locks
    and their guards (locale \<open>lockable\<close>), semaphores, the protocol that starts a thread, the
    clock and backtrace helpers.  \<open>Assertion\<close> (\<open>macro.h\<close>, \<open>singleton.h\<close>): the report of a failed
    assertion, and the singletons.
  \<^item> \<open>Lock_Order\<close>, \<open>Lock_Programs\<close>: every mutex of the library at once.  A call is the trace of the
    guards it constructs and destroys; threads interleave at each of them.  The contract of the
    calls is the locale \<open>lock_discipline\<close> (a ranking of the locks); under it no interleaving is
    ever stuck and all calls can return.  All public functions of the library that take a lock satisfy
    it, with the order: registry, variable, IO manager, descriptor context, timers, scheduler,
    descriptor table, logger manager, logger, root logger, appender.  Outside it: a listener
    that changes its own variable never returns.
  \<^item> This theory: the logger configuration end to end, from a YAML document through the
    registry and its listener to the loggers.

  How the parts interact: a hooked call (\<open>Hook\<close>) looks its descriptor up (\<open>Fd_Manager\<close>), adds a
  condition timer (\<open>Timer\<close>) and an event (\<open>IO_Manager\<close>) and suspends its fiber (\<open>Fiber\<close>); the
  event loop or the timer's callback reschedules the fiber (\<open>Scheduler\<close>).  The state of an IO
  manager contains the state of its scheduler and of its timer manager, as the class inherits
  from both.

  Conventions.  Objects shared by pointer are addressed by natural numbers; the address of a
  new object, the clock, the results of system calls and the choices of other threads are
  arguments.  Machine integers are words where they can wrap.  Code that runs under one lock
  without suspending is one definition; where the code leaves a lock in between, the parts are
  separate definitions and the lemmas on races interleave them.

  Fuel and termination: the pattern parser terminates because its index grows; the recursion
  of \<open>Logger::log\<close> to the root logger has fuel (as has the lock program
  of a message), and 2 is enough in every reachable state; the
  retry loop of a hooked call is a list of the results it gets.  The other loops are
  structural recursion on the containers they walk.

  Not modelled: the log messages of the other components, other than the locks they take
  (\<open>Lock_Programs\<close>); interleavings within the operations of the logger and the configuration,
  which are atomic in their own theories (\<open>setValue\<close> is modelled as a whole and as the two parts it
  is locked in); the preference of a read-write lock for waiting writers (a reader blocks only
  on a writer that has the lock); listeners that call the configuration (a listener of the model acts on
  the state outside it only; \<open>Lock_Programs\<close> shows what one that sets its own variable does); the destruction of mutexes, the contents of log files beyond the text
  written through a stream since it was opened, tests and generated files.
\<close>

section \<open>The logger configuration as a configuration variable\<close>

text \<open>The listener of the variable \<open>logs\<close> acts on the loggers, the state outside the
  configuration; \<open>LogIniter\<close> creates the variable and registers it (\<open>log.cc\<close>).\<close>

definition logs_listener :: "log_env \<Rightarrow> (log_define list, log_state) listener" where
  "logs_listener env old_value new_value s =
     (case on_logger_conf_changed env old_value new_value s of
        Some (Inr s') \<Rightarrow> (None, s')
      | Some (Inl f) \<Rightarrow> (Some f, s)
      | None \<Rightarrow> (Some (Abort ''does not return''), s))"

definition LogIniter ::
  "yaml_lib \<Rightarrow> log_env \<Rightarrow> (log_define list, log_state) config \<Rightarrow> (log_define list, log_state) config" where
  "LogIniter lib env c =
     (case Lookup_or_create (logs_type lib) ''logs'' [] ''logs config'' c of
        (Inr (Some a), c1) \<Rightarrow> snd (addListener (logs_listener env) a c1)
      | (_, c1) \<Rightarrow> c1)"

definition log_config :: "log_state \<Rightarrow> (log_define list, log_state) config" where
  "log_config s = \<lparr>cf_vars = [], cf_datas = [], cf_fun_id = (\<lambda>_. 0), cf_ext = s\<rparr>"

lemma LogIniter_state:
  "LogIniter lib env (log_config s) =
     \<lparr>cf_vars = [\<lparr>cv_name = ''logs'', cv_description = ''logs config'', cv_type = logs_type lib,
                  cv_val = [], cv_cbs = [(1, logs_listener env)]\<rparr>],
      cf_datas = [(''logs'', 0)], cf_fun_id = (\<lambda>_. 0)(''set<LogDefine>'' := 1), cf_ext = s\<rparr>"
  by (simp add: LogIniter_def log_config_def Lookup_or_create_def Let_def name_char_def addListener_def
      ConfigVar_ctor_def logs_type_def upd_var_def tolower_def)

lemma logs_document:
  "ListAllMember [] (Map [(Scalar ''logs'', Seq ns)]) =
     [([], Map [(Scalar ''logs'', Seq ns)]), (''logs'', Seq ns)]"
  by (simp add: ListAllMember.simps join_def scalar_text_def name_char_def)

lemma read_one_define:
  assumes "yaml_ok lib" and "storable d"
  shows "set_from lib LogDefine_less (LogDefine_from lib) (Emit lib (Seq [define_node d])) = Inr [forget_levels d]"
  using assms by (simp add: set_from_def read_seq define_round_trip_base)

lemma storable_forget_levels: "storable d \<Longrightarrow> storable (forget_levels d)"
  by (simp add: storable_def forget_levels_def forget_level_def storable_appender_def list_all_iff)

lemma forget_levels_sel [simp]:
  "ld_name (forget_levels d) = ld_name d" "ld_level (forget_levels d) = ld_level d"
  by (simp_all add: forget_levels_def)

lemma listener_configures:
  assumes inv: "log_inv s" and st: "storable d"
  obtains s' l where "logs_listener env [] [d] s = (None, s')" "map_of (lg_names s') (ld_name d) = Some l"
    "lo_level (lg_loggers s' ! l) = ld_level d"
    "map ((!) (lg_appenders s')) (lo_appenders (lg_loggers s' ! l))
       = map (configured (en_opens env) (lo_formatter (lg_loggers s' ! l))) (ld_appenders d)"
proof -
  obtain e where e: "on_logger_conf_changed env [] [d] s = Some
    (conf_loop (en_opens env) [] [d] [d]
       (delivered (en_strftime env) INFO e (targets s (lg_root s) INFO) s))"
    using listener_start [OF inv, of env "[]" "[d]"] by (auto simp: Let_def)
  obtain s' l where c: "configure_logger (en_opens env) d
       (delivered (en_strftime env) INFO e (targets s (lg_root s) INFO) s) = Inr s'"
    "map_of (lg_names s') (ld_name d) = Some l" "lo_level (lg_loggers s' ! l) = ld_level d"
    "map ((!) (lg_appenders s')) (lo_appenders (lg_loggers s' ! l))
       = map (configured (en_opens env) (lo_formatter (lg_loggers s' ! l))) (ld_appenders d)"
    using configure_logger_spec [OF delivered_inv [OF inv]] st by (metis storable_def)
  have "logs_listener env [] [d] s = (None, s')"
    using e c(1) by (simp add: logs_listener_def unchanged_def sset_find_def sset_lower_bound_def)
  then show thesis using that c by blast
qed

text \<open>C37: From a YAML document to the loggers: on a fresh configuration whose variable \<open>logs\<close> has
  the listener, loading a document whose key \<open>logs\<close> holds one definition leaves a logger of its
  name with the definition's level and exactly its appenders, as configured.  The definition is one a
  document can express: a level from \<open>UNKNOW\<close> to \<open>FATAL\<close>, and appenders that are files or the
  console, the latter without a file name.  What is stored and configured is the definition without
  the levels of its appenders, which the code writes but never reads.  The YAML library reads back the
  text it emits.\<close>

theorem document_configures_logger:
  "LoggerManager_ctor = Inr s \<Longrightarrow> yaml_ok lib \<Longrightarrow> storable d \<Longrightarrow>
     \<exists>c l. LoadFromYaml lib (Map [(Scalar ''logs'', Seq [define_node d])])
             (LogIniter lib env (log_config s)) = (None, c)
       \<and> getValue 0 c = [forget_levels d]
       \<and> fst (getLogger (ld_name d) (cf_ext c)) = l
       \<and> lo_level (lg_loggers (cf_ext c) ! l) = ld_level d
       \<and> map ((!) (lg_appenders (cf_ext c))) (lo_appenders (lg_loggers (cf_ext c) ! l))
           = map (configured (en_opens env) (lo_formatter (lg_loggers (cf_ext c) ! l)))
               (ld_appenders (forget_levels d))"
proof -
  assume s: "LoggerManager_ctor = Inr s" and y: "yaml_ok lib" and d: "storable d"
  let ?d = "forget_levels d"
  obtain s' l where l: "logs_listener env [] [?d] s = (None, s')"
    "map_of (lg_names s') (ld_name ?d) = Some l" "lo_level (lg_loggers s' ! l) = ld_level ?d"
    "map ((!) (lg_appenders s')) (lo_appenders (lg_loggers s' ! l))
       = map (configured (en_opens env) (lo_formatter (lg_loggers s' ! l))) (ld_appenders ?d)"
    using listener_configures [OF manager_inv [OF s] storable_forget_levels [OF d]] by blast
  let ?c = "LogIniter lib env (log_config s)"
  let ?c' = "upd_var 0 (\<lambda>v. v\<lparr>cv_val := [?d]\<rparr>) (?c\<lparr>cf_ext := s'\<rparr>)"
  have "fromString (Emit lib (Seq [define_node d])) 0 ?c = (Inr True, ?c')"
    using l(1) read_one_define [OF y d]
    by (simp add: fromString_def setValue_def LogIniter_state logs_type_def)
  then have "LoadFromYaml lib (Map [(Scalar ''logs'', Seq [define_node d])]) ?c = (None, ?c')"
    by (simp add: LoadFromYaml_def logs_document load_member_def LookupBase_def member_text_def
        LogIniter_state tolower_def Let_def)
  then show ?thesis
    using l by (intro exI [of _ ?c'] exI [of _ l])
      (simp add: getValue_def getLogger_def LogIniter_state upd_var_def)
qed

theorem document_configures_logger_witness:
  "\<exists>s c. LoggerManager_ctor = Inr s \<and>
     LoadFromYaml plain_lib (Map [(Scalar ''logs'', Seq [define_node two_appenders])])
       (LogIniter plain_lib some_env (log_config s)) = (None, c) \<and> getValue 0 c = [forget_levels two_appenders]"
proof -
  obtain s where s: "LoggerManager_ctor = Inr s" using manager_state by blast
  have "storable two_appenders"
    by (simp add: two_appenders_def storable_def storable_appender_def level_defs)
  then show ?thesis
    using s document_configures_logger [OF s plain_ok, of two_appenders some_env] by blast
qed

end
